(* ===== verification/EchOS_Prelude.thy ===== *)
theory EchOS_Prelude
  imports Main "HOL-Library.Word"
begin

text \<open>
  Shared vocabulary of the development: the widths of the kernel's integers, Rust's saturating
  and checked arithmetic on them, the ordered map \<^verbatim>\<open>BTreeMap\<close> as a key-sorted association list
  (used wherever the code iterates over the map; a map that is only looked up is a HOL map), the
  \<^verbatim>\<open>Vec\<close> operations the code uses on lists, and the lemma collections the components extend.

  The integer operations follow the release profile of \<^verbatim>\<open>Cargo.toml\<close>: plain arithmetic wraps at
  the width (the development profile would trap instead), and atomics wrap in every profile.
\<close>

unbundle bit_operations_syntax

section \<open>Integer widths\<close>

type_synonym u8 = "8 word"
type_synonym u16 = "16 word"
type_synonym u32 = "32 word"
type_synonym u64 = "64 word"

named_theorems echos_defs \<open>definitions of model operations, for unfolding\<close>
named_theorems echos_inv \<open>preservation of component invariants\<close>

definition sat_add :: "'a::len word \<Rightarrow> 'a word \<Rightarrow> 'a word" where
  "sat_add a b = (if unat a + unat b < 2 ^ LENGTH('a) then a + b else - 1)"

definition sat_sub :: "'a::len word \<Rightarrow> 'a word \<Rightarrow> 'a word" where
  "sat_sub a b = (if b \<le> a then a - b else 0)"

definition sat_mul :: "'a::len word \<Rightarrow> 'a word \<Rightarrow> 'a word" where
  "sat_mul a b = (if unat a * unat b < 2 ^ LENGTH('a) then a * b else - 1)"

lemma unat_minus_1: "unat (- 1 :: 'a::len word) = 2 ^ LENGTH('a) - 1"
  by (simp add: unsigned_minus_1_eq_mask mask_eq_exp_minus_1)

lemma unat_bound: "unat (a::'a::len word) \<le> 2 ^ LENGTH('a) - 1"
  using unsigned_less [of a, where ?'a = nat] by linarith

lemma unat_sat_add:
  "unat (sat_add (a::'a::len word) b) = min (unat a + unat b) (2 ^ LENGTH('a) - 1)"
proof (cases "unat a + unat b < 2 ^ LENGTH('a)")
  case True
  then show ?thesis
    by (simp add: sat_add_def unat_word_ariths)
next
  case False
  then have "2 ^ LENGTH('a) - 1 \<le> unat a + unat b"
    by linarith
  with False show ?thesis
    by (simp add: sat_add_def unat_minus_1)
qed

lemma unat_sat_sub: "unat (sat_sub (a::'a::len word) b) = unat a - unat b"
  by (auto simp: sat_sub_def unat_sub word_le_nat_alt)

lemma uint_sat_add:
  assumes "uint (a::'a::len word) + uint b < 2 ^ LENGTH('a)"
  shows "uint (sat_add a b) = uint a + uint b"
proof -
  have "int (unat a + unat b) < int (2 ^ LENGTH('a))"
    using assms unfolding uint_nat by simp
  then have "unat a + unat b < 2 ^ LENGTH('a)"
    by (simp only: of_nat_less_iff)
  then have "unat (sat_add a b) = unat a + unat b"
    by (simp only: unat_sat_add)
  then show ?thesis
    by (simp only: uint_nat of_nat_add)
qed

lemma uint_sat_sub:
  assumes "uint (b::'a::len word) \<le> uint a"
  shows "uint (sat_sub a b) = uint a - uint b"
proof -
  have "unat b \<le> unat a"
    using assms by (simp add: word_le_nat_alt [symmetric] word_le_def)
  then show ?thesis
    by (simp only: uint_nat unat_sat_sub of_nat_diff)
qed

lemma sat_add_ge [simp]: "(a::'a::len word) \<le> sat_add a b"
  using unat_bound [of a] by (simp add: word_le_nat_alt unat_sat_add)

lemma sat_sub_le [simp]: "sat_sub (a::'a::len word) b \<le> a"
  by (simp add: word_le_nat_alt unat_sat_sub)

lemma sat_add_0 [simp]: "sat_add a 0 = a"
  by (simp add: sat_add_def)

lemma sat_sub_0 [simp]: "sat_sub a 0 = a"
  by (simp add: sat_sub_def)

lemma sat_sub_self [simp]: "sat_sub a a = 0"
  by (simp add: sat_sub_def)

text \<open>Incrementing and decrementing a word that is not at its bound.\<close>

lemma unat_inc: "(a::'a::len word) \<noteq> - 1 \<Longrightarrow> unat (a + 1) = Suc (unat a)"
proof -
  assume "a \<noteq> - 1"
  then have "unat a \<noteq> 2 ^ LENGTH('a) - 1"
    by (metis unat_minus_1 word_unat_eq_iff)
  moreover have "unat a < 2 ^ LENGTH('a)"
    by simp
  ultimately have "Suc (unat a) < 2 ^ LENGTH('a)"
    by linarith
  then show ?thesis
    by (simp add: unat_word_ariths)
qed

lemma unat_dec: "(a::'a::len word) \<noteq> 0 \<Longrightarrow> Suc (unat (a - 1)) = unat a"
  by (simp add: unat_minus_one unat_gt_0)

lemma unat_ucast_small:
  "unat (c::'a::len word) < 2 ^ LENGTH('b::len) \<Longrightarrow> unat (ucast c :: 'b word) = unat c"
  by (simp add: unsigned_ucast_eq take_bit_nat_eq_self)

lemma unat_of_nat_small: "k < 2 ^ LENGTH('a) \<Longrightarrow> unat (of_nat k :: 'a::len word) = k"
  by (simp add: unsigned_of_nat take_bit_nat_eq_self)

text \<open>Signed readings of 32-bit patterns, for \<open>i32\<close> values kept as words.\<close>

lemma sint32_bounds: "- 2147483648 \<le> sint (d::u32)" "sint (d::u32) < 2147483648"
  using sint_ge [of d] sint_lt [of d] by simp_all

lemma uint_sint32: "uint (d::u32) = sint d mod 2 ^ 32"
  using uint_sint [of d] by (simp add: take_bit_eq_mod)

lemma uint_of_pos32: "0 <s (d::u32) \<Longrightarrow> uint d = sint d"
  using uint_sint32 [of d] sint32_bounds [of d] by (simp add: word_sless_alt)

lemma uint_of_neg32:
  assumes "\<not> 0 <s (d::u32)"
  shows "uint (- d) = - sint d"
proof -
  have "uint (- d) = (- sint d) mod 2 ^ 32"
    using uint_word_ariths(4) [of d] by (simp add: uint_sint32 mod_minus_eq)
  then show ?thesis
    using assms sint32_bounds [of d] by (simp add: word_sless_alt)
qed

lemma sint_of_int32: "- 2147483648 \<le> k \<Longrightarrow> k < 2147483648 \<Longrightarrow> sint (word_of_int k :: u32) = k"
  by (simp add: signed_of_int signed_take_bit_int_eq_self)

lemma sint_add_of_int32:
  assumes "- 2147483648 \<le> sint (d::u32) + k" "sint d + k < 2147483648"
  shows "sint (d + word_of_int k) = sint d + k"
proof -
  have "d + word_of_int k = word_of_int (sint d + k)"
    using scast_id [of d] by (simp add: scast_eq)
  then show ?thesis using sint_of_int32 [OF assms] by simp
qed

lemma sint32_eq_0 [simp]: "sint (d::u32) = 0 \<longleftrightarrow> d = 0"
proof
  assume "sint d = 0"
  moreover have "word_of_int (sint d) = d"
    using scast_id [of d] by (simp add: scast_eq)
  ultimately show "d = 0" by simp
qed simp

text \<open>Wrap-around of signed 32-bit sums, for \<open>i32\<close> values kept as integers.\<close>

definition i32_wrap :: "int \<Rightarrow> int" where
  "i32_wrap k = signed_take_bit 31 k"

lemma i32_wrap_id: "- 2147483648 \<le> k \<Longrightarrow> k < 2147483648 \<Longrightarrow> i32_wrap k = k"
  by (simp add: i32_wrap_def signed_take_bit_int_eq_self)

lemma set_updateD: "x \<in> set (xs[i := y]) \<Longrightarrow> x = y \<or> x \<in> set xs"
  using set_update_subset_insert [of xs i y] by auto

section \<open>Ordered maps\<close>

type_synonym ('k, 'v) btree = "('k \<times> 'v) list"

definition bt_wf :: "('k::linorder, 'v) btree \<Rightarrow> bool" where
  "bt_wf m \<longleftrightarrow> sorted_wrt (<) (map fst m)"

definition bt_get :: "('k, 'v) btree \<Rightarrow> 'k \<Rightarrow> 'v option" where
  "bt_get m k = map_of m k"

definition bt_insert :: "'k::linorder \<Rightarrow> 'v \<Rightarrow> ('k, 'v) btree \<Rightarrow> ('k, 'v) btree" where
  "bt_insert k v m = takeWhile (\<lambda>e. fst e < k) m @ (k, v) # dropWhile (\<lambda>e. fst e \<le> k) m"

definition bt_remove :: "'k \<Rightarrow> ('k, 'v) btree \<Rightarrow> ('k, 'v) btree" where
  "bt_remove k m = filter (\<lambda>e. fst e \<noteq> k) m"

lemma bt_wf_Nil [simp]: "bt_wf []"
  by (simp add: bt_wf_def)

lemma bt_wf_Cons: "bt_wf (e # m) \<longleftrightarrow> (\<forall>x \<in> set m. fst e < fst x) \<and> bt_wf m"
  by (auto simp: bt_wf_def)

lemma bt_wf_append:
  "bt_wf (m @ n) \<longleftrightarrow> bt_wf m \<and> bt_wf n \<and> (\<forall>x \<in> set m. \<forall>y \<in> set n. fst x < fst y)"
  by (auto simp: bt_wf_def sorted_wrt_append)

lemma bt_wf_distinct: "bt_wf m \<Longrightarrow> distinct (map fst m)"
  by (simp add: bt_wf_def strict_sorted_iff)

lemma bt_get_Nil [simp]: "bt_get [] k = None"
  by (simp add: bt_get_def)

lemma bt_get_Cons: "bt_get (e # m) k = (if fst e = k then Some (snd e) else bt_get m k)"
  by (simp add: bt_get_def)

lemma bt_get_in_set: "bt_get m k = Some v \<Longrightarrow> (k, v) \<in> set m"
  by (simp add: bt_get_def map_of_SomeD)

lemma bt_get_Some_iff: "bt_wf m \<Longrightarrow> bt_get m k = Some v \<longleftrightarrow> (k, v) \<in> set m"
  by (simp add: bt_get_def bt_wf_distinct)

lemma bt_get_None_iff: "bt_get m k = None \<longleftrightarrow> k \<notin> fst ` set m"
  by (simp add: bt_get_def map_of_eq_None_iff)

lemma bt_insert_Nil [simp]: "bt_insert k v [] = [(k, v)]"
  by (simp add: bt_insert_def)

lemma bt_dropWhile_eq:
  "bt_wf m \<Longrightarrow> dropWhile (\<lambda>e. fst e \<le> k) m = filter (\<lambda>e. k < fst e) m"
  by (induction m) (auto simp: bt_wf_Cons not_le intro!: filter_True [symmetric])

lemma bt_takeWhile_eq:
  "bt_wf m \<Longrightarrow> takeWhile (\<lambda>e. fst e < k) m = filter (\<lambda>e. fst e < k) m"
proof (induction m)
  case (Cons e m)
  have "filter (\<lambda>e. fst e < k) m = []" if "\<not> fst e < k"
    using Cons.prems that by (auto simp: bt_wf_Cons filter_empty_conv)
  then show ?case
    using Cons by (auto simp: bt_wf_Cons)
qed simp

lemma bt_insert_filter:
  "bt_wf m \<Longrightarrow> bt_insert k v m = filter (\<lambda>e. fst e < k) m @ (k, v) # filter (\<lambda>e. k < fst e) m"
  by (simp add: bt_insert_def bt_dropWhile_eq bt_takeWhile_eq)

lemma set_bt_insert:
  "bt_wf m \<Longrightarrow> set (bt_insert k v m) = insert (k, v) {e \<in> set m. fst e \<noteq> k}"
  by (auto simp: bt_insert_filter)

lemma bt_wf_filter: "bt_wf m \<Longrightarrow> bt_wf (filter P m)"
  by (induction m) (auto simp: bt_wf_Cons)

lemma bt_wf_insert [simp, intro]: "bt_wf m \<Longrightarrow> bt_wf (bt_insert k v m)"
  by (auto simp: bt_insert_filter bt_wf_append bt_wf_Cons bt_wf_filter)

lemma bt_get_insert:
  "bt_wf m \<Longrightarrow> bt_get (bt_insert k v m) j = (if j = k then Some v else bt_get m j)"
proof -
  assume wf: "bt_wf m"
  have "bt_get (bt_insert k v m) j = Some w \<longleftrightarrow> (if j = k then Some v else bt_get m j) = Some w" for w
    using wf by (auto simp: bt_get_Some_iff set_bt_insert)
  then show ?thesis
    by (metis not_Some_eq)
qed

lemma set_bt_remove: "set (bt_remove k m) = {e \<in> set m. fst e \<noteq> k}"
  by (auto simp: bt_remove_def)

lemma bt_wf_remove [simp, intro]: "bt_wf m \<Longrightarrow> bt_wf (bt_remove k m)"
  by (simp add: bt_remove_def bt_wf_filter)

lemma bt_get_remove: "bt_get (bt_remove k m) j = (if j = k then None else bt_get m j)"
  by (induction m) (auto simp: bt_remove_def bt_get_def)

lemma bt_remove_absent: "bt_get m k = None \<Longrightarrow> bt_remove k m = m"
  by (force simp: bt_remove_def bt_get_None_iff filter_id_conv)

lemmas bt_simps = bt_get_insert bt_get_remove set_bt_insert set_bt_remove

section \<open>Vectors\<close>

text \<open>\<^verbatim>\<open>Vec::remove(i)\<close> for an index in range.\<close>

definition vec_remove :: "nat \<Rightarrow> 'a list \<Rightarrow> 'a list" where
  "vec_remove i xs = take i xs @ drop (Suc i) xs"

lemma vec_remove_Cons_0 [simp]: "vec_remove 0 (x # xs) = xs"
  by (simp add: vec_remove_def)

lemma length_vec_remove [simp]: "i < length xs \<Longrightarrow> length (vec_remove i xs) = length xs - 1"
  by (simp add: vec_remove_def)

text \<open>\<^verbatim>\<open>iter().position(p)\<close>.\<close>

fun position :: "('a \<Rightarrow> bool) \<Rightarrow> 'a list \<Rightarrow> nat option" where
  "position p [] = None"
| "position p (x # xs) = (if p x then Some 0 else map_option Suc (position p xs))"

lemma position_0: "xs \<noteq> [] \<Longrightarrow> p (xs ! 0) \<Longrightarrow> position p xs = Some 0"
  by (cases xs) simp_all

lemma position_None_iff: "position p xs = None \<longleftrightarrow> (\<forall>x \<in> set xs. \<not> p x)"
  by (induction xs) auto

lemma position_SomeD:
  "position p xs = Some i \<Longrightarrow> i < length xs \<and> p (xs ! i) \<and> (\<forall>j < i. \<not> p (xs ! j))"
  by (induction xs arbitrary: i) (auto simp: less_Suc_eq_0_disj split: if_splits)

end
