(* ===== verification/Fifo_Contract.thy ===== *)
theory Fifo_Contract
  imports EchOS_Prelude
begin

text \<open>
  The contract that the kernel's bounded queues share (the terminal ring buffer, the typed
  channel, the task mailbox and the pipe): an abstract list of queued items, an enqueue that
  succeeds exactly when there is room and a dequeue that takes the oldest item.  The locale
  \<open>bounded_fifo\<close> states the contract; the lemmas in it are proved once and reach every queue
  through its interpretation.  The second part holds the ring-buffer lemmas that the array-backed
  queues need to meet the contract.
\<close>

section \<open>Runs of queue operations\<close>

datatype 'a fifo_op = Enq 'a | Deq

text \<open>
  \<open>fifo_run enq deq ops s\<close> executes a sequence of operations; it returns the items that were
  accepted, the items that were taken out, and the final state.
\<close>

fun fifo_run :: "('a \<Rightarrow> 's \<Rightarrow> bool \<times> 's) \<Rightarrow> ('s \<Rightarrow> 'a option \<times> 's) \<Rightarrow> 'a fifo_op list \<Rightarrow> 's \<Rightarrow>
    'a list \<times> 'a list \<times> 's" where
  "fifo_run enq deq [] s = ([], [], s)"
| "fifo_run enq deq (Enq x # ops) s =
     (let (ok, s') = enq x s; (ins, outs, t) = fifo_run enq deq ops s'
      in (if ok then x # ins else ins, outs, t))"
| "fifo_run enq deq (Deq # ops) s =
     (let (r, s') = deq s; (ins, outs, t) = fifo_run enq deq ops s'
      in (ins, case r of None \<Rightarrow> outs | Some x \<Rightarrow> x # outs, t))"

locale bounded_fifo =
  fixes inv :: "'s \<Rightarrow> bool"
    and items :: "'s \<Rightarrow> 'a list"
    and cap :: "'s \<Rightarrow> nat"
    and enq :: "'a \<Rightarrow> 's \<Rightarrow> bool \<times> 's"
    and deq :: "'s \<Rightarrow> 'a option \<times> 's"
  assumes enq_spec: "inv s \<Longrightarrow> enq x s = (ok, s') \<Longrightarrow>
      inv s' \<and> cap s' = cap s \<and> (ok \<longleftrightarrow> length (items s) < cap s) \<and>
      items s' = (if ok then items s @ [x] else items s)"
    and deq_spec: "inv s \<Longrightarrow> deq s = (r, s') \<Longrightarrow>
      inv s' \<and> cap s' = cap s \<and>
      (case items s of [] \<Rightarrow> r = None \<and> items s' = [] | x # xs \<Rightarrow> r = Some x \<and> items s' = xs)"
begin

text \<open>
  Nothing is lost, duplicated or reordered: what was queued, followed by what was accepted, is
  what came out followed by what is still queued.
\<close>

lemma run_conserves:
  assumes "inv s" and "fifo_run enq deq ops s = (ins, outs, t)"
  shows "items s @ ins = outs @ items t \<and> inv t \<and> cap t = cap s"
  using assms
proof (induction ops arbitrary: s ins outs)
  case Nil
  then show ?case by simp
next
  case (Cons a ops)
  show ?case
  proof (cases a)
    case (Enq x)
    obtain ok s' where e: "enq x s = (ok, s')" by fastforce
    obtain i' where r: "fifo_run enq deq ops s' = (i', outs, t)" and ins: "ins = (if ok then x # i' else i')"
      using Cons.prems(2) Enq e by (auto split: prod.splits)
    from enq_spec [OF Cons.prems(1) e] Cons.IH [OF _ r] ins show ?thesis
      by (auto split: if_splits)
  next
    case Deq
    obtain r s' where d: "deq s = (r, s')" by fastforce
    obtain o' where f: "fifo_run enq deq ops s' = (ins, o', t)"
      and outs: "outs = (case r of None \<Rightarrow> o' | Some x \<Rightarrow> x # o')"
      using Cons.prems(2) Deq d by (auto split: prod.splits)
    from deq_spec [OF Cons.prems(1) d] Cons.IH [OF _ f] outs show ?thesis
      by (auto split: list.splits)
  qed
qed

lemma run_bounded:
  assumes "inv s" and "length (items s) \<le> cap s" and "fifo_run enq deq ops s = (ins, outs, t)"
  shows "length (items t) \<le> cap t"
  using assms
proof (induction ops arbitrary: s ins outs)
  case Nil
  then show ?case by simp
next
  case (Cons a ops)
  show ?case
  proof (cases a)
    case (Enq x)
    obtain ok s' where e: "enq x s = (ok, s')" by fastforce
    obtain i' where r: "fifo_run enq deq ops s' = (i', outs, t)"
      using Cons.prems(3) Enq e by (auto split: prod.splits)
    from enq_spec [OF Cons.prems(1) e] Cons.prems(2) show ?thesis
      by (intro Cons.IH [OF _ _ r]) (auto split: if_splits)
  next
    case Deq
    obtain r s' where d: "deq s = (r, s')" by fastforce
    obtain o' where f: "fifo_run enq deq ops s' = (ins, o', t)"
      using Cons.prems(3) Deq d by (auto split: prod.splits)
    from deq_spec [OF Cons.prems(1) d] Cons.prems(2) show ?thesis
      by (intro Cons.IH [OF _ _ f]) (auto split: list.splits)
  qed
qed

text \<open>A burst that fits is accepted whole, and is given back in order.\<close>

lemma run_enqs:
  assumes "inv s" and "length (items s) + length xs \<le> cap s"
  shows "\<exists>t. fifo_run enq deq (map Enq xs) s = (xs, [], t) \<and> inv t \<and> cap t = cap s \<and>
    items t = items s @ xs"
  using assms
proof (induction xs arbitrary: s)
  case Nil
  then show ?case by simp
next
  case (Cons x xs)
  obtain ok s' where e: "enq x s = (ok, s')" by fastforce
  from enq_spec [OF Cons.prems(1) e] Cons.prems(2)
  have s': "ok" "inv s'" "cap s' = cap s" "items s' = items s @ [x]" by auto
  with Cons.prems(2) have "length (items s') + length xs \<le> cap s'" by simp
  from Cons.IH [OF s'(2) this] obtain t where
    "fifo_run enq deq (map Enq xs) s' = (xs, [], t)" "inv t" "cap t = cap s'" "items t = items s' @ xs"
    by blast
  with e s' show ?case by auto
qed

lemma run_deqs:
  assumes "inv s"
  shows "\<exists>t. fifo_run enq deq (replicate n Deq) s = ([], take n (items s), t) \<and> inv t \<and>
    cap t = cap s \<and> items t = drop n (items s)"
  using assms
proof (induction n arbitrary: s)
  case 0
  then show ?case by simp
next
  case (Suc n)
  obtain r s' where d: "deq s = (r, s')" by fastforce
  from deq_spec [OF Suc.prems d] have s': "inv s'" "cap s' = cap s" by auto
  from Suc.IH [OF s'(1)] obtain t where
    "fifo_run enq deq (replicate n Deq) s' = ([], take n (items s'), t)" "inv t" "cap t = cap s'"
    "items t = drop n (items s')" by blast
  with deq_spec [OF Suc.prems d] d s' show ?case
    by (cases "items s") auto
qed

end

section \<open>Array-backed rings\<close>

text \<open>
  The items of a ring over the array \<open>d\<close> with read index \<open>t\<close> and write index \<open>h\<close>, oldest first.
\<close>

definition ring_items :: "'a list \<Rightarrow> nat \<Rightarrow> nat \<Rightarrow> 'a list" where
  "ring_items d t h =
     map (\<lambda>i. d ! ((t + i) mod length d)) [0..<(h + length d - t) mod length d]"

lemma ring_dist:
  fixes t h n :: nat
  assumes "t < n" "h < n"
  shows "(h + n - t) mod n = (if t \<le> h then h - t else h + n - t)"
proof (cases "t \<le> h")
  case True
  then have "(h + n - t) mod n = ((h - t) + n) mod n" by simp
  also have "\<dots> = h - t" using assms by (simp only: mod_add_self2) simp
  finally show ?thesis using True by simp
qed (use assms in simp)

lemma ring_step: "t < (n::nat) \<Longrightarrow> Suc t mod n = (if Suc t = n then 0 else Suc t)"
  by auto

lemma ring_index:
  fixes t i n :: nat
  assumes "t < n" "i < n"
  shows "(t + i) mod n = (if t + i < n then t + i else t + i - n)"
  using assms by (simp add: le_mod_geq)

lemma ring_dist_push:
  fixes t h n :: nat
  assumes "t < n" "h < n" "Suc h mod n \<noteq> t"
  shows "(Suc h mod n + n - t) mod n = Suc ((h + n - t) mod n)"
proof (cases "Suc h = n")
  case True
  with assms show ?thesis
    using ring_dist [of t n 0] ring_dist [of t n h] by auto
next
  case False
  with assms have "Suc h < n" by simp
  with assms show ?thesis
    using ring_dist [of t n "Suc h"] ring_dist [of t n h] by auto
qed

lemma ring_dist_pop:
  fixes t h n :: nat
  assumes "t < n" "h < n" "t \<noteq> h"
  shows "(h + n - t) mod n = Suc ((h + n - Suc t mod n) mod n)"
proof (cases "Suc t = n")
  case True
  with assms show ?thesis
    using ring_dist [of 0 n h] ring_dist [of t n h] by auto
next
  case False
  with assms have "Suc t < n" by simp
  with assms show ?thesis
    using ring_dist [of "Suc t" n h] ring_dist [of t n h] by auto
qed

lemma length_ring_items [simp]: "length (ring_items d t h) = (h + length d - t) mod length d"
  by (simp add: ring_items_def)

lemma ring_items_bound: "d \<noteq> [] \<Longrightarrow> length (ring_items d t h) < length d"
  by simp

lemma ring_items_empty_iff:
  "t < length d \<Longrightarrow> h < length d \<Longrightarrow> ring_items d t h = [] \<longleftrightarrow> t = h"
  by (auto simp: ring_items_def ring_dist)

lemma ring_items_push:
  assumes "t < length d" "h < length d" "Suc h mod length d \<noteq> t"
  shows "ring_items (d[h := v]) t (Suc h mod length d) = ring_items d t h @ [v]"
proof (rule nth_equalityI)
  let ?n = "length d"
  define k where "k = (h + ?n - t) mod ?n"
  have len: "(Suc h mod ?n + ?n - t) mod ?n = Suc k"
    using ring_dist_push [of t ?n h] assms by (simp add: k_def)
  have k: "k = (if t \<le> h then h - t else h + ?n - t)"
    using assms by (simp add: k_def ring_dist)
  show "length (ring_items (d[h := v]) t (Suc h mod ?n)) = length (ring_items d t h @ [v])"
    by (simp add: len k_def)
  fix i assume "i < length (ring_items (d[h := v]) t (Suc h mod ?n))"
  then have i: "i < Suc k"
    by (simp add: len)
  show "ring_items (d[h := v]) t (Suc h mod ?n) ! i = (ring_items d t h @ [v]) ! i"
  proof (cases "i = k")
    case True
    have "(t + k) mod ?n = h"
      using assms by (auto simp: k)
    with True assms(2) show ?thesis
      by (simp add: ring_items_def len nth_append k_def del: upt_Suc)
  next
    case False
    with i have "i < k" by simp
    moreover from this have "(t + i) mod ?n \<noteq> h"
      using assms ring_index [of t ?n i] by (auto simp: k split: if_splits)
    ultimately show ?thesis
      by (simp add: ring_items_def len nth_append k_def [symmetric] del: upt_Suc)
  qed
qed

lemma ring_items_pop:
  assumes "t < length d" "h < length d" "t \<noteq> h"
  shows "ring_items d t h = d ! t # ring_items d (Suc t mod length d) h"
proof -
  let ?n = "length d" and ?t = "Suc t mod length d"
  have len: "(h + ?n - t) mod ?n = Suc ((h + ?n - ?t) mod ?n)"
    using ring_dist_pop [of t ?n h] assms by simp
  have idx: "(t + Suc i) mod ?n = (?t + i) mod ?n" for i
    using mod_add_left_eq [of "Suc t" ?n i] by simp
  have "[0..<Suc m] = 0 # map Suc [0..<m]" for m
    by (simp add: map_Suc_upt upt_conv_Cons del: upt_Suc)
  with assms(1) show ?thesis
    unfolding ring_items_def len by (simp add: idx del: upt_Suc add_Suc_right)
qed

lemma ring_dist_unpush:
  fixes t h n :: nat
  assumes "t < n" "h < n" "t \<noteq> h"
  shows "(h + n - t) mod n = Suc (((if h = 0 then n - 1 else h - 1) + n - t) mod n)"
proof (cases "h = 0")
  case True
  with assms have "(n - 1 + n - t) mod n = n - 1 - t" and "(0 + n - t) mod n = n - t"
    using ring_dist [of t n "n - 1"] ring_dist [of t n 0] by auto
  with True assms show ?thesis
    by simp
next
  case False
  then obtain m where m: "h = Suc m"
    using not0_implies_Suc by blast
  with assms have "(m + n - t) mod n = (if t \<le> m then m - t else m + n - t)"
    and "(Suc m + n - t) mod n = (if t \<le> Suc m then Suc m - t else Suc m + n - t)"
    using ring_dist [of t n m] ring_dist [of t n "Suc m"] by simp_all
  with assms m show ?thesis
    by auto
qed

lemma ring_items_unpush:
  assumes "t < length d" "h < length d" "t \<noteq> h"
  shows "ring_items d t (if h = 0 then length d - 1 else h - 1) = butlast (ring_items d t h)"
  unfolding ring_items_def ring_dist_unpush [OF assms] by simp

end
