(* ===== verification/Tty_Buffer.thy ===== *)
theory Tty_Buffer
  imports Fifo_Contract
begin

text \<open>
  The terminal ring buffer, \<^verbatim>\<open>src/tty/buffer.rs\<close>: a fixed array of 4096 bytes with a write index
  \<open>head\<close> and a read index \<open>tail\<close>; one slot is kept free to tell a full ring from an empty one.
  \<open>push\<close>, \<open>pop\<close> and \<open>unpush\<close> are modelled as the code orders their loads and stores, and the ring
  is shown to implement the bounded FIFO contract with 4095 places.  \<open>unpush\<close> is also modelled in
  its two atomic steps (read both indices, then compare-and-swap \<open>head\<close>), which exposes what
  happens when a \<open>pop\<close> runs between them.
\<close>

abbreviation TTY_BUF_SIZE :: nat where
  "TTY_BUF_SIZE \<equiv> 4096"

record tty_buffer =
  tb_data :: "u8 list"
  tb_head :: nat
  tb_tail :: nat

definition tty_buffer_new :: tty_buffer where
  "tty_buffer_new = \<lparr>tb_data = replicate TTY_BUF_SIZE 0, tb_head = 0, tb_tail = 0\<rparr>"

text \<open>\<^verbatim>\<open>Ok(())\<close> is \<open>True\<close>, \<^verbatim>\<open>Err(())\<close> is \<open>False\<close>.\<close>

definition tty_push :: "u8 \<Rightarrow> tty_buffer \<Rightarrow> bool \<times> tty_buffer" where
  "tty_push val b =
     (let head = tb_head b; next_head = (head + 1) mod TTY_BUF_SIZE
      in if next_head = tb_tail b then (False, b)
         else (True, b\<lparr>tb_data := (tb_data b)[head := val], tb_head := next_head\<rparr>))"

definition tty_pop :: "tty_buffer \<Rightarrow> u8 option \<times> tty_buffer" where
  "tty_pop b =
     (let tail = tb_tail b
      in if tail = tb_head b then (None, b)
         else (Some (tb_data b ! tail), b\<lparr>tb_tail := (tail + 1) mod TTY_BUF_SIZE\<rparr>))"

text \<open>
  One round of the \<^verbatim>\<open>unpush\<close> loop in its two atomic steps.  \<open>tty_unpush_load\<close> reads both indices
  and is \<open>None\<close> where the code returns \<^verbatim>\<open>false\<close>; \<open>tty_unpush_cas\<close> is the compare-and-swap with
  the index read before, \<open>None\<close> when it fails and the loop goes round again.
\<close>

definition tty_unpush_load :: "tty_buffer \<Rightarrow> nat option" where
  "tty_unpush_load b = (if tb_head b = tb_tail b then None else Some (tb_head b))"

definition tty_unpush_cas :: "nat \<Rightarrow> tty_buffer \<Rightarrow> tty_buffer option" where
  "tty_unpush_cas head b =
     (let prev_head = (if head = 0 then TTY_BUF_SIZE - 1 else head - 1)
      in if tb_head b = head then Some (b\<lparr>tb_head := prev_head\<rparr>) else None)"

text \<open>
  Run without interference the first round succeeds, so the loop is its two steps in sequence.
\<close>

definition tty_unpush :: "tty_buffer \<Rightarrow> bool \<times> tty_buffer" where
  "tty_unpush b =
     (case tty_unpush_load b of
        None \<Rightarrow> (False, b)
      | Some head \<Rightarrow> (case tty_unpush_cas head b of Some b' \<Rightarrow> (True, b') | None \<Rightarrow> (False, b)))"

definition tty_is_empty :: "tty_buffer \<Rightarrow> bool" where
  "tty_is_empty b \<longleftrightarrow> tb_head b = tb_tail b"

section \<open>Invariant and abstraction\<close>

definition tty_inv :: "tty_buffer \<Rightarrow> bool" where
  "tty_inv b \<longleftrightarrow> length (tb_data b) = TTY_BUF_SIZE \<and> tb_head b < TTY_BUF_SIZE \<and> tb_tail b < TTY_BUF_SIZE"

definition tty_items :: "tty_buffer \<Rightarrow> u8 list" where
  "tty_items b = ring_items (tb_data b) (tb_tail b) (tb_head b)"

abbreviation tty_cap :: "tty_buffer \<Rightarrow> nat" where
  "tty_cap b \<equiv> TTY_BUF_SIZE - 1"

lemmas tty_defs = tty_push_def tty_pop_def tty_unpush_def tty_unpush_load_def tty_unpush_cas_def
  tty_is_empty_def

lemma tty_inv_new [simp]: "tty_inv tty_buffer_new"
  by (simp add: tty_inv_def tty_buffer_new_def)

lemma tty_items_new [simp]: "tty_items tty_buffer_new = []"
  by (simp add: tty_items_def tty_buffer_new_def ring_items_def)

lemma tty_is_empty_iff: "tty_inv b \<Longrightarrow> tty_is_empty b \<longleftrightarrow> tty_items b = []"
  by (auto simp: tty_inv_def tty_items_def tty_is_empty_def ring_items_empty_iff)

lemma tty_items_bound: "tty_inv b \<Longrightarrow> length (tty_items b) \<le> TTY_BUF_SIZE - 1"
  using ring_items_bound [of "tb_data b" "tb_tail b" "tb_head b"]
  by (auto simp: tty_inv_def tty_items_def)

lemma tty_full_iff:
  assumes "tty_inv b"
  shows "Suc (tb_head b) mod TTY_BUF_SIZE = tb_tail b \<longleftrightarrow> length (tty_items b) = TTY_BUF_SIZE - 1"
proof -
  have len: "length (tty_items b) = (if tb_tail b \<le> tb_head b then tb_head b - tb_tail b
      else tb_head b + TTY_BUF_SIZE - tb_tail b)"
    using assms by (simp add: tty_inv_def tty_items_def ring_dist)
  show ?thesis
    using assms unfolding len by (auto simp: tty_inv_def ring_step)
qed

lemma tty_push_spec:
  assumes "tty_inv b" "tty_push v b = (ok, b')"
  shows "tty_inv b' \<and> (ok \<longleftrightarrow> length (tty_items b) < TTY_BUF_SIZE - 1) \<and>
    tty_items b' = (if ok then tty_items b @ [v] else tty_items b)"
proof (cases "Suc (tb_head b) mod TTY_BUF_SIZE = tb_tail b")
  case True
  with assms tty_full_iff [OF assms(1)] show ?thesis
    by (auto simp: tty_push_def Let_def)
next
  case False
  with assms have b': "b' = b\<lparr>tb_data := (tb_data b)[tb_head b := v], tb_head := Suc (tb_head b) mod TTY_BUF_SIZE\<rparr>"
    and "ok"
    by (auto simp: tty_push_def Let_def)
  moreover have "length (tty_items b) < TTY_BUF_SIZE - 1"
    using False tty_full_iff [OF assms(1)] tty_items_bound [OF assms(1)] by linarith
  moreover have "tty_items b' = tty_items b @ [v]"
    using assms(1) False ring_items_push [of "tb_tail b" "tb_data b" "tb_head b" v]
    by (simp add: b' tty_items_def tty_inv_def)
  ultimately show ?thesis
    using assms(1) by (simp add: tty_inv_def)
qed

lemma tty_pop_spec:
  assumes "tty_inv b" "tty_pop b = (r, b')"
  shows "tty_inv b' \<and>
    (case tty_items b of [] \<Rightarrow> r = None \<and> tty_items b' = [] | x # xs \<Rightarrow> r = Some x \<and> tty_items b' = xs)"
proof (cases "tb_tail b = tb_head b")
  case True
  with assms have "r = None" "b' = b" by (auto simp: tty_pop_def)
  moreover have "tty_items b = []"
    using True assms(1) by (simp add: tty_items_def tty_inv_def ring_items_empty_iff)
  ultimately show ?thesis using assms(1) by simp
next
  case False
  with assms have "r = Some (tb_data b ! tb_tail b)"
    and b': "b' = b\<lparr>tb_tail := Suc (tb_tail b) mod TTY_BUF_SIZE\<rparr>"
    by (auto simp: tty_pop_def Let_def)
  moreover have "tty_items b = tb_data b ! tb_tail b # tty_items b'"
    using False assms(1) ring_items_pop [of "tb_tail b" "tb_data b" "tb_head b"]
    by (simp add: b' tty_items_def tty_inv_def)
  ultimately show ?thesis
    using assms(1) by (simp add: tty_inv_def)
qed

lemma tty_unpush_spec:
  assumes "tty_inv b" "tty_unpush b = (ok, b')"
  shows "tty_inv b' \<and> (ok \<longleftrightarrow> tty_items b \<noteq> []) \<and> tty_items b' = butlast (tty_items b)"
proof (cases "tb_head b = tb_tail b")
  case True
  with assms have "\<not> ok" "b' = b" by (auto simp: tty_defs)
  moreover have "tty_items b = []"
    using True assms(1) by (simp add: tty_items_def tty_inv_def ring_items_empty_iff)
  ultimately show ?thesis using assms(1) by simp
next
  case False
  let ?prev = "if tb_head b = 0 then TTY_BUF_SIZE - 1 else tb_head b - 1"
  from False assms have "ok" and b': "b' = b\<lparr>tb_head := ?prev\<rparr>"
    by (auto simp: tty_defs Let_def split: if_splits)
  moreover have "tty_items b' = butlast (tty_items b)"
    using False assms(1) ring_items_unpush [of "tb_tail b" "tb_data b" "tb_head b"]
    by (auto simp: b' tty_items_def tty_inv_def split: if_splits)
  moreover have "tty_items b \<noteq> []"
    using False assms(1) by (auto simp: tty_items_def tty_inv_def ring_items_empty_iff)
  ultimately show ?thesis
    using assms(1) by (auto simp: tty_inv_def)
qed

lemma tty_unpush_cas_no_interference: "tty_unpush_cas (tb_head b) b \<noteq> None"
  by (simp add: tty_unpush_cas_def)

interpretation tty: bounded_fifo tty_inv tty_items tty_cap tty_push tty_pop
  by unfold_locales (use tty_push_spec tty_pop_spec in blast)+

section \<open>Properties\<close>

text \<open>
  C25. The terminal ring is a FIFO: over any sequence of pushes and pops from a fresh buffer, the
  accepted bytes are exactly the popped bytes followed by the bytes still queued, in order, and
  at most 4095 bytes are ever queued.
\<close>

theorem tty_ring_is_fifo:
  assumes "fifo_run tty_push tty_pop ops tty_buffer_new = (accepted, popped, b)"
  shows "accepted = popped @ tty_items b \<and> tty_inv b \<and> length (tty_items b) \<le> 4095"
  using tty.run_conserves [OF tty_inv_new assms] tty_items_bound [of b]
  by simp

theorem tty_ring_is_fifo_witness:
  "fifo_run tty_push tty_pop [Enq 104, Enq 105, Deq] tty_buffer_new =
     ([104, 105], [104], tty_buffer_new\<lparr>tb_data := (replicate 4096 0)[0 := 104, 1 := 105],
        tb_head := 2, tb_tail := 1\<rparr>) \<and>
   [104, 105] = [104] @ tty_items (tty_buffer_new\<lparr>tb_data := (replicate 4096 0)[0 := 104, 1 := 105],
        tb_head := 2, tb_tail := 1\<rparr>)"
proof -
  have run: "fifo_run tty_push tty_pop [Enq 104, Enq 105, Deq] tty_buffer_new =
     ([104, 105], [104], tty_buffer_new\<lparr>tb_data := (replicate 4096 0)[0 := 104, 1 := 105],
        tb_head := 2, tb_tail := 1\<rparr>)"
    by (simp add: tty_defs tty_buffer_new_def Let_def)
  show ?thesis
    using run tty_ring_is_fifo [OF run] by simp
qed

text \<open>
  Run alone, \<open>unpush\<close> deletes exactly the newest byte; a pop that runs between the two atomic
  steps of an \<open>unpush\<close> on a one-byte ring leaves a ring that claims 4095 queued bytes.
\<close>

lemma tty_unpush_race:
  assumes "tty_inv b" and "tty_items b = [x]"
  shows "tty_items (snd (tty_unpush b)) = [] \<and>
    (\<exists>head b1 b2. tty_unpush_load b = Some head \<and> tty_pop b = (Some x, b1) \<and> tty_items b1 = [] \<and>
      tty_unpush_cas head b1 = Some b2 \<and> length (tty_items b2) = 4095)"
proof
  show "tty_items (snd (tty_unpush b)) = []"
    using tty_unpush_spec [OF assms(1), of "fst (tty_unpush b)" "snd (tty_unpush b)"] assms(2) by simp
  let ?prev = "if tb_head b = 0 then TTY_BUF_SIZE - 1 else tb_head b - 1"
  obtain r b1 where pop: "tty_pop b = (r, b1)" by fastforce
  from tty_pop_spec [OF assms(1) pop] assms(2) have b1: "tty_inv b1" "r = Some x" "tty_items b1 = []"
    by simp_all
  have ne: "tb_head b \<noteq> tb_tail b"
    using assms tty_is_empty_iff [OF assms(1)] by (auto simp: tty_is_empty_def)
  have same: "tb_head b1 = tb_head b" "tb_data b1 = tb_data b"
    using pop by (auto simp: tty_pop_def Let_def split: if_splits)
  have eq: "tb_tail b1 = tb_head b"
    using tty_is_empty_iff [OF b1(1)] b1(3) same by (simp add: tty_is_empty_def)
  have "tty_unpush_cas (tb_head b) b1 = Some (b1\<lparr>tb_head := ?prev\<rparr>)"
    by (simp add: tty_unpush_cas_def Let_def same)
  moreover have "length (tty_items (b1\<lparr>tb_head := ?prev\<rparr>)) = 4095"
    using b1(1) by (simp add: tty_items_def tty_inv_def eq same ring_dist)
  ultimately show "\<exists>head b1 b2. tty_unpush_load b = Some head \<and> tty_pop b = (Some x, b1) \<and>
      tty_items b1 = [] \<and> tty_unpush_cas head b1 = Some b2 \<and> length (tty_items b2) = 4095"
    using ne pop b1 by (auto simp: tty_unpush_load_def)
qed

end
