(* ===== verification/Line_Discipline.thy ===== *)
theory Line_Discipline
  imports Tty_Buffer
begin

text \<open>
  The N\_TTY line discipline, \<^verbatim>\<open>src/tty/ldisc.rs\<close>: \<open>ld_receive_key\<close> cooks one decoded key into the
  input ring and its echo into the output ring, \<open>ld_sys_read\<close> hands bytes to a reader.  The calls to
  \<^verbatim>\<open>send_signal_all\<close> are recorded in \<open>ld_sent\<close>, oldest first.  A \<^verbatim>\<open>char\<close> is its code point; the
  code's cast \<^verbatim>\<open>as u8\<close> keeps the low eight bits.
\<close>

datatype tty_signal = SIGINT | SIGTSTP | SIGQUIT

datatype key_code = ArrowUp | ArrowDown | ArrowRight | ArrowLeft | Home | End | PageUp | PageDown
  | Delete | Insert | F1 | F2 | F3 | F4 | F5 | F6 | F7 | F8 | F9 | F10 | F11 | F12
  | OtherKey

datatype decoded_key = Unicode u32 | RawKey key_code

record ldisc_flags =
  lf_canonical :: bool
  lf_echo :: bool
  lf_isig :: bool
  lf_icrnl :: bool
  lf_onlcr :: bool

definition ldisc_flags_new :: ldisc_flags where
  "ldisc_flags_new = \<lparr>lf_canonical = True, lf_echo = True, lf_isig = True, lf_icrnl = True, lf_onlcr = True\<rparr>"

record line_discipline =
  ld_input_buf :: tty_buffer
  ld_output_buf :: tty_buffer
  ld_flags :: ldisc_flags
  ld_foreground_pgid :: u64
  ld_sent :: "tty_signal list"

definition ldisc_new :: line_discipline where
  "ldisc_new = \<lparr>ld_input_buf = tty_buffer_new, ld_output_buf = tty_buffer_new,
     ld_flags = ldisc_flags_new, ld_foreground_pgid = 0, ld_sent = []\<rparr>"

definition ld_get_foreground_pgid :: "line_discipline \<Rightarrow> u64" where
  "ld_get_foreground_pgid s = ld_foreground_pgid s"

definition ld_set_foreground_pgid :: "u64 \<Rightarrow> line_discipline \<Rightarrow> line_discipline" where
  "ld_set_foreground_pgid pgid s = s\<lparr>ld_foreground_pgid := pgid\<rparr>"

definition ld_set_canonical :: "bool \<Rightarrow> line_discipline \<Rightarrow> line_discipline" where
  "ld_set_canonical on s = s\<lparr>ld_flags := (ld_flags s)\<lparr>lf_canonical := on\<rparr>\<rparr>"

definition ld_set_echo :: "bool \<Rightarrow> line_discipline \<Rightarrow> line_discipline" where
  "ld_set_echo on s = s\<lparr>ld_flags := (ld_flags s)\<lparr>lf_echo := on\<rparr>\<rparr>"

definition ld_set_isig :: "bool \<Rightarrow> line_discipline \<Rightarrow> line_discipline" where
  "ld_set_isig on s = s\<lparr>ld_flags := (ld_flags s)\<lparr>lf_isig := on\<rparr>\<rparr>"

section \<open>Receiving a key\<close>

text \<open>A sequence of pushes whose results are ignored (\<^verbatim>\<open>let _ = buf.push(b)\<close>).\<close>

fun push_seq :: "u8 list \<Rightarrow> tty_buffer \<Rightarrow> tty_buffer" where
  "push_seq [] b = b"
| "push_seq (v # vs) b = push_seq vs (snd (tty_push v b))"

definition erase_echo :: "u8 list" where
  "erase_echo = [0x08, 0x20, 0x08]"

text \<open>
  The loop of Ctrl+U, which pops until the ring is empty.  The ring holds at most 4095 bytes, so
  4096 rounds reach the loop's own exit (\<open>ld_kill_loop_empties\<close>).
\<close>

fun ld_kill_loop :: "nat \<Rightarrow> bool \<Rightarrow> tty_buffer \<Rightarrow> tty_buffer \<Rightarrow> tty_buffer \<times> tty_buffer" where
  "ld_kill_loop 0 echo ib ob = (ib, ob)"
| "ld_kill_loop (Suc n) echo ib ob =
     (case tty_pop ib of
        (None, ib') \<Rightarrow> (ib', ob)
      | (Some byte, ib') \<Rightarrow> ld_kill_loop n echo ib' (if echo then push_seq erase_echo ob else ob))"

fun key_seq :: "key_code \<Rightarrow> u8 list" where
  "key_seq ArrowUp = [0x1B, 0x5B, 0x41]"
| "key_seq ArrowDown = [0x1B, 0x5B, 0x42]"
| "key_seq ArrowRight = [0x1B, 0x5B, 0x43]"
| "key_seq ArrowLeft = [0x1B, 0x5B, 0x44]"
| "key_seq Home = [0x1B, 0x5B, 0x48]"
| "key_seq End = [0x1B, 0x5B, 0x46]"
| "key_seq PageUp = [0x1B, 0x5B, 0x35, 0x7E]"
| "key_seq PageDown = [0x1B, 0x5B, 0x36, 0x7E]"
| "key_seq Delete = [0x1B, 0x5B, 0x33, 0x7E]"
| "key_seq Insert = [0x1B, 0x5B, 0x32, 0x7E]"
| "key_seq F1 = [0x1B, 0x4F, 0x50]"
| "key_seq F2 = [0x1B, 0x4F, 0x51]"
| "key_seq F3 = [0x1B, 0x4F, 0x52]"
| "key_seq F4 = [0x1B, 0x4F, 0x53]"
| "key_seq F5 = [0x1B, 0x5B, 0x31, 0x35, 0x7E]"
| "key_seq F6 = [0x1B, 0x5B, 0x31, 0x37, 0x7E]"
| "key_seq F7 = [0x1B, 0x5B, 0x31, 0x38, 0x7E]"
| "key_seq F8 = [0x1B, 0x5B, 0x31, 0x39, 0x7E]"
| "key_seq F9 = [0x1B, 0x5B, 0x32, 0x30, 0x7E]"
| "key_seq F10 = [0x1B, 0x5B, 0x32, 0x31, 0x7E]"
| "key_seq F11 = [0x1B, 0x5B, 0x32, 0x33, 0x7E]"
| "key_seq F12 = [0x1B, 0x5B, 0x32, 0x34, 0x7E]"
| "key_seq OtherKey = []"

definition ld_signal :: "tty_signal \<Rightarrow> u8 \<Rightarrow> line_discipline \<Rightarrow> line_discipline" where
  "ld_signal sig letter s =
     (let s' = (if lf_echo (ld_flags s)
                then s\<lparr>ld_output_buf := push_seq [0x5E, letter, 0x0A] (ld_output_buf s)\<rparr> else s)
      in s'\<lparr>ld_sent := ld_sent s' @ [sig]\<rparr>)"

fun ld_receive_key :: "decoded_key \<Rightarrow> line_discipline \<Rightarrow> line_discipline" where
  "ld_receive_key (Unicode c) s =
     (let echo = lf_echo (ld_flags s); isig = lf_isig (ld_flags s); icrnl = lf_icrnl (ld_flags s)
      in if c = 0x08 \<or> c = 0x7F then
           (let (ok, ib) = tty_unpush (ld_input_buf s)
            in if ok \<and> echo
               then s\<lparr>ld_input_buf := ib, ld_output_buf := push_seq erase_echo (ld_output_buf s)\<rparr>
               else s\<lparr>ld_input_buf := ib\<rparr>)
         else if c = 0x03 \<and> isig then ld_signal SIGINT 0x43 s
         else if c = 0x1A \<and> isig then ld_signal SIGTSTP 0x5A s
         else if c = 0x1C \<and> isig then ld_signal SIGQUIT 0x5C s
         else if c = 0x04 then s\<lparr>ld_input_buf := snd (tty_push 0x04 (ld_input_buf s))\<rparr>
         else if c = 0x15 then
           (let (ib, ob) = ld_kill_loop TTY_BUF_SIZE echo (ld_input_buf s) (ld_output_buf s)
            in s\<lparr>ld_input_buf := ib, ld_output_buf := ob\<rparr>)
         else if c = 0x17 then s
         else
           (let ch = (if c = 0x0D \<and> icrnl then 0x0A else c);
                s' = s\<lparr>ld_input_buf := snd (tty_push (ucast ch) (ld_input_buf s))\<rparr>
            in if echo
               then s'\<lparr>ld_output_buf :=
                      push_seq ((if ch = 0x0A \<and> lf_onlcr (ld_flags s) then [0x0D] else []) @ [ucast ch])
                        (ld_output_buf s')\<rparr>
               else s'))"
| "ld_receive_key (RawKey k) s =
     (let s' = s\<lparr>ld_input_buf := push_seq (key_seq k) (ld_input_buf s)\<rparr>
      in if lf_echo (ld_flags s)
         then s'\<lparr>ld_output_buf := push_seq (key_seq k) (ld_output_buf s')\<rparr> else s')"

fun ld_receive_keys :: "decoded_key list \<Rightarrow> line_discipline \<Rightarrow> line_discipline" where
  "ld_receive_keys [] s = s"
| "ld_receive_keys (k # ks) s = ld_receive_keys ks (ld_receive_key k s)"

section \<open>Reading\<close>

text \<open>
  The loop of \<^verbatim>\<open>sys_read\<close>; the first argument is the room left in the caller's buffer, the result
  the bytes stored there and the ring afterwards.
\<close>

fun ld_read_loop :: "nat \<Rightarrow> bool \<Rightarrow> tty_buffer \<Rightarrow> u8 list \<times> tty_buffer" where
  "ld_read_loop 0 canonical ib = ([], ib)"
| "ld_read_loop (Suc n) canonical ib =
     (case tty_pop ib of
        (None, ib') \<Rightarrow> ([], ib')
      | (Some byte, ib') \<Rightarrow>
          if byte = 0x04 then ([], ib')
          else if canonical \<and> byte = 0x0A then ([byte], ib')
          else if \<not> canonical then ([byte], ib')
          else (let (rest, ib'') = ld_read_loop n canonical ib' in (byte # rest, ib'')))"

definition ld_sys_read :: "nat \<Rightarrow> line_discipline \<Rightarrow> u8 list \<times> line_discipline" where
  "ld_sys_read len s =
     (let (bytes, ib) = ld_read_loop len (lf_canonical (ld_flags s)) (ld_input_buf s)
      in (bytes, s\<lparr>ld_input_buf := ib\<rparr>))"

section \<open>Abstract specification\<close>

text \<open>
  What the line discipline promises, on plain byte lists: \<open>spec_push\<close> appends to a queue of at most
  4095 bytes, \<open>spec_key\<close> is the effect of a key on the pending input, \<open>spec_read\<close> a read.
\<close>

definition spec_push :: "u8 \<Rightarrow> u8 list \<Rightarrow> u8 list" where
  "spec_push v xs = (if length xs < 4095 then xs @ [v] else xs)"

fun spec_key :: "ldisc_flags \<Rightarrow> decoded_key \<Rightarrow> u8 list \<Rightarrow> u8 list" where
  "spec_key f (Unicode c) xs =
     (if c \<in> {0x08, 0x7F} then butlast xs
      else if c \<in> {0x03, 0x1A, 0x1C} \<and> lf_isig f then xs
      else if c = 0x15 then []
      else if c = 0x17 then xs
      else spec_push (if c = 0x0D \<and> lf_icrnl f then 0x0A else ucast c) xs)"
| "spec_key f (RawKey k) xs = fold spec_push (key_seq k) xs"

fun spec_read :: "nat \<Rightarrow> bool \<Rightarrow> u8 list \<Rightarrow> u8 list \<times> u8 list" where
  "spec_read 0 canonical xs = ([], xs)"
| "spec_read (Suc n) canonical [] = ([], [])"
| "spec_read (Suc n) canonical (x # xs) =
     (if x = 0x04 then ([], xs)
      else if x = 0x0A \<or> \<not> canonical then ([x], xs)
      else (let (r, ys) = spec_read n canonical xs in (x # r, ys)))"

definition ld_inv :: "line_discipline \<Rightarrow> bool" where
  "ld_inv s \<longleftrightarrow> tty_inv (ld_input_buf s) \<and> tty_inv (ld_output_buf s)"

definition ld_pending :: "line_discipline \<Rightarrow> u8 list" where
  "ld_pending s = tty_items (ld_input_buf s)"

definition ld_echoed :: "line_discipline \<Rightarrow> u8 list" where
  "ld_echoed s = tty_items (ld_output_buf s)"

section \<open>Refinement lemmas\<close>

lemma tty_push_abs:
  "tty_inv b \<Longrightarrow> tty_inv (snd (tty_push v b)) \<and> tty_items (snd (tty_push v b)) = spec_push v (tty_items b)"
  using tty_push_spec [of b v "fst (tty_push v b)" "snd (tty_push v b)"]
  by (auto simp: spec_push_def split: if_splits)

lemma push_seq_abs:
  "tty_inv b \<Longrightarrow> tty_inv (push_seq vs b) \<and> tty_items (push_seq vs b) = fold spec_push vs (tty_items b)"
  by (induction vs arbitrary: b) (simp_all add: tty_push_abs)

lemmas tty_abs_simps = tty_push_abs push_seq_abs

lemma tty_unpush_abs:
  "tty_inv b \<Longrightarrow> tty_unpush b = (ok, b') \<Longrightarrow> tty_inv b' \<and> tty_items b' = butlast (tty_items b)"
  using tty_unpush_spec by blast

lemma ld_kill_loop_empties:
  assumes "tty_inv ib" "tty_inv ob" "length (tty_items ib) < n" "ld_kill_loop n echo ib ob = (ib', ob')"
  shows "tty_inv ib' \<and> tty_inv ob' \<and> tty_items ib' = []"
  using assms
proof (induction n arbitrary: ib ob)
  case (Suc n)
  obtain r ib1 where pop: "tty_pop ib = (r, ib1)" by fastforce
  note spec = tty_pop_spec [OF Suc.prems(1) pop]
  show ?case
  proof (cases r)
    case None
    with Suc.prems(2,4) pop spec show ?thesis
      by (auto split: list.splits)
  next
    case (Some x)
    with spec Suc.prems(3) have "tty_inv ib1" "length (tty_items ib1) < n"
      by (auto split: list.splits)
    with Some Suc.prems(2,4) pop show ?thesis
      by (intro Suc.IH [of ib1 "if echo then push_seq erase_echo ob else ob"]) (auto simp: push_seq_abs)
  qed
qed simp

lemma ld_kill_loop_abs:
  assumes "tty_inv ib" "tty_inv ob" "ld_kill_loop TTY_BUF_SIZE echo ib ob = (ib', ob')"
  shows "tty_inv ib' \<and> tty_inv ob' \<and> tty_items ib' = []"
  using ld_kill_loop_empties [OF assms(1,2) _ assms(3)] tty_items_bound [OF assms(1)]
  by simp

lemma ld_signal_fields [simp]:
  "ld_input_buf (ld_signal sig l s) = ld_input_buf s"
  "ld_flags (ld_signal sig l s) = ld_flags s"
  "ld_sent (ld_signal sig l s) = ld_sent s @ [sig]"
  by (simp_all add: ld_signal_def Let_def)

lemma ld_signal_inv: "ld_inv s \<Longrightarrow> ld_inv (ld_signal sig l s)"
  by (simp add: ld_signal_def ld_inv_def Let_def tty_abs_simps)

lemma ld_receive_key_flags [simp]: "ld_flags (ld_receive_key k s) = ld_flags s"
  by (cases k) (simp_all add: Let_def split: prod.split)

lemma ld_receive_key_abs:
  assumes "ld_inv s"
  shows "ld_inv (ld_receive_key k s) \<and> ld_pending (ld_receive_key k s) = spec_key (ld_flags s) k (ld_pending s)"
proof (cases k)
  case (RawKey kc)
  with assms show ?thesis
    by (simp add: ld_inv_def ld_pending_def push_seq_abs Let_def)
next
  case (Unicode c)
  note simps = Unicode ld_pending_def tty_abs_simps Let_def
  have io: "tty_inv (ld_input_buf s)" "tty_inv (ld_output_buf s)"
    using assms by (simp_all add: ld_inv_def)
  consider (erase) "c = 0x08 \<or> c = 0x7F" | (sig) "c \<in> {0x03, 0x1A, 0x1C}" "lf_isig (ld_flags s)"
    | (kill) "c = 0x15" | (werase) "c = 0x17"
    | (plain) "c \<notin> {0x08, 0x7F, 0x15, 0x17}" "\<not> (c \<in> {0x03, 0x1A, 0x1C} \<and> lf_isig (ld_flags s))"
    by blast
  then show ?thesis
  proof cases
    case erase
    obtain ok ib where "tty_unpush (ld_input_buf s) = (ok, ib)" by fastforce
    with erase io tty_unpush_abs [OF io(1) this] show ?thesis
      by (auto simp: simps ld_inv_def)
  next
    case sig
    with assms show ?thesis
      by (auto simp: simps ld_signal_inv)
  next
    case kill
    obtain ib ob where "ld_kill_loop TTY_BUF_SIZE (lf_echo (ld_flags s)) (ld_input_buf s) (ld_output_buf s) = (ib, ob)"
      by fastforce
    with kill ld_kill_loop_abs [OF io this] show ?thesis
      by (simp add: simps ld_inv_def)
  next
    case werase
    with assms show ?thesis
      by (simp add: simps)
  next
    case plain
    with io show ?thesis
      by (auto simp: simps ld_inv_def)
  qed
qed

lemma ld_receive_keys_abs:
  "ld_inv s \<Longrightarrow> ld_inv (ld_receive_keys ks s) \<and> ld_flags (ld_receive_keys ks s) = ld_flags s \<and>
     ld_pending (ld_receive_keys ks s) = fold (spec_key (ld_flags s)) ks (ld_pending s)"
  by (induction ks arbitrary: s) (simp_all add: ld_receive_key_abs)

lemma ld_read_loop_abs:
  assumes "tty_inv ib" "ld_read_loop n canonical ib = (r, ib')"
  shows "tty_inv ib' \<and> spec_read n canonical (tty_items ib) = (r, tty_items ib')"
  using assms
proof (induction n arbitrary: ib r)
  case (Suc n)
  obtain p ib1 where pop: "tty_pop ib = (p, ib1)" by fastforce
  show ?case
    using tty_pop_spec [OF Suc.prems(1) pop] Suc.prems(2) Suc.IH [of ib1]
    by (auto simp: pop Let_def split: list.splits if_splits prod.splits)
qed simp

lemma ld_inv_new [simp]: "ld_inv ldisc_new"
  by (simp add: ld_inv_def ldisc_new_def)

lemma ld_pending_new [simp]: "ld_pending ldisc_new = []"
  by (simp add: ld_pending_def ldisc_new_def)

lemma ld_sys_read_abs:
  assumes "ld_inv s"
  shows "ld_inv (snd (ld_sys_read n s)) \<and>
    spec_read n (lf_canonical (ld_flags s)) (ld_pending s) = (fst (ld_sys_read n s), ld_pending (snd (ld_sys_read n s)))"
proof -
  obtain r ib where l: "ld_read_loop n (lf_canonical (ld_flags s)) (ld_input_buf s) = (r, ib)" by fastforce
  with assms ld_read_loop_abs [OF _ l] show ?thesis
    by (simp add: ld_sys_read_def ld_inv_def ld_pending_def)
qed

text \<open>Characters that the discipline passes through: Latin-1, no editing, signal or line character.\<close>

definition plain_char :: "u32 \<Rightarrow> bool" where
  "plain_char c \<longleftrightarrow> c < 256 \<and>
     c \<notin> {0x03, 0x04, 0x08, 0x0A, 0x0D, 0x15, 0x17, 0x1A, 0x1C, 0x7F}"

lemma plain_char_byte:
  assumes "plain_char c"
  shows "(ucast c :: u8) \<noteq> 0x04" "(ucast c :: u8) \<noteq> 0x0A"
proof -
  have "unat c < 256" and c: "c \<noteq> 0x04" "c \<noteq> 0x0A"
    using assms by (auto simp: plain_char_def word_less_nat_alt)
  then have "unat (ucast c :: u8) = unat c"
    using unat_ucast_small [of c, where ?'b = 8] by simp
  moreover have "unat c \<noteq> 4" "unat c \<noteq> 10"
    using c by (auto simp: word_unat_eq_iff)
  ultimately show "(ucast c :: u8) \<noteq> 0x04" "(ucast c :: u8) \<noteq> 0x0A"
    by (auto simp: word_unat_eq_iff)
qed

lemma spec_key_plain:
  "plain_char c \<Longrightarrow> spec_key f (Unicode c) xs = spec_push (ucast c) xs"
  by (auto simp: plain_char_def)

lemma fold_spec_key_plain:
  "\<forall>c \<in> set cs. plain_char c \<Longrightarrow> length xs + length cs \<le> 4095 \<Longrightarrow>
     fold (spec_key f) (map Unicode cs) xs = xs @ map ucast cs"
proof (induction cs arbitrary: xs)
  case (Cons c cs)
  then show ?case
    using Cons.IH [of "xs @ [ucast c]"] by (simp add: spec_key_plain spec_push_def del: spec_key.simps)
qed simp

lemma spec_read_line:
  "0x04 \<notin> set ws \<Longrightarrow> 0x0A \<notin> set ws \<Longrightarrow> length ws < n \<Longrightarrow>
     spec_read n True (ws @ 0x0A # rest) = (ws @ [0x0A], rest)"
  by (induction ws arbitrary: n; case_tac n) auto

lemma spec_read_no_line:
  "0x04 \<notin> set ws \<Longrightarrow> 0x0A \<notin> set ws \<Longrightarrow> length ws \<le> n \<Longrightarrow> spec_read n True ws = (ws, [])"
  by (induction ws arbitrary: n; case_tac n) auto

declare ld_receive_key.simps [simp del] ld_receive_keys.simps [simp del]

section \<open>Properties\<close>



text \<open>
  Round trip: a line of plain characters typed into a fresh terminal and ended with Return is
  read back byte for byte, Return having become a newline, and nothing stays behind.
\<close>

lemma ld_line_roundtrip:
  assumes "\<forall>c \<in> set cs. plain_char c" and "length cs < 4095" and "length cs < n"
  shows "fst (ld_sys_read n (ld_receive_keys (map Unicode cs @ [Unicode 0x0D]) ldisc_new)) = map ucast cs @ [0x0A] \<and>
    ld_pending (snd (ld_sys_read n (ld_receive_keys (map Unicode cs @ [Unicode 0x0D]) ldisc_new))) = []"
proof -
  let ?ks = "map Unicode cs @ [Unicode 0x0D]"
  let ?s = "ld_receive_keys ?ks ldisc_new"
  have f: "ld_flags ldisc_new = ldisc_flags_new" "lf_canonical ldisc_flags_new" "lf_icrnl ldisc_flags_new"
    by (simp_all add: ldisc_new_def ldisc_flags_new_def)
  have typed: "fold (spec_key ldisc_flags_new) ?ks [] = map ucast cs @ [0x0A]"
    using assms(1,2) f by (simp add: fold_spec_key_plain spec_push_def)
  have "0x04 \<notin> set (map ucast cs :: u8 list)" "0x0A \<notin> set (map ucast cs :: u8 list)"
    using assms(1) plain_char_byte by fastforce+
  then have "spec_read n True (map ucast cs @ [0x0A]) = (map ucast cs @ [0x0A], [])"
    using spec_read_line [of "map ucast cs" n "[]"] assms(3) by simp
  then show ?thesis
    using ld_sys_read_abs [of ?s n] ld_receive_keys_abs [OF ld_inv_new, of ?ks] typed f by simp
qed

text \<open>
  What a read does when no line is complete: in canonical mode it returns the partial line at
  once instead of waiting for the newline, and in raw mode it returns one byte, however many are
  pending and however large the caller's buffer is.
\<close>

lemma ld_read_is_partial:
  assumes "ld_inv s" and "ld_pending s = x # xs" and "0x04 \<notin> set (x # xs)" and "0x0A \<notin> set (x # xs)"
    and "length (x # xs) \<le> n"
  shows "fst (ld_sys_read n s) = (if lf_canonical (ld_flags s) then x # xs else [x])"
proof -
  obtain m where n: "n = Suc m"
    using assms(5) by (cases n) auto
  show ?thesis
    using ld_sys_read_abs [OF assms(1), of n] spec_read_no_line [of "x # xs" n] assms(2-5) n
    by (cases "lf_canonical (ld_flags s)") (auto split: prod.splits)
qed

end
