(* ===== verification/Frame_Table.thy ===== *)
theory Frame_Table
  imports EchOS_Prelude
begin

text \<open>
  The frame table of \<open>src/src/memory/frame_ownership/mod.rs\<close>: one entry per 4 KiB physical frame
  with a tag (unique, shared, zombie, refcache, folio bits) and a 32-bit reference count.  The
  global table sits behind a mutex, so every operation is one atomic step on the map; it is only
  ever looked up by key, hence a HOL map.  The counters are atomics, whose arithmetic wraps.
\<close>

section \<open>Entries\<close>

abbreviation FF_UNIQUE :: u8 where "FF_UNIQUE \<equiv> 0x01"
abbreviation FF_SHARED :: u8 where "FF_SHARED \<equiv> 0x02"
abbreviation FF_ZOMBIE :: u8 where "FF_ZOMBIE \<equiv> 0x04"
abbreviation FF_REFCACHE :: u8 where "FF_REFCACHE \<equiv> 0x08"
abbreviation FF_FOLIO_HEAD :: u8 where "FF_FOLIO_HEAD \<equiv> 0x10"
abbreviation FF_FOLIO_TAIL :: u8 where "FF_FOLIO_TAIL \<equiv> 0x20"

record frame_entry =
  fe_flags :: u8
  fe_order :: u8
  fe_refcount :: u32

definition fe_new_unique :: frame_entry where
  "fe_new_unique = \<lparr>fe_flags = FF_UNIQUE, fe_order = 0, fe_refcount = 0\<rparr>"

definition fe_new_shared :: frame_entry where
  "fe_new_shared = \<lparr>fe_flags = FF_SHARED, fe_order = 0, fe_refcount = 1\<rparr>"

definition fe_promote :: "frame_entry \<Rightarrow> frame_entry" where
  "fe_promote e = e\<lparr>fe_flags := FF_SHARED, fe_refcount := 1\<rparr>"

lemma fe_simps [simp]:
  "fe_flags fe_new_unique = FF_UNIQUE" "fe_refcount fe_new_unique = 0" "fe_order fe_new_unique = 0"
  "fe_flags fe_new_shared = FF_SHARED" "fe_refcount fe_new_shared = 1" "fe_order fe_new_shared = 0"
  "fe_flags (fe_promote e) = FF_SHARED" "fe_refcount (fe_promote e) = 1" "fe_order (fe_promote e) = fe_order e"
  by (simp_all add: fe_new_unique_def fe_new_shared_def fe_promote_def)

section \<open>Operations of the table\<close>

type_synonym frame_table = "u64 \<rightharpoonup> frame_entry"

definition ft_new :: frame_table where
  "ft_new = Map.empty"

definition frame_key :: "u64 \<Rightarrow> u64" where
  "frame_key phys = phys AND NOT 0xFFF"

definition ft_init_unique :: "u64 \<Rightarrow> frame_table \<Rightarrow> frame_table" where
  "ft_init_unique phys t =
     (case t (frame_key phys) of None \<Rightarrow> t(frame_key phys \<mapsto> fe_new_unique) | Some _ \<Rightarrow> t)"

definition ft_share :: "u64 \<Rightarrow> frame_table \<Rightarrow> u32 \<times> frame_table" where
  "ft_share phys t =
     (let key = frame_key phys in
      case t key of
        None \<Rightarrow> (1, t(key \<mapsto> fe_new_shared))
      | Some e \<Rightarrow>
          if fe_flags e = FF_UNIQUE then (1, t(key \<mapsto> fe_promote e))
          else if fe_flags e = FF_SHARED then
            (fe_refcount e + 1, t(key \<mapsto> e\<lparr>fe_refcount := fe_refcount e + 1\<rparr>))
          else if fe_flags e = FF_ZOMBIE then
            (2, t(key \<mapsto> e\<lparr>fe_flags := FF_SHARED, fe_refcount := 2\<rparr>))
          else (fe_refcount e, t))"

definition ft_unshare :: "u64 \<Rightarrow> frame_table \<Rightarrow> u32 \<times> frame_table" where
  "ft_unshare phys t =
     (let key = frame_key phys in
      case t key of
        None \<Rightarrow> (0, t)
      | Some e \<Rightarrow>
          if fe_flags e = FF_UNIQUE then (0, t(key := None))
          else if fe_flags e = FF_SHARED then
            (let prev = fe_refcount e
             in if prev \<le> 1 then (0, t(key := None))
                else (prev - 1, t(key \<mapsto> e\<lparr>fe_refcount := prev - 1\<rparr>)))
          else if fe_flags e = FF_ZOMBIE then (0, t(key := None))
          else (0, t))"

definition ft_refcount :: "u64 \<Rightarrow> frame_table \<Rightarrow> u32" where
  "ft_refcount phys t = (case t (frame_key phys) of None \<Rightarrow> 0 | Some e \<Rightarrow> fe_refcount e)"

definition ft_flags :: "u64 \<Rightarrow> frame_table \<Rightarrow> u8" where
  "ft_flags phys t = (case t (frame_key phys) of None \<Rightarrow> 0 | Some e \<Rightarrow> fe_flags e)"

definition ft_is_unique :: "u64 \<Rightarrow> frame_table \<Rightarrow> bool" where
  "ft_is_unique phys t = (case t (frame_key phys) of None \<Rightarrow> False | Some e \<Rightarrow> fe_flags e = FF_UNIQUE)"

definition ft_is_shared :: "u64 \<Rightarrow> frame_table \<Rightarrow> bool" where
  "ft_is_shared phys t = (case t (frame_key phys) of None \<Rightarrow> False | Some e \<Rightarrow> fe_flags e = FF_SHARED)"

definition ft_try_upgrade_unique :: "u64 \<Rightarrow> frame_table \<Rightarrow> bool \<times> frame_table" where
  "ft_try_upgrade_unique phys t =
     (let key = frame_key phys in
      case t key of
        None \<Rightarrow> (False, t)
      | Some e \<Rightarrow>
          if fe_flags e = FF_SHARED \<and> fe_refcount e = 1 then
            (True, t(key \<mapsto> e\<lparr>fe_flags := FF_UNIQUE, fe_refcount := 0\<rparr>))
          else if fe_flags e = FF_SHARED \<and> fe_refcount e = 0 then (True, t(key := None))
          else (False, t))"

definition ft_mark_zombie :: "u64 \<Rightarrow> frame_table \<Rightarrow> frame_table" where
  "ft_mark_zombie phys t =
     (case t (frame_key phys) of None \<Rightarrow> t | Some e \<Rightarrow> t(frame_key phys \<mapsto> e\<lparr>fe_flags := FF_ZOMBIE\<rparr>))"

abbreviation PIN_REFCOUNT :: u32 where
  "PIN_REFCOUNT \<equiv> 0x7FFFFFFF"

definition ft_pin :: "u64 \<Rightarrow> frame_table \<Rightarrow> frame_table" where
  "ft_pin phys t =
     (case t (frame_key phys) of
        Some e \<Rightarrow> t(frame_key phys \<mapsto> e\<lparr>fe_flags := FF_SHARED, fe_refcount := PIN_REFCOUNT\<rparr>)
      | None \<Rightarrow> t(frame_key phys \<mapsto> \<lparr>fe_flags = FF_SHARED, fe_order = 0, fe_refcount = PIN_REFCOUNT\<rparr>))"

definition ft_remove :: "u64 \<Rightarrow> frame_table \<Rightarrow> frame_table" where
  "ft_remove phys t = t(frame_key phys := None)"

definition ft_folio_mark_head :: "u64 \<Rightarrow> u8 \<Rightarrow> frame_table \<Rightarrow> frame_table" where
  "ft_folio_mark_head phys order t =
     (case t (frame_key phys) of None \<Rightarrow> t
      | Some e \<Rightarrow> t(frame_key phys \<mapsto> e\<lparr>fe_flags := fe_flags e OR FF_FOLIO_HEAD, fe_order := order\<rparr>))"

definition ft_folio_mark_tail :: "u64 \<Rightarrow> frame_table \<Rightarrow> frame_table" where
  "ft_folio_mark_tail phys t =
     (case t (frame_key phys) of None \<Rightarrow> t
      | Some e \<Rightarrow> t(frame_key phys \<mapsto> e\<lparr>fe_flags := fe_flags e OR FF_FOLIO_TAIL\<rparr>))"

definition ft_folio_clear :: "u64 \<Rightarrow> frame_table \<Rightarrow> frame_table" where
  "ft_folio_clear phys t =
     (case t (frame_key phys) of None \<Rightarrow> t
      | Some e \<Rightarrow> t(frame_key phys \<mapsto>
          e\<lparr>fe_flags := (fe_flags e AND NOT FF_FOLIO_HEAD) AND NOT FF_FOLIO_TAIL, fe_order := 0\<rparr>))"

definition ft_is_folio_head :: "u64 \<Rightarrow> frame_table \<Rightarrow> bool" where
  "ft_is_folio_head phys t =
     (case t (frame_key phys) of None \<Rightarrow> False | Some e \<Rightarrow> fe_flags e AND FF_FOLIO_HEAD = FF_FOLIO_HEAD)"

definition ft_is_folio_tail :: "u64 \<Rightarrow> frame_table \<Rightarrow> bool" where
  "ft_is_folio_tail phys t =
     (case t (frame_key phys) of None \<Rightarrow> False | Some e \<Rightarrow> fe_flags e AND FF_FOLIO_TAIL = FF_FOLIO_TAIL)"

definition ft_folio_order :: "u64 \<Rightarrow> frame_table \<Rightarrow> u8" where
  "ft_folio_order phys t = (case t (frame_key phys) of None \<Rightarrow> 0 | Some e \<Rightarrow> fe_order e)"

definition ft_refcache_init :: "u64 \<Rightarrow> frame_table \<Rightarrow> frame_table" where
  "ft_refcache_init phys t =
     (case t (frame_key phys) of
        None \<Rightarrow> t(frame_key phys \<mapsto> \<lparr>fe_flags = FF_REFCACHE, fe_order = 0, fe_refcount = 0\<rparr>)
      | Some _ \<Rightarrow> t)"

text \<open>
  The \<open>i32\<close> delta is the same 32 bits read as a signed number, so \<open>delta as u32\<close> is the word itself
  and \<open>(-delta) as u32\<close> its two's complement.
\<close>

definition ft_refcache_global_add :: "u64 \<Rightarrow> u32 \<Rightarrow> frame_table \<Rightarrow> u32 \<times> frame_table" where
  "ft_refcache_global_add phys delta t =
     (let key = frame_key phys; fresh = (if 0 <s delta then delta else 0) in
      case t key of
        None \<Rightarrow> (fresh, t(key \<mapsto> \<lparr>fe_flags = FF_REFCACHE, fe_order = 0, fe_refcount = fresh\<rparr>))
      | Some e \<Rightarrow>
          if fe_flags e = FF_UNIQUE then
            (let new_cnt = (if 0 <s delta then 1 else 0)
             in (new_cnt, t(key \<mapsto> e\<lparr>fe_flags := FF_REFCACHE, fe_refcount := new_cnt\<rparr>)))
          else if fe_flags e = FF_REFCACHE \<or> fe_flags e = FF_SHARED then
            (let new = (if 0 <s delta then sat_add (fe_refcount e) delta else sat_sub (fe_refcount e) (- delta))
             in (new, t(key \<mapsto> e\<lparr>fe_flags := FF_REFCACHE, fe_refcount := new\<rparr>)))
          else if fe_flags e = FF_ZOMBIE then
            (fresh, t(key \<mapsto> e\<lparr>fe_flags := FF_REFCACHE, fe_refcount := fresh\<rparr>))
          else (fresh, t(key \<mapsto> \<lparr>fe_flags = FF_REFCACHE, fe_order = 0, fe_refcount = fresh\<rparr>)))"

definition ft_refcache_try_remove :: "u64 \<Rightarrow> frame_table \<Rightarrow> bool \<times> frame_table" where
  "ft_refcache_try_remove phys t =
     (let key = frame_key phys in
      case t key of
        None \<Rightarrow> (False, t)
      | Some e \<Rightarrow>
          if fe_flags e = FF_REFCACHE \<or> fe_flags e = FF_SHARED then
            (if fe_refcount e = 0 then (True, t(key := None)) else (False, t))
          else (False, t))"

lemmas ft_update_defs = ft_init_unique_def ft_share_def ft_unshare_def ft_try_upgrade_unique_def
  ft_mark_zombie_def ft_pin_def ft_remove_def ft_folio_mark_head_def ft_folio_mark_tail_def
  ft_folio_clear_def ft_refcache_init_def ft_refcache_global_add_def ft_refcache_try_remove_def

section \<open>Operation sequences\<close>

datatype ft_op = FInit u64 | FShare u64 | FUnshare u64 | FUpgrade u64 | FZombie u64 | FPin u64 | FRemove u64
  | FHead u64 u8 | FTail u64 | FClear u64 | FRcInit u64 | FRcAdd u64 u32 | FRcRemove u64

fun ft_op_phys :: "ft_op \<Rightarrow> u64" where
  "ft_op_phys (FInit p) = p"
| "ft_op_phys (FShare p) = p"
| "ft_op_phys (FUnshare p) = p"
| "ft_op_phys (FUpgrade p) = p"
| "ft_op_phys (FZombie p) = p"
| "ft_op_phys (FPin p) = p"
| "ft_op_phys (FRemove p) = p"
| "ft_op_phys (FHead p _) = p"
| "ft_op_phys (FTail p) = p"
| "ft_op_phys (FClear p) = p"
| "ft_op_phys (FRcInit p) = p"
| "ft_op_phys (FRcAdd p _) = p"
| "ft_op_phys (FRcRemove p) = p"

fun ft_exec :: "ft_op \<Rightarrow> frame_table \<Rightarrow> frame_table" where
  "ft_exec (FInit p) t = ft_init_unique p t"
| "ft_exec (FShare p) t = snd (ft_share p t)"
| "ft_exec (FUnshare p) t = snd (ft_unshare p t)"
| "ft_exec (FUpgrade p) t = snd (ft_try_upgrade_unique p t)"
| "ft_exec (FZombie p) t = ft_mark_zombie p t"
| "ft_exec (FPin p) t = ft_pin p t"
| "ft_exec (FRemove p) t = ft_remove p t"
| "ft_exec (FHead p order) t = ft_folio_mark_head p order t"
| "ft_exec (FTail p) t = ft_folio_mark_tail p t"
| "ft_exec (FClear p) t = ft_folio_clear p t"
| "ft_exec (FRcInit p) t = ft_refcache_init p t"
| "ft_exec (FRcAdd p d) t = snd (ft_refcache_global_add p d t)"
| "ft_exec (FRcRemove p) t = snd (ft_refcache_try_remove p t)"

definition ft_run :: "ft_op list \<Rightarrow> frame_table \<Rightarrow> frame_table" where
  "ft_run ops t = fold ft_exec ops t"

lemma ft_run_simps [simp]:
  "ft_run [] t = t" "ft_run (op # ops) t = ft_run ops (ft_exec op t)"
  by (simp_all add: ft_run_def)

lemma frame_key_idem [simp]: "frame_key (frame_key p) = frame_key p"
  by (simp add: frame_key_def and.assoc)

lemma ft_exec_other: "k \<noteq> frame_key (ft_op_phys op) \<Longrightarrow> ft_exec op t k = t k"
  by (cases op) (simp_all add: ft_update_defs Let_def split: option.split)

lemma ft_exec_keys: "k \<in> dom (ft_exec op t) \<Longrightarrow> k \<in> dom t \<or> k = frame_key (ft_op_phys op)"
  using ft_exec_other [of k op t] by (cases "k = frame_key (ft_op_phys op)") (auto simp: dom_def)

lemma ft_run_other:
  "\<forall>op \<in> set ops. frame_key (ft_op_phys op) \<noteq> k \<Longrightarrow> ft_run ops t k = t k"
proof (induction ops arbitrary: t)
  case (Cons op ops)
  then show ?case using ft_exec_other [of k op t] by auto
qed simp

lemma ft_run_keys: "k \<in> dom (ft_run ops t) \<Longrightarrow> k \<in> dom t \<or> frame_key k = k"
proof (induction ops arbitrary: t)
  case (Cons op ops)
  then show ?case using ft_exec_keys [of k op t] by fastforce
qed simp

text \<open>Exact counting on a shared entry.\<close>

definition n_share :: "u64 \<Rightarrow> ft_op list \<Rightarrow> nat" where
  "n_share k ops = length (filter (\<lambda>op. \<exists>p. op = FShare p \<and> frame_key p = k) ops)"

definition n_unshare :: "u64 \<Rightarrow> ft_op list \<Rightarrow> nat" where
  "n_unshare k ops = length (filter (\<lambda>op. \<exists>p. op = FUnshare p \<and> frame_key p = k) ops)"

definition counting_op :: "ft_op \<Rightarrow> bool" where
  "counting_op op = (case op of FShare _ \<Rightarrow> True | FUnshare _ \<Rightarrow> True | _ \<Rightarrow> False)"

definition shared_with :: "nat \<Rightarrow> frame_entry option \<Rightarrow> bool" where
  "shared_with n oe = (case oe of None \<Rightarrow> False | Some e \<Rightarrow> fe_flags e = FF_SHARED \<and> unat (fe_refcount e) = n)"

lemma shared_with_iff:
  "shared_with n oe \<longleftrightarrow> (\<exists>e. oe = Some e \<and> fe_flags e = FF_SHARED \<and> unat (fe_refcount e) = n)"
  by (auto simp: shared_with_def split: option.splits)

lemma ft_share_shared:
  assumes "shared_with n (t (frame_key p))" "Suc n < 2 ^ 32"
  shows "shared_with (Suc n) (snd (ft_share p t) (frame_key p)) \<and> unat (fst (ft_share p t)) = Suc n"
proof -
  obtain e where e: "t (frame_key p) = Some e" "fe_flags e = FF_SHARED" "unat (fe_refcount e) = n"
    using assms(1) by (auto simp: shared_with_iff)
  then have "fe_refcount e \<noteq> - 1"
    using assms(2) unat_minus_1 [where ?'a = 32] by auto
  then have "unat (fe_refcount e + 1) = Suc n"
    using unat_inc e(3) by blast
  with e show ?thesis
    by (simp add: ft_share_def shared_with_iff)
qed

lemma ft_unshare_shared:
  assumes "shared_with n (t (frame_key p))" "1 < n"
  shows "shared_with (n - 1) (snd (ft_unshare p t) (frame_key p)) \<and> unat (fst (ft_unshare p t)) = n - 1"
proof -
  obtain e where e: "t (frame_key p) = Some e" "fe_flags e = FF_SHARED" "unat (fe_refcount e) = n"
    using assms(1) by (auto simp: shared_with_iff)
  then have "\<not> fe_refcount e \<le> 1" "fe_refcount e \<noteq> 0"
    using assms(2) by (auto simp: word_le_nat_alt)
  then have "unat (fe_refcount e - 1) = n - 1"
    using unat_dec [of "fe_refcount e"] e(3) by simp
  with e \<open>\<not> fe_refcount e \<le> 1\<close> show ?thesis
    by (simp add: ft_unshare_def shared_with_iff Let_def)
qed

lemma ft_run_counts:
  assumes "\<forall>op \<in> set ops. counting_op op" "shared_with n (t k)"
    and "n_unshare k ops < n" "n + n_share k ops < 2 ^ 32"
  shows "shared_with (n + n_share k ops - n_unshare k ops) (ft_run ops t k)"
  using assms
proof (induction ops arbitrary: t n)
  case (Cons op ops)
  consider (share) p where "op = FShare p" "frame_key p = k" | (unshare) p where "op = FUnshare p" "frame_key p = k"
    | (other) "frame_key (ft_op_phys op) \<noteq> k"
    using Cons.prems(1) by (cases op) (auto simp: counting_op_def)
  then show ?case
  proof cases
    case share
    with Cons.prems have "shared_with (Suc n) (ft_exec op t k)"
      using ft_share_shared [of n t p] by (auto simp: n_share_def)
    with share Cons.prems show ?thesis
      using Cons.IH [of "Suc n" "ft_exec op t"] by (simp add: n_share_def n_unshare_def)
  next
    case unshare
    with Cons.prems have "shared_with (n - 1) (ft_exec op t k)"
      using ft_unshare_shared [of n t p] by (auto simp: n_unshare_def)
    with unshare Cons.prems show ?thesis
      using Cons.IH [of "n - 1" "ft_exec op t"] by (simp add: n_share_def n_unshare_def)
  next
    case other
    with Cons.prems have "shared_with n (ft_exec op t k)"
      using ft_exec_other [of k op t] by auto
    moreover have "n_share k (op # ops) = n_share k ops" "n_unshare k (op # ops) = n_unshare k ops"
      using other by (auto simp: n_share_def n_unshare_def)
    ultimately show ?thesis
      using Cons.IH [of n "ft_exec op t"] Cons.prems by simp
  qed
qed (simp add: n_share_def n_unshare_def)

section \<open>Properties\<close>

text \<open>
  Independence of frames: an operation sequence that never addresses a frame leaves that frame's
  entry untouched, whatever the addresses' offsets within their pages, and every key the table
  gains is page aligned.
\<close>

lemma ft_pages_independent:
  assumes "\<forall>op \<in> set ops. frame_key (ft_op_phys op) \<noteq> frame_key q"
  shows "ft_run ops t (frame_key q) = t (frame_key q) \<and> (\<forall>k. k \<in> dom (ft_run ops t) - dom t \<longrightarrow> frame_key k = k)"
  using ft_run_other [OF assms] ft_run_keys by blast

text \<open>
  A pinned frame stays: after \<open>pin\<close>, any sequence of shares and unshares of any frames with
  fewer than \<open>u32::MAX / 2\<close> unshares of the pinned one leaves its entry in place, still SHARED, with
  the reference count changed by exactly the number of its shares and unshares.
\<close>

lemma ft_pin_survives:
  assumes "\<forall>op \<in> set ops. counting_op op"
    and "n_unshare (frame_key p) ops < 0x7FFFFFFF" and "n_share (frame_key p) ops \<le> 0x80000000"
  shows "shared_with (0x7FFFFFFF + n_share (frame_key p) ops - n_unshare (frame_key p) ops)
    (ft_run ops (ft_pin p t) (frame_key p))"
proof -
  have "shared_with 0x7FFFFFFF (ft_pin p t (frame_key p))"
    by (simp add: ft_pin_def shared_with_iff split: option.split)
  then show ?thesis
    using ft_run_counts [OF assms(1), of "0x7FFFFFFF" "ft_pin p t" "frame_key p"] assms(2,3) by simp
qed

end
