(* ===== verification/Frame_Ownership.thy ===== *)
theory Frame_Ownership
  imports Frame_Table "HOL-Library.Multiset"
begin

text \<open>
  The handle types over the frame table: \<open>UniqueFrame\<close> (\<open>unique.rs\<close>) and \<open>SharedAtomicFrame\<close>
  (\<open>shared_atomic.rs\<close>).  A handle is its page-aligned address.  What a handle's operations change
  is the table and the list of frames given back with \<open>deallocate_contiguous_frames\<close>.  On top of
  them, an ownership transition system records which handles are alive and which frames the
  allocator has handed out, and its invariant gives the absence of use after free and double free.
\<close>

section \<open>Handle operations\<close>

record frame_world =
  fw_table :: frame_table
  fw_freed :: "u64 list"

definition frame_dealloc :: "u64 \<Rightarrow> frame_world \<Rightarrow> frame_world" where
  "frame_dealloc phys w = w\<lparr>fw_freed := fw_freed w @ [frame_key phys]\<rparr>"

definition uf_from_phys :: "u64 \<Rightarrow> frame_world \<Rightarrow> u64 \<times> frame_world" where
  "uf_from_phys phys w = (frame_key phys, w\<lparr>fw_table := ft_init_unique phys (fw_table w)\<rparr>)"

definition uf_from_phys_alloc :: "u64 option \<Rightarrow> frame_world \<Rightarrow> u64 option \<times> frame_world" where
  "uf_from_phys_alloc pframe w =
     (case pframe of
        None \<Rightarrow> (None, w)
      | Some phys \<Rightarrow> (Some (frame_key phys), w\<lparr>fw_table := ft_init_unique phys (fw_table w)\<rparr>))"

definition uf_into_shared :: "u64 \<Rightarrow> frame_world \<Rightarrow> u64 \<times> frame_world" where
  "uf_into_shared phys w = (frame_key phys, w\<lparr>fw_table := snd (ft_share phys (fw_table w))\<rparr>)"

definition uf_leak_as_shared :: "u64 \<Rightarrow> frame_world \<Rightarrow> frame_world" where
  "uf_leak_as_shared phys w = w\<lparr>fw_table := snd (ft_share phys (fw_table w))\<rparr>"

definition uf_drop :: "u64 \<Rightarrow> frame_world \<Rightarrow> frame_world" where
  "uf_drop phys w = frame_dealloc phys (w\<lparr>fw_table := ft_mark_zombie phys (fw_table w)\<rparr>)"

definition saf_from_phys :: "u64 \<Rightarrow> frame_world \<Rightarrow> u64 \<times> frame_world" where
  "saf_from_phys phys w = (frame_key phys, w\<lparr>fw_table := snd (ft_share phys (fw_table w))\<rparr>)"

definition saf_incref :: "u64 \<Rightarrow> frame_world \<Rightarrow> frame_world" where
  "saf_incref phys w = w\<lparr>fw_table := snd (ft_share (frame_key phys) (fw_table w))\<rparr>"

definition saf_decref :: "u64 \<Rightarrow> frame_world \<Rightarrow> u32 \<times> frame_world" where
  "saf_decref phys w =
     (let (remaining, t) = ft_unshare (frame_key phys) (fw_table w) in (remaining, w\<lparr>fw_table := t\<rparr>))"

definition saf_clone :: "u64 \<Rightarrow> frame_world \<Rightarrow> u64 \<times> frame_world" where
  "saf_clone phys w = (phys, w\<lparr>fw_table := snd (ft_share phys (fw_table w))\<rparr>)"

definition saf_drop :: "u64 \<Rightarrow> frame_world \<Rightarrow> frame_world" where
  "saf_drop phys w =
     (let (remaining, t) = ft_unshare phys (fw_table w); w' = w\<lparr>fw_table := t\<rparr>
      in if remaining = 0 then frame_dealloc phys w' else w')"

text \<open>
  A page-table entry's reference, released as the unmap paths of \<open>memory/mod.rs\<close> do it: decrement,
  and give the frame back when the count is zero.
\<close>

lemma saf_decref_drop:
  "frame_key p = p \<Longrightarrow>
   saf_drop p w = (let (r, w') = saf_decref p w in if r = 0 then frame_dealloc p w' else w')"
  by (simp add: saf_drop_def saf_decref_def Let_def split: prod.split)

section \<open>The ownership transition system\<close>

datatype handle = HUnique u64 | HShared u64

fun h_page :: "handle \<Rightarrow> u64" where
  "h_page (HUnique p) = p"
| "h_page (HShared p) = p"

type_synonym own_state = "frame_world \<times> handle multiset \<times> u64 set"

definition released :: "frame_world \<Rightarrow> frame_world \<Rightarrow> u64 set" where
  "released w w' = set (drop (length (fw_freed w)) (fw_freed w'))"

text \<open>
  The steps are the calls Rust's ownership permits: a constructor takes a frame the allocator has
  not handed out to anyone else; every other operation consumes or borrows a live handle.  The
  third component is the set of frames handed out and not yet given back.  A frame has far fewer
  than \<open>2 ^ 32\<close> references, since each of them occupies memory.
\<close>

inductive own_step :: "own_state \<Rightarrow> own_state \<Rightarrow> bool" where
  alloc_unique: "frame_key p = p \<Longrightarrow> p \<notin> A \<Longrightarrow>
    own_step (w, H, A) (snd (uf_from_phys p w), add_mset (HUnique p) H, insert p A)"
| alloc_shared: "frame_key p = p \<Longrightarrow> p \<notin> A \<Longrightarrow>
    own_step (w, H, A) (snd (saf_from_phys p w), add_mset (HShared p) H, insert p A)"
| into_shared: "HUnique p \<in># H \<Longrightarrow>
    own_step (w, H, A) (snd (uf_into_shared p w), add_mset (HShared p) (H - {#HUnique p#}), A)"
| leak_as_shared: "HUnique p \<in># H \<Longrightarrow>
    own_step (w, H, A) (uf_leak_as_shared p w, add_mset (HShared p) (H - {#HUnique p#}), A)"
| clone: "HShared p \<in># H \<Longrightarrow> count H (HShared p) + 2 < 2 ^ 32 \<Longrightarrow>
    own_step (w, H, A) (snd (saf_clone p w), add_mset (HShared p) H, A)"
| incref: "HShared p \<in># H \<Longrightarrow> count H (HShared p) + 2 < 2 ^ 32 \<Longrightarrow>
    own_step (w, H, A) (saf_incref p w, add_mset (HShared p) H, A)"
| drop_shared: "HShared p \<in># H \<Longrightarrow> w' = saf_drop p w \<Longrightarrow>
    own_step (w, H, A) (w', H - {#HShared p#}, A - released w w')"
| drop_unique: "HUnique p \<in># H \<Longrightarrow> w' = uf_drop p w \<Longrightarrow>
    own_step (w, H, A) (w', H - {#HUnique p#}, A - released w w')"
| upgrade: "HShared p \<in># H \<Longrightarrow> ft_try_upgrade_unique p (fw_table w) = (True, t) \<Longrightarrow>
    own_step (w, H, A) (w\<lparr>fw_table := t\<rparr>, add_mset (HUnique p) (H - {#HShared p#}), A)"

definition own_init :: own_state where
  "own_init = (\<lparr>fw_table = ft_new, fw_freed = []\<rparr>, {#}, {})"

inductive own_reach :: "own_state \<Rightarrow> bool" where
  init: "own_reach own_init"
| step: "own_reach s \<Longrightarrow> own_step s s' \<Longrightarrow> own_reach s'"

text \<open>
  Per frame, with \<open>u\<close> unique and \<open>s\<close> shared handles: a unique handle is alone; the count of a shared
  entry is the number of its holders, or one more when the entry was revived from a zombie; an
  entry that is not a zombie belongs to a frame that is handed out.
\<close>

definition page_ok :: "frame_entry option \<Rightarrow> nat \<Rightarrow> nat \<Rightarrow> bool \<Rightarrow> bool" where
  "page_ok oe u s owned \<longleftrightarrow>
     (u = 0 \<or> u = 1 \<and> s = 0 \<and> owned \<and> (\<exists>e. oe = Some e \<and> fe_flags e \<in> {FF_UNIQUE, FF_ZOMBIE})) \<and>
     (s = 0 \<or> (\<exists>e. oe = Some e \<and> fe_flags e = FF_SHARED)) \<and>
     (\<forall>e. oe = Some e \<longrightarrow>
        fe_flags e = FF_ZOMBIE \<or> fe_flags e = FF_UNIQUE \<and> u = 1 \<or>
        fe_flags e = FF_SHARED \<and> owned \<and> 0 < unat (fe_refcount e) \<and> s \<le> unat (fe_refcount e) \<and>
          unat (fe_refcount e) \<le> Suc s)"

definition own_inv :: "own_state \<Rightarrow> bool" where
  "own_inv = (\<lambda>(w, H, A).
     (\<forall>h \<in># H. frame_key (h_page h) = h_page h) \<and>
     (\<forall>q. page_ok (fw_table w q) (count H (HUnique q)) (count H (HShared q)) (q \<in> A)))"

lemma page_okI_other:
  "page_ok oe u s owned \<Longrightarrow> oe' = oe \<Longrightarrow> u' = u \<Longrightarrow> s' = s \<Longrightarrow> owned' = owned \<Longrightarrow> page_ok oe' u' s' owned'"
  by simp

lemma ft_step_other:
  assumes "q \<noteq> frame_key p"
  shows "ft_init_unique p t q = t q" "snd (ft_share p t) q = t q" "snd (ft_unshare p t) q = t q"
    "ft_mark_zombie p t q = t q" "snd (ft_try_upgrade_unique p t) q = t q"
  using ft_exec_other [of q "FInit p" t] ft_exec_other [of q "FShare p" t] ft_exec_other [of q "FUnshare p" t]
    ft_exec_other [of q "FZombie p" t] ft_exec_other [of q "FUpgrade p" t] assms by simp_all

lemma page_ok_alloc_unique:
  "page_ok (t p) u s False \<Longrightarrow> frame_key p = p \<Longrightarrow> page_ok (ft_init_unique p t p) (Suc u) s True \<and> u = 0"
  by (cases "t p") (auto simp: page_ok_def ft_init_unique_def)

lemma page_ok_alloc_shared:
  "page_ok (t p) u s False \<Longrightarrow> frame_key p = p \<Longrightarrow> page_ok (snd (ft_share p t) p) u (Suc s) True"
  by (cases "t p") (auto simp: page_ok_def ft_share_def)

lemma page_ok_into_shared:
  "page_ok (t p) (Suc u) s owned \<Longrightarrow> frame_key p = p \<Longrightarrow> page_ok (snd (ft_share p t) p) u (Suc s) owned"
  by (cases "t p") (auto simp: page_ok_def ft_share_def)

lemma page_ok_share:
  assumes "page_ok (t p) u s owned" "frame_key p = p" "0 < s" "s + 2 < 2 ^ 32"
  shows "page_ok (snd (ft_share p t) p) u (Suc s) owned"
proof -
  obtain e where e: "t p = Some e" "fe_flags e = FF_SHARED"
    using assms by (auto simp: page_ok_def)
  with assms have "shared_with (unat (fe_refcount e)) (t (frame_key p))" "Suc (unat (fe_refcount e)) < 2 ^ 32"
    by (auto simp: page_ok_def shared_with_def)
  from ft_share_shared [of _ t p, OF this] e assms show ?thesis
    by (auto simp: page_ok_def shared_with_iff)
qed

lemma page_ok_unshare:
  assumes "page_ok (t p) u (Suc s) owned" "frame_key p = p"
  shows "page_ok (snd (ft_unshare p t) p) u s (owned \<and> fst (ft_unshare p t) \<noteq> 0) \<and>
    (fst (ft_unshare p t) = 0 \<longrightarrow> u = 0 \<and> s = 0 \<and> owned)"
proof -
  obtain e where e: "t p = Some e" "fe_flags e = FF_SHARED" "u = 0" "owned"
    "Suc s \<le> unat (fe_refcount e)" "unat (fe_refcount e) \<le> Suc (Suc s)"
    using assms by (auto simp: page_ok_def)
  show ?thesis
  proof (cases "fe_refcount e \<le> 1")
    case True
    then have "unat (fe_refcount e) \<le> 1" by (simp add: word_le_nat_alt)
    with e assms True show ?thesis
      by (simp add: ft_unshare_def page_ok_def Let_def)
  next
    case False
    then have "1 < unat (fe_refcount e)" by (simp add: word_le_nat_alt)
    then have "shared_with (unat (fe_refcount e) - 1) (snd (ft_unshare p t) p)"
      "unat (fst (ft_unshare p t)) = unat (fe_refcount e) - 1"
      using ft_unshare_shared [of "unat (fe_refcount e)" t p] e assms by (auto simp: shared_with_def)
    with e \<open>1 < unat (fe_refcount e)\<close> show ?thesis
      by (auto simp: page_ok_def shared_with_iff)
  qed
qed

lemma page_ok_drop_unique:
  "page_ok (t p) (Suc u) s owned \<Longrightarrow> frame_key p = p \<Longrightarrow>
     page_ok (ft_mark_zombie p t p) u s False \<and> u = 0 \<and> s = 0 \<and> owned"
  by (cases "t p") (auto simp: page_ok_def ft_mark_zombie_def)

lemma page_ok_upgrade:
  assumes "page_ok (t p) u (Suc s) owned" "frame_key p = p" "ft_try_upgrade_unique p t = (True, t')"
  shows "page_ok (t' p) (Suc u) s owned"
proof -
  obtain e where e: "t p = Some e" "fe_flags e = FF_SHARED" "u = 0" "owned" "Suc s \<le> unat (fe_refcount e)"
    using assms by (auto simp: page_ok_def)
  with assms(2,3) have "fe_refcount e = 1" "t' = t(p \<mapsto> e\<lparr>fe_flags := FF_UNIQUE, fe_refcount := 0\<rparr>)"
    by (auto simp: ft_try_upgrade_unique_def split: if_splits)
  with e show ?thesis
    by (simp add: page_ok_def)
qed

lemma own_inv_at:
  assumes "own_inv (w, H, A)" "frame_key p = p"
    and "\<And>q. q \<noteq> p \<Longrightarrow> fw_table w' q = fw_table w q"
    and "\<And>q. q \<noteq> p \<Longrightarrow> count H' (HUnique q) = count H (HUnique q) \<and> count H' (HShared q) = count H (HShared q)"
    and "\<And>q. q \<noteq> p \<Longrightarrow> q \<in> A' \<longleftrightarrow> q \<in> A"
    and "page_ok (fw_table w' p) (count H' (HUnique p)) (count H' (HShared p)) (p \<in> A')"
    and "\<And>h. h \<in># H' \<Longrightarrow> h \<in># H \<or> h_page h = p"
  shows "own_inv (w', H', A')"
proof -
  have "page_ok (fw_table w' q) (count H' (HUnique q)) (count H' (HShared q)) (q \<in> A')" for q
    using assms by (cases "q = p") (auto simp: own_inv_def)
  moreover have "frame_key (h_page h) = h_page h" if "h \<in># H'" for h
    using assms(1,2) assms(7) [OF that] by (auto simp: own_inv_def)
  ultimately show ?thesis by (simp add: own_inv_def)
qed

lemma own_invD:
  assumes "own_inv (w, H, A)"
  shows "h \<in># H \<Longrightarrow> frame_key (h_page h) = h_page h"
    "page_ok (fw_table w q) (count H (HUnique q)) (count H (HShared q)) (q \<in> A)"
  using assms by (auto simp: own_inv_def)

lemma count_Suc: "x \<in># M \<Longrightarrow> count M x = Suc (count M x - 1)"
  using not_in_iff [of x M] by (cases "count M x") auto

lemma released_simps [simp]:
  "released w (frame_dealloc p (w\<lparr>fw_table := t\<rparr>)) = {frame_key p}"
  "released w (w\<lparr>fw_table := t\<rparr>) = {}"
  by (simp_all add: released_def frame_dealloc_def)

lemma frame_dealloc_table [simp]: "fw_table (frame_dealloc p w) = fw_table w"
  by (simp add: frame_dealloc_def)

lemma saf_drop_cases:
  "saf_drop p w = (if fst (ft_unshare p (fw_table w)) = 0
     then frame_dealloc p (w\<lparr>fw_table := snd (ft_unshare p (fw_table w))\<rparr>)
     else w\<lparr>fw_table := snd (ft_unshare p (fw_table w))\<rparr>)"
  by (simp add: saf_drop_def Let_def split: prod.split)

lemmas own_op_defs = uf_from_phys_def saf_from_phys_def uf_into_shared_def uf_leak_as_shared_def
  saf_clone_def saf_incref_def uf_drop_def saf_drop_cases

lemma own_inv_live: "own_inv (w, H, A) \<Longrightarrow> h \<in># H \<Longrightarrow> h_page h \<in> A"
  using own_invD(2) [of w H A "h_page h"] by (cases h) (auto simp: page_ok_def count_eq_zero_iff)

lemma own_inv_drop_shared:
  assumes inv: "own_inv (w, H, A)" and h: "HShared p \<in># H"
  shows "own_inv (saf_drop p w, H - {#HShared p#}, A - released w (saf_drop p w)) \<and> released w (saf_drop p w) \<subseteq> A"
proof -
  let ?t = "fw_table w" and ?u = "count H (HUnique p)" and ?s = "count H (HShared p) - 1"
  have al: "frame_key p = p" using own_invD(1) [OF inv h] by simp
  have "page_ok (?t p) ?u (Suc ?s) (p \<in> A)"
    using own_invD(2) [OF inv, of p] count_Suc [OF h] by simp
  from page_ok_unshare [of ?t p, OF this al]
  have ok: "page_ok (snd (ft_unshare p ?t) p) ?u ?s (p \<in> A \<and> fst (ft_unshare p ?t) \<noteq> 0)"
    "fst (ft_unshare p ?t) = 0 \<Longrightarrow> p \<in> A" by blast+
  have "own_inv (saf_drop p w, H - {#HShared p#}, A - released w (saf_drop p w))"
    using ok by (intro own_inv_at [OF inv al]) (auto simp: saf_drop_cases ft_step_other al dest: in_diffD)
  moreover have "released w (saf_drop p w) \<subseteq> A"
    using ok(2) al by (simp add: saf_drop_cases)
  ultimately show ?thesis by blast
qed

lemma own_inv_drop_unique:
  assumes inv: "own_inv (w, H, A)" and h: "HUnique p \<in># H"
  shows "own_inv (uf_drop p w, H - {#HUnique p#}, A - released w (uf_drop p w)) \<and> released w (uf_drop p w) \<subseteq> A"
proof -
  let ?t = "fw_table w" and ?u = "count H (HUnique p) - 1" and ?s = "count H (HShared p)"
  have al: "frame_key p = p" using own_invD(1) [OF inv h] by simp
  have "page_ok (?t p) (Suc ?u) ?s (p \<in> A)"
    using own_invD(2) [OF inv, of p] count_Suc [OF h] by simp
  from page_ok_drop_unique [of ?t p, OF this al]
  have ok: "page_ok (ft_mark_zombie p ?t p) ?u ?s False" "p \<in> A" by blast+
  have "own_inv (uf_drop p w, H - {#HUnique p#}, A - released w (uf_drop p w))"
    using ok by (intro own_inv_at [OF inv al]) (auto simp: uf_drop_def ft_step_other al dest: in_diffD)
  then show ?thesis
    using ok(2) al by (simp add: uf_drop_def)
qed

lemma own_inv_alloc:
  assumes inv: "own_inv (w, H, A)" and al: "frame_key p = p" and fresh: "p \<notin> A"
  shows "own_inv (w\<lparr>fw_table := ft_init_unique p (fw_table w)\<rparr>, add_mset (HUnique p) H, insert p A)"
    "own_inv (w\<lparr>fw_table := snd (ft_share p (fw_table w))\<rparr>, add_mset (HShared p) H, insert p A)"
proof -
  have ok: "page_ok (fw_table w p) (count H (HUnique p)) (count H (HShared p)) False"
    using own_invD(2) [OF inv, of p] fresh by simp
  show "own_inv (w\<lparr>fw_table := ft_init_unique p (fw_table w)\<rparr>, add_mset (HUnique p) H, insert p A)"
    using page_ok_alloc_unique [of "fw_table w" p, OF ok al]
    by (intro own_inv_at [OF inv al]) (auto simp: own_op_defs ft_step_other al)
  show "own_inv (w\<lparr>fw_table := snd (ft_share p (fw_table w))\<rparr>, add_mset (HShared p) H, insert p A)"
    using page_ok_alloc_shared [of "fw_table w" p, OF ok al]
    by (intro own_inv_at [OF inv al]) (auto simp: own_op_defs ft_step_other al)
qed

lemma own_inv_into_shared:
  assumes inv: "own_inv (w, H, A)" and h: "HUnique p \<in># H"
  shows "own_inv (w\<lparr>fw_table := snd (ft_share p (fw_table w))\<rparr>, add_mset (HShared p) (H - {#HUnique p#}), A)"
proof -
  have al: "frame_key p = p" using own_invD(1) [OF inv h] by simp
  have "page_ok (fw_table w p) (Suc (count H (HUnique p) - 1)) (count H (HShared p)) (p \<in> A)"
    using own_invD(2) [OF inv, of p] count_Suc [OF h] by simp
  from page_ok_into_shared [of "fw_table w" p, OF this al] show ?thesis
    by (intro own_inv_at [OF inv al]) (auto simp: ft_step_other al dest: in_diffD)
qed

lemma own_inv_share:
  assumes inv: "own_inv (w, H, A)" and h: "HShared p \<in># H" and "count H (HShared p) + 2 < 2 ^ 32"
  shows "own_inv (w\<lparr>fw_table := snd (ft_share p (fw_table w))\<rparr>, add_mset (HShared p) H, A)"
proof -
  have al: "frame_key p = p" using own_invD(1) [OF inv h] by simp
  have "0 < count H (HShared p)" using h by simp
  from page_ok_share [of "fw_table w" p, OF own_invD(2) [OF inv] al this assms(3)] show ?thesis
    by (intro own_inv_at [OF inv al]) (auto simp: ft_step_other al)
qed

lemma own_inv_upgrade:
  assumes inv: "own_inv (w, H, A)" and h: "HShared p \<in># H" and up: "ft_try_upgrade_unique p (fw_table w) = (True, t)"
  shows "own_inv (w\<lparr>fw_table := t\<rparr>, add_mset (HUnique p) (H - {#HShared p#}), A)"
proof -
  have al: "frame_key p = p" using own_invD(1) [OF inv h] by simp
  have "page_ok (fw_table w p) (count H (HUnique p)) (Suc (count H (HShared p) - 1)) (p \<in> A)"
    using own_invD(2) [OF inv, of p] count_Suc [OF h] by simp
  from page_ok_upgrade [of "fw_table w" p, OF this al up] show ?thesis
    using ft_step_other(5) [of _ p "fw_table w"] up
    by (intro own_inv_at [OF inv al]) (auto simp: al dest: in_diffD)
qed

lemma own_step_inv:
  assumes "own_step s s'" "own_inv s"
  shows "own_inv s' \<and> released (fst s) (fst s') \<subseteq> snd (snd s)"
  using assms
proof (cases rule: own_step.cases)
  case (incref p H w A)
  then have "frame_key p = p" using own_invD(1) assms(2) by fastforce
  with incref assms(2) show ?thesis
    using own_inv_share [of w H A p] by (simp add: saf_incref_def)
qed (use assms(2) in \<open>auto simp: own_inv_alloc own_inv_into_shared own_inv_share own_inv_upgrade
      own_inv_drop_shared own_inv_drop_unique own_op_defs(1-5) released_simps\<close>)

lemma own_reach_inv: "own_reach s \<Longrightarrow> own_inv s"
proof (induction rule: own_reach.induct)
  case init
  show ?case by (simp add: own_init_def own_inv_def page_ok_def ft_new_def)
next
  case (step s s')
  then show ?case using own_step_inv by blast
qed

section \<open>Life cycles\<close>

definition clones :: "nat \<Rightarrow> u64 \<Rightarrow> frame_world \<Rightarrow> frame_world" where
  "clones n p w = ((\<lambda>w. snd (saf_clone p w)) ^^ n) w"

definition drops :: "nat \<Rightarrow> u64 \<Rightarrow> frame_world \<Rightarrow> frame_world" where
  "drops n p w = (saf_drop p ^^ n) w"

lemma clones_count:
  assumes "shared_with m (fw_table w (frame_key p))" "m + n < 2 ^ 32"
  shows "shared_with (m + n) (fw_table (clones n p w) (frame_key p)) \<and> fw_freed (clones n p w) = fw_freed w"
  using assms(2)
proof (induction n)
  case (Suc n)
  then show ?case
    using ft_share_shared [of "m + n" "fw_table (clones n p w)" p] by (simp add: clones_def saf_clone_def)
qed (use assms(1) in \<open>simp add: clones_def\<close>)

lemma drops_count:
  assumes "shared_with m (fw_table w (frame_key p))" "n < m"
  shows "shared_with (m - n) (fw_table (drops n p w) (frame_key p)) \<and> fw_freed (drops n p w) = fw_freed w"
  using assms(2)
proof (induction n)
  case (Suc n)
  let ?w = "drops n p w"
  have "shared_with (m - n) (fw_table ?w (frame_key p))" "1 < m - n" "fw_freed ?w = fw_freed w"
    using Suc by auto
  from ft_unshare_shared [of _ "fw_table ?w" p, OF this(1,2)] this(2,3)
  have "fst (ft_unshare p (fw_table ?w)) \<noteq> 0" "shared_with (m - Suc n) (snd (ft_unshare p (fw_table ?w)) (frame_key p))"
    by auto
  with \<open>fw_freed ?w = fw_freed w\<close> show ?case
    by (simp add: drops_def saf_drop_cases)
qed (use assms(1) in \<open>simp add: drops_def\<close>)

lemma drop_last:
  assumes "shared_with 1 (fw_table w (frame_key p))"
  shows "fw_table (saf_drop p w) (frame_key p) = None \<and> fw_freed (saf_drop p w) = fw_freed w @ [frame_key p]"
proof -
  obtain e where "fw_table w (frame_key p) = Some e" "fe_flags e = FF_SHARED" "fe_refcount e = 1"
    using assms by (auto simp: shared_with_iff word_unat_eq_iff)
  then show ?thesis
    by (simp add: saf_drop_cases ft_unshare_def frame_dealloc_def)
qed

section \<open>Properties\<close>



text \<open>
  C15. Life cycle of a shared frame: a frame that enters the table through \<open>into_shared\<close> of a fresh
  unique handle and is then cloned \<open>n\<close> times survives \<open>n\<close> drops with its count going down to one,
  and the last drop removes the entry and gives the frame back, exactly once.
\<close>

theorem shared_frame_lifecycle:
  assumes "fw_table w (frame_key p) = None" and "n + 1 < 2 ^ 32"
  shows "let w1 = clones n p (snd (uf_into_shared p (snd (uf_from_phys p w))));
             w2 = drops n p w1
         in ft_refcount p (fw_table w1) = of_nat (Suc n) \<and> ft_refcount p (fw_table w2) = 1 \<and> fw_freed w2 = fw_freed w \<and>
            fw_table (saf_drop p w2) (frame_key p) = None \<and> fw_freed (saf_drop p w2) = fw_freed w @ [frame_key p]"
proof -
  let ?w0 = "snd (uf_into_shared p (snd (uf_from_phys p w)))"
  let ?w1 = "clones n p ?w0" and ?w2 = "drops n p (clones n p ?w0)"
  have "shared_with 1 (fw_table ?w0 (frame_key p))" "fw_freed ?w0 = fw_freed w"
    using assms(1) by (simp_all add: own_op_defs ft_init_unique_def ft_share_def shared_with_def)
  then have 1: "shared_with (Suc n) (fw_table ?w1 (frame_key p))" "fw_freed ?w1 = fw_freed w"
    using clones_count [of 1 ?w0 p n] assms(2) by auto
  then have 2: "shared_with 1 (fw_table ?w2 (frame_key p))" "fw_freed ?w2 = fw_freed w"
    using drops_count [of "Suc n" ?w1 p n] by auto
  have rc: "shared_with m (t (frame_key p)) \<Longrightarrow> ft_refcount p t = of_nat m" for m t
    by (auto simp: shared_with_iff ft_refcount_def)
  show ?thesis
    using rc [of _ "fw_table ?w1", OF 1(1)] rc [of _ "fw_table ?w2", OF 2(1)] 1 2 drop_last [OF 2(1)] by (simp add: Let_def)
qed

theorem shared_frame_lifecycle_witness:
  "fw_freed (saf_drop 0x5000 (drops 3 0x5000 (clones 3 0x5000
     (snd (uf_into_shared 0x5000 (snd (uf_from_phys 0x5000 \<lparr>fw_table = ft_new, fw_freed = []\<rparr>))))))) = [0x5000]"
  using shared_frame_lifecycle [of "\<lparr>fw_table = ft_new, fw_freed = []\<rparr>" "0x5000" 3]
  by (simp add: ft_new_def Let_def frame_key_def)

text \<open>
  A recycled frame leaks: dropping a unique handle leaves a ZOMBIE entry behind, the next
  \<open>init_unique\<close> of the same frame keeps it, and sharing it then counts two references for the one
  handle, so that dropping that handle does not give the frame back.
\<close>

lemma zombie_recycling_leaks:
  assumes "fw_table w (frame_key p) = None"
  shows "let w1 = uf_drop p (snd (uf_from_phys p w));
             w2 = snd (uf_into_shared p (snd (uf_from_phys p w1)))
         in ft_flags p (fw_table w1) = FF_ZOMBIE \<and> ft_refcount p (fw_table w2) = 2 \<and>
            fw_freed (saf_drop p w2) = fw_freed w1 \<and> ft_refcount p (fw_table (saf_drop p w2)) = 1"
  using assms
  by (simp add: Let_def own_op_defs frame_dealloc_def ft_init_unique_def ft_mark_zombie_def ft_share_def
      ft_unshare_def ft_flags_def ft_refcount_def word_le_nat_alt)

text \<open>
  Folio marks break the count: once a shared frame carries a folio bit, \<open>share\<close> no longer adds a
  reference and \<open>unshare\<close> reports zero, so that dropping one of any number of handles gives the
  frame back while the others are alive.
\<close>

lemma folio_mark_frees_early:
  assumes "fw_table w (frame_key p) = Some e" and "fe_flags e = FF_SHARED"
  shows "let w1 = w\<lparr>fw_table := ft_folio_mark_head p order (fw_table w)\<rparr>
         in fw_table (snd (saf_clone p w1)) = fw_table w1 \<and> ft_refcount p (fw_table w1) = fe_refcount e \<and>
            fw_freed (saf_drop p w1) = fw_freed w1 @ [frame_key p] \<and> fw_table (saf_drop p w1) = fw_table w1"
proof -
  have "FF_SHARED OR FF_FOLIO_HEAD \<notin> {FF_UNIQUE, FF_SHARED, FF_ZOMBIE}"
    by simp
  with assms show ?thesis
    by (simp add: Let_def own_op_defs frame_dealloc_def ft_folio_mark_head_def ft_share_def ft_unshare_def ft_refcount_def)
qed

end
