(* ===== verification/Refcache.thy ===== *)
theory Refcache
  imports Frame_Ownership
begin

text \<open>
  The deferred reference counts of \<open>src/src/memory/frame_ownership/refcache.rs\<close>: each CPU keeps a
  64-slot cache of pending signed deltas, flushes them into the frame table, and queues frames whose
  global count reached zero for review; a frame still at zero two epochs later is handed to the
  drain list.  \<open>SharedRefCacheFrame\<close> (\<open>shared_refcache.rs\<close>) is the handle over it.  The per-CPU slot
  of the executing CPU is an argument of every operation.
\<close>

section \<open>State\<close>

definition REFCACHE_SIZE :: nat where "REFCACHE_SIZE = 64"
abbreviation REVIEW_QUEUE_SIZE :: nat where "REVIEW_QUEUE_SIZE \<equiv> 32"
abbreviation MAX_CPU_SLOTS :: nat where "MAX_CPU_SLOTS \<equiv> 256"

record delta_entry =
  de_phys :: u64
  de_delta :: u32

record review_entry =
  re_phys :: u64
  re_added_epoch :: u64
  re_dirty :: bool

record refcache_cpu =
  rc_cache :: "delta_entry list"
  rc_review :: "review_entry option list"
  rc_review_count :: nat
  rc_epoch :: u64

record refcache_state =
  rs_cpus :: "refcache_cpu list"
  rs_global_epoch :: u64
  rs_drain :: "u64 list"
  rs_world :: frame_world

definition refcache_cpu_new :: refcache_cpu where
  "refcache_cpu_new = \<lparr>rc_cache = replicate REFCACHE_SIZE \<lparr>de_phys = 0, de_delta = 0\<rparr>,
     rc_review = replicate REVIEW_QUEUE_SIZE None, rc_review_count = 0, rc_epoch = 0\<rparr>"

definition refcache_state_new :: refcache_state where
  "refcache_state_new = \<lparr>rs_cpus = replicate MAX_CPU_SLOTS refcache_cpu_new, rs_global_epoch = 0, rs_drain = [],
     rs_world = \<lparr>fw_table = ft_new, fw_freed = []\<rparr>\<rparr>"

definition current_cpu_slot :: "nat \<Rightarrow> nat" where
  "current_cpu_slot cpu = (if MAX_CPU_SLOTS \<le> cpu then MAX_CPU_SLOTS - 1 else cpu)"

definition cache_slot :: "u64 \<Rightarrow> nat" where
  "cache_slot phys = unat (drop_bit 12 phys AND 0x3F)"

text \<open>Saturating \<open>i32\<close> steps on the 32-bit pattern of a delta.\<close>

definition i32_sat_inc :: "u32 \<Rightarrow> u32" where
  "i32_sat_inc d = (if d = 0x7FFFFFFF then d else d + 1)"

definition i32_sat_dec :: "u32 \<Rightarrow> u32" where
  "i32_sat_dec d = (if d = 0x80000000 then d else d - 1)"

section \<open>Operations on one CPU's cache\<close>

text \<open>
  The operations take the CPU's record and the frame table and return both, so that they compose
  as the code's accesses to \<open>REFCACHE_CPU[cpu_id]\<close> and \<open>FRAME_TABLE\<close> do.
\<close>

type_synonym cpu_table = "refcache_cpu \<times> frame_table"

definition enqueue_review :: "u64 \<Rightarrow> u64 \<Rightarrow> refcache_cpu \<Rightarrow> refcache_cpu" where
  "enqueue_review phys current_epoch cpu =
     (if rc_review_count cpu < REVIEW_QUEUE_SIZE
      then cpu\<lparr>rc_review := (rc_review cpu)[rc_review_count cpu :=
                   Some \<lparr>re_phys = phys, re_added_epoch = current_epoch, re_dirty = False\<rparr>],
               rc_review_count := rc_review_count cpu + 1\<rparr>
      else cpu)"

definition remove_review :: "nat \<Rightarrow> refcache_cpu \<Rightarrow> refcache_cpu" where
  "remove_review idx cpu =
     (let last = rc_review_count cpu - 1;
          rv = (if idx \<noteq> last then ((rc_review cpu)[idx := rc_review cpu ! last])[last := None] else rc_review cpu)
      in cpu\<lparr>rc_review := rv, rc_review_count := rc_review_count cpu - 1\<rparr>)"

definition flush_entry :: "delta_entry \<Rightarrow> cpu_table \<Rightarrow> cpu_table" where
  "flush_entry e = (\<lambda>(cpu, t).
     (let (new_global, t') = ft_refcache_global_add (de_phys e) (de_delta e) t
      in if new_global = 0 then (enqueue_review (de_phys e) (rc_epoch cpu) cpu, t') else (cpu, t')))"

definition refcache_inc :: "u64 \<Rightarrow> cpu_table \<Rightarrow> cpu_table" where
  "refcache_inc phys = (\<lambda>(cpu, t).
     (let slot = cache_slot phys; entry = rc_cache cpu ! slot
      in if de_phys entry = frame_key phys
         then (cpu\<lparr>rc_cache := (rc_cache cpu)[slot := entry\<lparr>de_delta := i32_sat_inc (de_delta entry)\<rparr>]\<rparr>, t)
         else (let (cpu', t') = (if de_phys entry \<noteq> 0 \<and> de_delta entry \<noteq> 0 then flush_entry entry (cpu, t) else (cpu, t))
               in (cpu'\<lparr>rc_cache := (rc_cache cpu')[slot := \<lparr>de_phys = frame_key phys, de_delta = 1\<rparr>]\<rparr>, t'))))"

definition refcache_dec :: "u64 \<Rightarrow> cpu_table \<Rightarrow> cpu_table" where
  "refcache_dec phys = (\<lambda>(cpu, t).
     (let slot = cache_slot phys; entry = rc_cache cpu ! slot
      in if de_phys entry = frame_key phys
         then (cpu\<lparr>rc_cache := (rc_cache cpu)[slot := entry\<lparr>de_delta := i32_sat_dec (de_delta entry)\<rparr>]\<rparr>, t)
         else (let (cpu', t') = (if de_phys entry \<noteq> 0 \<and> de_delta entry \<noteq> 0 then flush_entry entry (cpu, t) else (cpu, t))
               in (cpu'\<lparr>rc_cache := (rc_cache cpu')[slot := \<lparr>de_phys = frame_key phys, de_delta = - 1\<rparr>]\<rparr>, t'))))"

definition flush_slot :: "nat \<Rightarrow> cpu_table \<Rightarrow> cpu_table" where
  "flush_slot slot = (\<lambda>(cpu, t).
     (let entry = rc_cache cpu ! slot
      in if de_phys entry = 0 then (cpu, t)
         else (let (cpu', t') = (if de_delta entry \<noteq> 0 then flush_entry entry (cpu, t) else (cpu, t))
               in (cpu'\<lparr>rc_cache := (rc_cache cpu')[slot := (rc_cache cpu' ! slot)\<lparr>de_delta := 0\<rparr>]\<rparr>, t'))))"

definition refcache_flush :: "cpu_table \<Rightarrow> cpu_table" where
  "refcache_flush = fold flush_slot [0..<REFCACHE_SIZE]"

text \<open>
  The review loop of \<open>tick\<close>: each round either moves on to the next index or shortens the queue, so
  it ends.
\<close>

function review_loop :: "u64 \<Rightarrow> nat \<Rightarrow> refcache_cpu \<Rightarrow> u64 list \<Rightarrow> frame_table \<Rightarrow> refcache_cpu \<times> u64 list \<times> frame_table" where
  "review_loop global_epoch i cpu drain t =
     (if i < rc_review_count cpu then
        (case rc_review cpu ! i of
           None \<Rightarrow> review_loop global_epoch (i + 1) cpu drain t
         | Some r \<Rightarrow>
             if global_epoch - re_added_epoch r < 2 then review_loop global_epoch (i + 1) cpu drain t
             else (let (freed, t') = ft_refcache_try_remove (re_phys r) t
                   in if freed then review_loop global_epoch i (remove_review i cpu) (drain @ [re_phys r]) t'
                      else if re_dirty r then
                        review_loop global_epoch (i + 1)
                          (cpu\<lparr>rc_review := (rc_review cpu)[i := Some \<lparr>re_phys = re_phys r, re_added_epoch = global_epoch, re_dirty = False\<rparr>]\<rparr>)
                          drain t'
                      else review_loop global_epoch i (remove_review i cpu) drain t'))
      else (cpu, drain, t))"
  by pat_completeness auto
termination
  by (relation "measure (\<lambda>(_, i, cpu, _, _). rc_review_count cpu - i)") (auto simp: remove_review_def Let_def)

declare review_loop.simps [simp del]

section \<open>Operations on the whole state\<close>

definition on_cpu :: "nat \<Rightarrow> (cpu_table \<Rightarrow> cpu_table) \<Rightarrow> refcache_state \<Rightarrow> refcache_state" where
  "on_cpu cpu f s =
     (let (c, t) = f (rs_cpus s ! cpu, fw_table (rs_world s))
      in s\<lparr>rs_cpus := (rs_cpus s)[cpu := c], rs_world := (rs_world s)\<lparr>fw_table := t\<rparr>\<rparr>)"

definition rs_inc :: "nat \<Rightarrow> u64 \<Rightarrow> refcache_state \<Rightarrow> refcache_state" where
  "rs_inc cpu phys = on_cpu (current_cpu_slot cpu) (refcache_inc phys)"

definition rs_dec :: "nat \<Rightarrow> u64 \<Rightarrow> refcache_state \<Rightarrow> refcache_state" where
  "rs_dec cpu phys = on_cpu (current_cpu_slot cpu) (refcache_dec phys)"

definition rs_tick :: "nat \<Rightarrow> refcache_state \<Rightarrow> refcache_state" where
  "rs_tick cpu s =
     (let cpu_id = current_cpu_slot cpu;
          s1 = on_cpu cpu_id refcache_flush s;
          global_epoch = rs_global_epoch s1;
          c = (rs_cpus s1 ! cpu_id)\<lparr>rc_epoch := global_epoch\<rparr>;
          (c', drain, t) = review_loop global_epoch 0 c (rs_drain s1) (fw_table (rs_world s1))
      in s1\<lparr>rs_cpus := (rs_cpus s1)[cpu_id := c'], rs_global_epoch := global_epoch + 1, rs_drain := drain,
            rs_world := (rs_world s1)\<lparr>fw_table := t\<rparr>\<rparr>)"

definition rs_drain_all :: "refcache_state \<Rightarrow> refcache_state" where
  "rs_drain_all s = s\<lparr>rs_drain := [], rs_world := fold frame_dealloc (rs_drain s) (rs_world s)\<rparr>"

definition rs_init_frame :: "u64 \<Rightarrow> refcache_state \<Rightarrow> refcache_state" where
  "rs_init_frame phys s = s\<lparr>rs_world := (rs_world s)\<lparr>fw_table := ft_refcache_init phys (fw_table (rs_world s))\<rparr>\<rparr>"

definition rs_refcount :: "nat \<Rightarrow> u64 \<Rightarrow> refcache_state \<Rightarrow> u32" where
  "rs_refcount cpu phys s =
     (let cached = rc_cache (rs_cpus s ! current_cpu_slot cpu) ! cache_slot phys;
          local_delta = (if de_phys cached = frame_key phys then de_delta cached else 0);
          global = ft_refcount phys (fw_table (rs_world s))
      in if 0 \<le>s local_delta then global + local_delta else sat_sub global (- local_delta))"

definition srf_from_phys :: "u64 \<Rightarrow> refcache_state \<Rightarrow> u64 \<times> refcache_state" where
  "srf_from_phys phys s = (frame_key phys, rs_init_frame phys s)"

definition srf_clone :: "nat \<Rightarrow> u64 \<Rightarrow> refcache_state \<Rightarrow> u64 \<times> refcache_state" where
  "srf_clone cpu phys s = (phys, rs_inc cpu phys s)"

definition srf_drop :: "nat \<Rightarrow> u64 \<Rightarrow> refcache_state \<Rightarrow> refcache_state" where
  "srf_drop cpu phys = rs_dec cpu phys"

definition uf_into_shared_refcache :: "nat \<Rightarrow> u64 \<Rightarrow> refcache_state \<Rightarrow> u64 \<times> refcache_state" where
  "uf_into_shared_refcache cpu phys s = srf_from_phys phys (rs_inc cpu phys (rs_init_frame phys s))"

text \<open>\<open>dec_frame_ref\<close> of \<open>memory/mod.rs\<close>, which routes refcache frames to the deferred counts.\<close>

definition mm_dec_frame_ref :: "nat \<Rightarrow> u64 \<Rightarrow> refcache_state \<Rightarrow> u32 \<times> refcache_state" where
  "mm_dec_frame_ref cpu phys s =
     (if ft_flags phys (fw_table (rs_world s)) AND FF_REFCACHE = FF_REFCACHE then (1, rs_dec cpu phys s)
      else (let (r, t) = ft_unshare phys (fw_table (rs_world s))
            in (r, s\<lparr>rs_world := (rs_world s)\<lparr>fw_table := t\<rparr>\<rparr>)))"

section \<open>Exactness on one CPU\<close>

text \<open>
  \<open>c\<close> is the number of references that really exist.  The invariant says that for every frame the
  global count plus the CPU's pending delta is \<open>c\<close>, and that frames without an entry have none.
\<close>

definition local_delta :: "refcache_cpu \<Rightarrow> u64 \<Rightarrow> int" where
  "local_delta cpu p =
     (let e = rc_cache cpu ! cache_slot p in if de_phys e = p then sint (de_delta e) else 0)"

definition slot_ok :: "nat \<Rightarrow> delta_entry \<Rightarrow> bool" where
  "slot_ok i e \<longleftrightarrow> frame_key (de_phys e) = de_phys e \<and>
     (if de_phys e = 0 then de_delta e = 0 else cache_slot (de_phys e) = i)"

definition counted :: "frame_entry option \<Rightarrow> int \<Rightarrow> int \<Rightarrow> bool" where
  "counted oe d n \<longleftrightarrow> 0 \<le> n \<and> n < 2147483648 \<and>
     (case oe of None \<Rightarrow> n = 0 \<and> d = 0
      | Some e \<Rightarrow> fe_flags e = FF_REFCACHE \<and> uint (fe_refcount e) + d = n \<and> uint (fe_refcount e) < 2147483648)"

definition review_ok :: "refcache_cpu \<Rightarrow> bool" where
  "review_ok cpu \<longleftrightarrow> length (rc_review cpu) = REVIEW_QUEUE_SIZE \<and> rc_review_count cpu \<le> REVIEW_QUEUE_SIZE \<and>
     (\<forall>r. Some r \<in> set (rc_review cpu) \<longrightarrow> frame_key (re_phys r) = re_phys r \<and> re_phys r \<noteq> 0)"

definition rc_inv :: "cpu_table \<Rightarrow> (u64 \<Rightarrow> int) \<Rightarrow> bool" where
  "rc_inv = (\<lambda>(cpu, t) c. length (rc_cache cpu) = REFCACHE_SIZE \<and> (\<forall>i < REFCACHE_SIZE. slot_ok i (rc_cache cpu ! i)) \<and>
     review_ok cpu \<and> (\<forall>p. frame_key p = p \<longrightarrow> p \<noteq> 0 \<longrightarrow> counted (t p) (local_delta cpu p) (c p)))"

lemma cache_slot_less [simp]: "cache_slot p < REFCACHE_SIZE"
proof -
  have "drop_bit 12 p AND 0x3F \<le> 0x3F"
    using word_and_le1 [of "drop_bit 12 p" "0x3F"] by simp
  then show ?thesis
    by (simp add: cache_slot_def REFCACHE_SIZE_def word_le_nat_alt)
qed

lemma enqueue_review_fields [simp]:
  "rc_cache (enqueue_review q ep cpu) = rc_cache cpu" "rc_epoch (enqueue_review q ep cpu) = rc_epoch cpu"
  by (simp_all add: enqueue_review_def)

lemma review_ok_enqueue:
  "review_ok cpu \<Longrightarrow> frame_key q = q \<Longrightarrow> q \<noteq> 0 \<Longrightarrow> review_ok (enqueue_review q ep cpu)"
  by (auto simp: review_ok_def enqueue_review_def dest!: set_updateD)

lemma review_ok_cache [simp]: "review_ok (cpu\<lparr>rc_cache := xs\<rparr>) = review_ok cpu"
  by (simp add: review_ok_def)

lemma global_add_counted:
  assumes "counted (t q) (sint d) n" "frame_key q = q" "d \<noteq> 0"
  shows "\<exists>e. t q = Some e \<and> fe_flags e = FF_REFCACHE \<and> ft_refcache_global_add q d t =
    (word_of_int n, t(q \<mapsto> e\<lparr>fe_flags := FF_REFCACHE, fe_refcount := word_of_int n\<rparr>))"
proof -
  obtain e where e: "t q = Some e" "fe_flags e = FF_REFCACHE" "uint (fe_refcount e) + sint d = n" "0 \<le> n" "n < 2147483648"
    using assms by (auto simp: counted_def split: option.splits)
  let ?new = "if 0 <s d then sat_add (fe_refcount e) d else sat_sub (fe_refcount e) (- d)"
  have "uint ?new = n"
    using e uint_of_pos32 [of d] uint_of_neg32 [of d] by (auto simp: uint_sat_add uint_sat_sub)
  then have "word_of_int (uint ?new) = (word_of_int n :: u32)"
    by (rule arg_cong)
  then have "?new = word_of_int n"
    by (simp only: word_of_int_uint)
  with e assms(2) show ?thesis
    by (simp add: ft_refcache_global_add_def Let_def)
qed

lemma local_delta_other:
  assumes "i < length (rc_cache cpu)" "slot_ok i (rc_cache cpu ! i)" "p \<noteq> 0"
    and "p \<noteq> de_phys (rc_cache cpu ! i) \<or> de_delta (rc_cache cpu ! i) = 0" "p \<noteq> de_phys ne"
  shows "local_delta (cpu\<lparr>rc_cache := (rc_cache cpu)[i := ne]\<rparr>) p = local_delta cpu p"
  using assms by (auto simp: local_delta_def Let_def nth_list_update)

lemma local_delta_cached:
  assumes "slot_ok i (rc_cache cpu ! i)" "de_phys (rc_cache cpu ! i) \<noteq> 0"
  shows "local_delta cpu (de_phys (rc_cache cpu ! i)) = sint (de_delta (rc_cache cpu ! i))"
  using assms by (auto simp: local_delta_def slot_ok_def Let_def)

lemma rc_invD:
  assumes "rc_inv (cpu, t) c"
  shows "length (rc_cache cpu) = REFCACHE_SIZE" "i < REFCACHE_SIZE \<Longrightarrow> slot_ok i (rc_cache cpu ! i)" "review_ok cpu"
    "frame_key p = p \<Longrightarrow> p \<noteq> 0 \<Longrightarrow> counted (t p) (local_delta cpu p) (c p)"
  using assms by (auto simp: rc_inv_def)

text \<open>Writing a slot's pending delta into the table keeps all counts.\<close>

lemma rc_inv_settle:
  assumes inv: "rc_inv (cpu, t) c" and i: "i < REFCACHE_SIZE" and q: "de_phys (rc_cache cpu ! i) \<noteq> 0"
    and fl: "(if de_delta (rc_cache cpu ! i) \<noteq> 0 then flush_entry (rc_cache cpu ! i) (cpu, t) else (cpu, t)) = (cpu', t')"
  shows "rc_inv (cpu'\<lparr>rc_cache := (rc_cache cpu')[i := (rc_cache cpu' ! i)\<lparr>de_delta := 0\<rparr>]\<rparr>, t') c \<and>
    rc_cache cpu' = rc_cache cpu"
proof (cases "de_delta (rc_cache cpu ! i) = 0")
  case True
  then have "(rc_cache cpu ! i)\<lparr>de_delta := 0\<rparr> = rc_cache cpu ! i"
    by (cases "rc_cache cpu ! i") simp
  then have "(rc_cache cpu)[i := (rc_cache cpu ! i)\<lparr>de_delta := 0\<rparr>] = rc_cache cpu"
    by simp
  with True fl inv show ?thesis by simp
next
  case False
  let ?e = "rc_cache cpu ! i" and ?q = "de_phys (rc_cache cpu ! i)"
  note len = rc_invD(1) [OF inv] and ok = rc_invD(2) [OF inv i]
  have al: "frame_key ?q = ?q" using ok by (simp add: slot_ok_def)
  have "counted (t ?q) (sint (de_delta ?e)) (c ?q)"
    using rc_invD(4) [OF inv al q] local_delta_cached [OF ok q] by simp
  from global_add_counted [of t, OF this al False] obtain fe where
    fe: "t ?q = Some fe" "fe_flags fe = FF_REFCACHE" and
    add: "ft_refcache_global_add ?q (de_delta ?e) t = (word_of_int (c ?q), t(?q \<mapsto> fe\<lparr>fe_flags := FF_REFCACHE, fe_refcount := word_of_int (c ?q)\<rparr>))"
    by blast
  have cpu': "cpu' = cpu \<or> cpu' = enqueue_review ?q (rc_epoch cpu) cpu"
    and t': "t' = t(?q \<mapsto> fe\<lparr>fe_flags := FF_REFCACHE, fe_refcount := word_of_int (c ?q)\<rparr>)"
    using fl False add by (auto simp: flush_entry_def split: if_splits)
  then have cache: "rc_cache cpu' = rc_cache cpu" by auto
  let ?cpu = "cpu'\<lparr>rc_cache := (rc_cache cpu')[i := (rc_cache cpu' ! i)\<lparr>de_delta := 0\<rparr>]\<rparr>"
  have "review_ok ?cpu"
    using cpu' review_ok_enqueue [OF rc_invD(3) [OF inv] al q] rc_invD(3) [OF inv] by auto
  moreover have "slot_ok j (rc_cache ?cpu ! j)" if "j < REFCACHE_SIZE" for j
    using rc_invD(2) [OF inv that] ok i len cache q by (cases "j = i") (auto simp: slot_ok_def)
  moreover have "counted (t' p) (local_delta ?cpu p) (c p)" if p: "frame_key p = p" "p \<noteq> 0" for p
  proof (cases "p = ?q")
    case True
    have "0 \<le> c p" "c p < 2147483648"
      using rc_invD(4) [OF inv p] by (auto simp: counted_def)
    moreover have "local_delta ?cpu p = 0"
      using True ok q cache i len by (simp add: local_delta_def slot_ok_def Let_def)
    ultimately show ?thesis
      using True t' by (simp add: counted_def uint_word_of_int)
  next
    case False
    then have "local_delta ?cpu p = local_delta cpu p"
      using p i len ok cache by (auto simp: local_delta_def Let_def nth_list_update)
    with False t' rc_invD(4) [OF inv p] show ?thesis by simp
  qed
  ultimately show ?thesis
    using cache len by (simp add: rc_inv_def)
qed

lemma rc_inv_set_delta:
  assumes inv: "rc_inv (cpu, t) c" and p: "frame_key p = p" "p \<noteq> 0" "t p \<noteq> None"
    and old: "de_phys (rc_cache cpu ! cache_slot p) = p \<or> de_delta (rc_cache cpu ! cache_slot p) = 0"
    and d: "sint d = local_delta cpu p + k" and k: "0 \<le> c p + k" "c p + k < 2147483648"
  shows "rc_inv (cpu\<lparr>rc_cache := (rc_cache cpu)[cache_slot p := \<lparr>de_phys = p, de_delta = d\<rparr>]\<rparr>, t) (c(p := c p + k))"
proof -
  let ?i = "cache_slot p"
  let ?cpu = "cpu\<lparr>rc_cache := (rc_cache cpu)[?i := \<lparr>de_phys = p, de_delta = d\<rparr>]\<rparr>"
  note len = rc_invD(1) [OF inv]
  have "slot_ok j (rc_cache ?cpu ! j)" if "j < REFCACHE_SIZE" for j
    using rc_invD(2) [OF inv that] len p by (cases "j = ?i") (auto simp: slot_ok_def)
  moreover have "counted (t q) (local_delta ?cpu q) ((c(p := c p + k)) q)" if q: "frame_key q = q" "q \<noteq> 0" for q
  proof (cases "q = p")
    case True
    then have "local_delta ?cpu q = local_delta cpu p + k"
      using d len by (simp add: local_delta_def Let_def)
    with True rc_invD(4) [OF inv p(1,2)] p(3) k show ?thesis
      by (auto simp: counted_def)
  next
    case False
    then have "local_delta ?cpu q = local_delta cpu q"
      using old len by (auto simp: local_delta_def Let_def nth_list_update)
    with False rc_invD(4) [OF inv q] show ?thesis by simp
  qed
  ultimately show ?thesis
    using len rc_invD(3) [OF inv] by (simp add: rc_inv_def)
qed

lemma frame_key_0 [simp]: "frame_key 0 = 0"
  by (simp add: frame_key_def)

lemma flush_entry_t_dom:
  assumes "flush_entry e (cpu, t) = (cpu', t')" "t p \<noteq> None"
  shows "t' p \<noteq> None"
  using assms by (auto simp: flush_entry_def ft_refcache_global_add_def Let_def split: option.splits if_splits)

lemma i32_steps:
  "sint d < 2147483647 \<Longrightarrow> sint (i32_sat_inc d) = sint d + 1"
  "- 2147483648 < sint d \<Longrightarrow> sint (i32_sat_dec d) = sint d - 1"
  using sint_add_of_int32 [of d 1] sint_add_of_int32 [of d "- 1"] sint32_bounds [of d]
  by (auto simp: i32_sat_inc_def i32_sat_dec_def)

text \<open>
  Both \<open>inc\<close> and \<open>dec\<close>: the slot's new content is the bumped delta on a hit, and the bare step after
  settling the previous tenant on a miss.
\<close>

lemma rc_inv_bump:
  assumes inv: "rc_inv (cpu, t) c" and p: "frame_key p = p" "p \<noteq> 0" "t p \<noteq> None"
    and k: "k = 1 \<and> step = i32_sat_inc \<and> one = (1::u32) \<or> k = - 1 \<and> step = i32_sat_dec \<and> one = - 1"
    and c: "0 \<le> c p + k" "c p + k < 2147483648"
  defines "e \<equiv> rc_cache cpu ! cache_slot p"
  shows "if de_phys e = p
     then rc_inv (cpu\<lparr>rc_cache := (rc_cache cpu)[cache_slot p := e\<lparr>de_delta := step (de_delta e)\<rparr>]\<rparr>, t) (c(p := c p + k))
     else (case (if de_phys e \<noteq> 0 \<and> de_delta e \<noteq> 0 then flush_entry e (cpu, t) else (cpu, t)) of (cpu', t') \<Rightarrow>
       rc_inv (cpu'\<lparr>rc_cache := (rc_cache cpu')[cache_slot p := \<lparr>de_phys = p, de_delta = one\<rparr>]\<rparr>, t') (c(p := c p + k)) \<and> t' p \<noteq> None)"
proof (cases "de_phys e = p")
  case True
  have "counted (t p) (sint (de_delta e)) (c p)"
    using rc_invD(4) [OF inv p(1,2)] True by (simp add: local_delta_def e_def Let_def)
  then obtain fe where "t p = Some fe" "uint (fe_refcount fe) + sint (de_delta e) = c p" "uint (fe_refcount fe) < 2147483648" "0 \<le> c p"
    using p(3) by (auto simp: counted_def)
  then have b: "- 2147483648 < sint (de_delta e)" "k = 1 \<Longrightarrow> sint (de_delta e) < 2147483647"
    using c uint_ge_0 [of "fe_refcount fe"] by linarith+
  have "sint (step (de_delta e)) = local_delta cpu p + k"
    using k b i32_steps [of "de_delta e"] True by (auto simp: local_delta_def e_def Let_def)
  from rc_inv_set_delta [OF inv p _ this c] True
  have "rc_inv (cpu\<lparr>rc_cache := (rc_cache cpu)[cache_slot p := \<lparr>de_phys = p, de_delta = step (de_delta e)\<rparr>]\<rparr>, t) (c(p := c p + k))"
    by (simp add: e_def)
  moreover have "e\<lparr>de_delta := step (de_delta e)\<rparr> = \<lparr>de_phys = p, de_delta = step (de_delta e)\<rparr>"
    using True by (cases e) simp
  ultimately show ?thesis using True by (simp only: if_True simp_thms)
next
  case False
  have slot: "slot_ok (cache_slot p) e"
    using rc_invD(2) [OF inv, of "cache_slot p"] by (simp add: e_def)
  have one: "sint one = k" using k by auto
  show ?thesis
  proof (cases "de_phys e = 0")
    case True
    then have "de_delta e = 0" using slot by (simp add: slot_ok_def)
    moreover have "local_delta cpu p = 0" using False by (simp add: local_delta_def e_def Let_def)
    ultimately show ?thesis
      using rc_inv_set_delta [OF inv p _ _ c, of one] one False True p(3) by (simp add: e_def)
  next
    case nz: False
    obtain cpu' t' where fl: "(if de_delta e \<noteq> 0 then flush_entry e (cpu, t) else (cpu, t)) = (cpu', t')"
      by fastforce
    let ?cpu = "cpu'\<lparr>rc_cache := (rc_cache cpu')[cache_slot p := e\<lparr>de_delta := 0\<rparr>]\<rparr>"
    note st = rc_inv_settle [OF inv cache_slot_less, of p cpu' t', folded e_def, OF nz fl]
    then have cache: "rc_cache cpu' = rc_cache cpu" by (rule conjunct2)
    then have inv': "rc_inv (?cpu, t') c"
      using conjunct1 [OF st] by (simp add: e_def)
    have tp: "t' p \<noteq> None"
      using fl p(3) flush_entry_t_dom by (auto split: if_splits)
    have len: "cache_slot p < length (rc_cache cpu')"
      using rc_invD(1) [OF inv] cache by simp
    then have "local_delta ?cpu p = 0" "de_delta (rc_cache ?cpu ! cache_slot p) = 0"
      using False by (simp_all add: local_delta_def Let_def)
    then have "rc_inv (?cpu\<lparr>rc_cache := (rc_cache ?cpu)[cache_slot p := \<lparr>de_phys = p, de_delta = one\<rparr>]\<rparr>, t') (c(p := c p + k))"
      using rc_inv_set_delta [OF inv' p(1,2) tp _ _ c, of one] one by simp
    then show ?thesis using False nz fl tp by simp
  qed
qed

lemma rc_inv_inc:
  assumes "rc_inv (cpu, t) c" "frame_key p = p" "p \<noteq> 0" "t p \<noteq> None" "c p < 2147483647"
  shows "rc_inv (refcache_inc p (cpu, t)) (c(p := c p + 1)) \<and> snd (refcache_inc p (cpu, t)) p \<noteq> None"
proof -
  have "0 \<le> c p + 1" "c p + 1 < 2147483648"
    using rc_invD(4) [OF assms(1-3)] assms(5) by (auto simp: counted_def)
  from rc_inv_bump [OF assms(1-4) _ this, of i32_sat_inc 1] assms(2,4) show ?thesis
    by (auto simp: refcache_inc_def Let_def split: if_splits prod.splits)
qed

lemma rc_inv_dec:
  assumes "rc_inv (cpu, t) c" "frame_key p = p" "p \<noteq> 0" "t p \<noteq> None" "0 < c p"
  shows "rc_inv (refcache_dec p (cpu, t)) (c(p := c p - 1)) \<and> snd (refcache_dec p (cpu, t)) p \<noteq> None"
proof -
  have "0 \<le> c p + - 1" "c p + - 1 < 2147483648"
    using rc_invD(4) [OF assms(1-3)] assms(5) by (auto simp: counted_def)
  from rc_inv_bump [OF assms(1-4) _ this, of i32_sat_dec "- 1"] assms(2,4) show ?thesis
    by (auto simp: refcache_dec_def Let_def split: if_splits prod.splits)
qed

lemma flush_slot_inv:
  assumes inv: "rc_inv (cpu, t) c" and i: "i < REFCACHE_SIZE" and fl: "flush_slot i (cpu, t) = (cpu', t')"
  shows "rc_inv (cpu', t') c \<and> de_delta (rc_cache cpu' ! i) = 0 \<and> (\<forall>j. j \<noteq> i \<longrightarrow> rc_cache cpu' ! j = rc_cache cpu ! j)"
proof (cases "de_phys (rc_cache cpu ! i) = 0")
  case True
  then show ?thesis
    using fl inv rc_invD(2) [OF inv i] by (auto simp: flush_slot_def slot_ok_def)
next
  case False
  obtain cpu1 t1 where *: "(if de_delta (rc_cache cpu ! i) \<noteq> 0 then flush_entry (rc_cache cpu ! i) (cpu, t) else (cpu, t)) = (cpu1, t1)"
    by fastforce
  have "cpu' = cpu1\<lparr>rc_cache := (rc_cache cpu1)[i := (rc_cache cpu1 ! i)\<lparr>de_delta := 0\<rparr>]\<rparr>" "t' = t1"
    using fl False * by (auto simp: flush_slot_def Let_def)
  then show ?thesis
    using conjunct1 [OF rc_inv_settle [OF inv i False *]] conjunct2 [OF rc_inv_settle [OF inv i False *]] rc_invD(1) [OF inv] i
    by simp
qed

lemma refcache_flush_inv:
  assumes "rc_inv (cpu, t) c" "refcache_flush (cpu, t) = (cpu', t')"
  shows "rc_inv (cpu', t') c \<and> (\<forall>j < REFCACHE_SIZE. de_delta (rc_cache cpu' ! j) = 0)"
proof -
  have "\<lbrakk>n \<le> REFCACHE_SIZE; fold flush_slot [0..<n] (cpu, t) = (cpu', t')\<rbrakk> \<Longrightarrow>
    rc_inv (cpu', t') c \<and> (\<forall>j < n. de_delta (rc_cache cpu' ! j) = 0)" for n cpu' t'
  proof (induction n arbitrary: cpu' t')
    case (Suc n)
    obtain cpu1 t1 where *: "fold flush_slot [0..<n] (cpu, t) = (cpu1, t1)" by fastforce
    with Suc.prems have "flush_slot n (cpu1, t1) = (cpu', t')" by simp
    with Suc.IH [OF _ *] Suc.prems flush_slot_inv [of cpu1 t1 c n cpu' t'] show ?case
      by (auto simp: less_Suc_eq)
  qed (use assms in simp)
  from this [OF order_refl] show ?thesis
    using assms(2) by (simp add: refcache_flush_def)
qed

lemma remove_review_ok:
  assumes "review_ok cpu" "i < rc_review_count cpu"
  shows "review_ok (remove_review i cpu) \<and> rc_cache (remove_review i cpu) = rc_cache cpu"
proof -
  have "rc_review cpu ! (rc_review_count cpu - 1) \<in> set (rc_review cpu)"
    using assms by (auto simp: review_ok_def)
  then show ?thesis
    using assms by (auto simp: review_ok_def remove_review_def Let_def dest!: set_updateD)
qed

definition settled :: "refcache_cpu \<Rightarrow> bool" where
  "settled cpu \<longleftrightarrow> (\<forall>j < REFCACHE_SIZE. de_delta (rc_cache cpu ! j) = 0)"

lemma settled_delta: "settled cpu \<Longrightarrow> local_delta cpu p = 0"
  by (simp add: settled_def local_delta_def Let_def)

lemma rc_inv_try_remove:
  assumes inv: "rc_inv (cpu, t) c" and st: "settled cpu" and p: "frame_key p = p" "p \<noteq> 0"
    and rm: "ft_refcache_try_remove p t = (freed, t')"
  shows "rc_inv (cpu, t') c \<and> (freed \<longrightarrow> c p = 0 \<and> t' p = None) \<and> (\<forall>q. t q = None \<longrightarrow> t' q = None)"
proof (cases freed)
  case True
  then obtain e where "t p = Some e" "fe_refcount e = 0" "t' = t(p := None)"
    using rm p by (auto simp: ft_refcache_try_remove_def split: option.splits if_splits)
  moreover from this have "c p = 0"
    using rc_invD(4) [OF inv p] settled_delta [OF st] by (simp add: counted_def)
  ultimately show ?thesis
    using inv settled_delta [OF st] by (auto simp: rc_inv_def counted_def)
next
  case False
  then have "t' = t"
    using rm by (auto simp: ft_refcache_try_remove_def Let_def split: option.splits if_splits)
  with inv False show ?thesis by simp
qed

lemma rc_inv_review:
  "rc_inv (cpu, t) c \<Longrightarrow> review_ok cpu' \<Longrightarrow> rc_cache cpu' = rc_cache cpu \<Longrightarrow> rc_inv (cpu', t) c"
  by (auto simp: rc_inv_def local_delta_def)

lemma settled_cong: "rc_cache cpu' = rc_cache cpu \<Longrightarrow> settled cpu' = settled cpu"
  by (simp add: settled_def)

definition drained_ok :: "(u64 \<Rightarrow> int) \<Rightarrow> frame_table \<Rightarrow> u64 list \<Rightarrow> bool" where
  "drained_ok c t ps \<longleftrightarrow> (\<forall>p \<in> set ps. c p = 0 \<and> t p = None)"

lemma review_loop_inv:
  assumes "rc_inv (cpu, t) c" "settled cpu" "review_loop ge i cpu drain t = (cpu', drain', t')"
  shows "rc_inv (cpu', t') c \<and> settled cpu' \<and> (\<forall>q. t q = None \<longrightarrow> t' q = None) \<and> (\<exists>ps. drain' = drain @ ps \<and> drained_ok c t' ps)"
  using assms
proof (induction ge i cpu drain t rule: review_loop.induct)
  case (1 ge i cpu drain t)
  note inv = "1.prems"(1) and st = "1.prems"(2) and run = "1.prems"(3)
  note rok = rc_invD(3) [OF inv]
  show ?case
  proof (cases "i < rc_review_count cpu")
    case False
    with run inv st show ?thesis
      by (auto simp: review_loop.simps [of ge i] drained_ok_def)
  next
    case True
    show ?thesis
    proof (cases "rc_review cpu ! i")
      case None
      with "1.IH"(1) [OF True None inv st] run True show ?thesis
        by (simp add: review_loop.simps [of ge i])
    next
      case (Some r)
      then have "Some r \<in> set (rc_review cpu)"
        using True rok by (metis nth_mem order_less_le_trans review_ok_def)
      then have p: "frame_key (re_phys r) = re_phys r" "re_phys r \<noteq> 0"
        using rok by (auto simp: review_ok_def)
      obtain freed t1 where rm: "ft_refcache_try_remove (re_phys r) t = (freed, t1)" by fastforce
      note rem = rc_inv_try_remove [OF inv st p rm]
      note rr = remove_review_ok [OF rok True]
      have inv1: "rc_inv (remove_review i cpu, t1) c" "settled (remove_review i cpu)"
        using rem rr st rc_inv_review settled_cong by blast+
      consider (young) "ge - re_added_epoch r < 2" | (freed) "\<not> ge - re_added_epoch r < 2" freed
        | (dirty) "\<not> ge - re_added_epoch r < 2" "\<not> freed" "re_dirty r"
        | (stale) "\<not> ge - re_added_epoch r < 2" "\<not> freed" "\<not> re_dirty r" by blast
      then show ?thesis
      proof cases
        case young
        with "1.IH"(2) [OF True Some young inv st] run True Some show ?thesis
          by (simp add: review_loop.simps [of ge i])
      next
        case freed
        with run True Some rm have run': "review_loop ge i (remove_review i cpu) (drain @ [re_phys r]) t1 = (cpu', drain', t')"
          by (simp add: review_loop.simps [of ge i])
        from "1.IH"(3) [OF True Some freed(1) rm [symmetric] refl freed(2) inv1 run'] obtain ps where
          "rc_inv (cpu', t') c" "settled cpu'" "\<forall>q. t1 q = None \<longrightarrow> t' q = None" "drain' = (drain @ [re_phys r]) @ ps" "drained_ok c t' ps"
          by blast
        with rem freed show ?thesis
          by (auto simp: drained_ok_def)
      next
        case dirty
        let ?cpu = "cpu\<lparr>rc_review := (rc_review cpu)[i := Some \<lparr>re_phys = re_phys r, re_added_epoch = ge, re_dirty = False\<rparr>]\<rparr>"
        have "review_ok ?cpu"
          using rok p by (auto simp: review_ok_def dest!: set_updateD)
        then have "rc_inv (?cpu, t1) c" "settled ?cpu"
          using rem st rc_inv_review [of cpu t1 c ?cpu] settled_cong [of ?cpu cpu] by auto
        with dirty run True Some rm "1.IH"(4) [OF True Some dirty(1) rm [symmetric] refl dirty(2,3)] rem show ?thesis
          by (simp add: review_loop.simps [of ge i])
      next
        case stale
        with run True Some rm "1.IH"(5) [OF True Some stale(1) rm [symmetric] refl stale(2,3) inv1] rem show ?thesis
          by (simp add: review_loop.simps [of ge i])
      qed
    qed
  qed
qed

section \<open>Histories of one CPU\<close>

text \<open>
  What one CPU does, together with the number of references \<open>c\<close> that exist: taking a frame under
  refcache management, one more reference, one reference less, a timer tick, and the idle loop's
  drain.  Tracked frames are page aligned and not frame 0, whose address marks an empty slot.
\<close>

inductive rc_step :: "nat \<Rightarrow> refcache_state \<times> (u64 \<Rightarrow> int) \<Rightarrow> refcache_state \<times> (u64 \<Rightarrow> int) \<Rightarrow> bool" for cpu where
  track: "frame_key p = p \<Longrightarrow> p \<noteq> 0 \<Longrightarrow> rc_step cpu (s, c) (snd (srf_from_phys p s), c)"
| inc: "frame_key p = p \<Longrightarrow> p \<noteq> 0 \<Longrightarrow> fw_table (rs_world s) p \<noteq> None \<Longrightarrow> c p < 2147483647 \<Longrightarrow>
    rc_step cpu (s, c) (rs_inc cpu p s, c(p := c p + 1))"
| dec: "frame_key p = p \<Longrightarrow> p \<noteq> 0 \<Longrightarrow> fw_table (rs_world s) p \<noteq> None \<Longrightarrow> 0 < c p \<Longrightarrow>
    rc_step cpu (s, c) (rs_dec cpu p s, c(p := c p - 1))"
| tick: "rc_step cpu (s, c) (rs_tick cpu s, c)"
| drain: "rc_step cpu (s, c) (rs_drain_all s, c)"

inductive rc_reach :: "nat \<Rightarrow> refcache_state \<times> (u64 \<Rightarrow> int) \<Rightarrow> bool" for cpu where
  init: "rc_reach cpu (refcache_state_new, \<lambda>_. 0)"
| step: "rc_reach cpu x \<Longrightarrow> rc_step cpu x y \<Longrightarrow> rc_reach cpu y"

definition rs_inv :: "nat \<Rightarrow> refcache_state \<times> (u64 \<Rightarrow> int) \<Rightarrow> bool" where
  "rs_inv cpu = (\<lambda>(s, c). length (rs_cpus s) = MAX_CPU_SLOTS \<and>
     rc_inv (rs_cpus s ! current_cpu_slot cpu, fw_table (rs_world s)) c)"

lemma current_cpu_slot_less [simp]: "current_cpu_slot cpu < MAX_CPU_SLOTS"
  by (simp add: current_cpu_slot_def)

lemma on_cpu_inv:
  assumes "rs_inv cpu (s, c)" "rc_inv (f (rs_cpus s ! current_cpu_slot cpu, fw_table (rs_world s))) c'"
  shows "rs_inv cpu (on_cpu (current_cpu_slot cpu) f s, c')"
  using assms by (auto simp: rs_inv_def on_cpu_def Let_def split: prod.splits)

lemma fold_dealloc_table [simp]: "fw_table (fold frame_dealloc ps w) = fw_table w"
  by (induction ps arbitrary: w) simp_all

lemma rs_inv_init: "rs_inv cpu (refcache_state_new, \<lambda>_. 0)"
proof -
  have "rc_inv (refcache_cpu_new, ft_new) (\<lambda>_. 0)"
    by (auto simp: rc_inv_def refcache_cpu_new_def slot_ok_def review_ok_def counted_def ft_new_def local_delta_def Let_def)
  then show ?thesis
    by (simp add: rs_inv_def refcache_state_new_def)
qed

lemma rs_inv_track: "rs_inv cpu (s, c) \<Longrightarrow> frame_key p = p \<Longrightarrow> p \<noteq> 0 \<Longrightarrow> rs_inv cpu (rs_init_frame p s, c)"
  by (auto simp: rs_inv_def rs_init_frame_def ft_refcache_init_def rc_inv_def counted_def split: option.splits)

lemma rs_tick_inv:
  assumes inv: "rs_inv cpu (s, c)"
  shows "rs_inv cpu (rs_tick cpu s, c) \<and>
    (\<exists>ps. rs_drain (rs_tick cpu s) = rs_drain s @ ps \<and> drained_ok c (fw_table (rs_world (rs_tick cpu s))) ps)"
proof -
  let ?i = "current_cpu_slot cpu" and ?s1 = "on_cpu (current_cpu_slot cpu) refcache_flush s"
  have len: "length (rs_cpus s) = MAX_CPU_SLOTS" and rc: "rc_inv (rs_cpus s ! ?i, fw_table (rs_world s)) c"
    using inv by (auto simp: rs_inv_def)
  obtain c1 t1 where fl: "refcache_flush (rs_cpus s ! ?i, fw_table (rs_world s)) = (c1, t1)" by fastforce
  note f = refcache_flush_inv [OF rc fl]
  have s1: "rs_cpus ?s1 = (rs_cpus s)[?i := c1]" "fw_table (rs_world ?s1) = t1" "rs_drain ?s1 = rs_drain s" "rs_global_epoch ?s1 = rs_global_epoch s"
    using fl by (simp_all add: on_cpu_def)
  let ?c = "c1\<lparr>rc_epoch := rs_global_epoch s\<rparr>"
  have "rc_inv (?c, t1) c" "settled ?c"
    using f rc_inv_review [of c1 t1 c ?c] by (auto simp: settled_def rc_inv_def review_ok_def)
  moreover obtain c2 dr t2 where rl: "review_loop (rs_global_epoch s) 0 ?c (rs_drain s) t1 = (c2, dr, t2)"
    by (metis prod_cases3)
  ultimately have "rc_inv (c2, t2) c" "\<exists>ps. dr = rs_drain s @ ps \<and> drained_ok c t2 ps"
    using review_loop_inv by blast+
  moreover have "rs_tick cpu s = ?s1\<lparr>rs_cpus := (rs_cpus s)[?i := c2], rs_global_epoch := rs_global_epoch s + 1,
      rs_drain := dr, rs_world := (rs_world ?s1)\<lparr>fw_table := t2\<rparr>\<rparr>"
    using rl len by (simp add: rs_tick_def Let_def s1)
  ultimately show ?thesis
    using len by (simp add: rs_inv_def)
qed

lemma rc_step_inv: "rc_step cpu x y \<Longrightarrow> rs_inv cpu x \<Longrightarrow> rs_inv cpu y"
proof (induction rule: rc_step.induct)
  case (track p s c)
  then show ?case by (simp add: srf_from_phys_def rs_inv_track)
next
  case (inc p s c)
  then show ?case
    using rc_inv_inc [of "rs_cpus s ! current_cpu_slot cpu" "fw_table (rs_world s)" c p]
    unfolding rs_inc_def by (intro on_cpu_inv) (auto simp: rs_inv_def)
next
  case (dec p s c)
  then show ?case
    using rc_inv_dec [of "rs_cpus s ! current_cpu_slot cpu" "fw_table (rs_world s)" c p]
    unfolding rs_dec_def by (intro on_cpu_inv) (auto simp: rs_inv_def)
next
  case (tick s c)
  then show ?case using rs_tick_inv by blast
next
  case (drain s c)
  then show ?case by (simp add: rs_drain_all_def rs_inv_def)
qed

lemma rc_reach_inv: "rc_reach cpu x \<Longrightarrow> rs_inv cpu x"
  by (induction rule: rc_reach.induct) (auto simp: rs_inv_init intro: rc_step_inv)

section \<open>Symbolic runs\<close>

text \<open>
  The states that runs touching one frame go through: a CPU whose only occupied cache slot holds a
  delta for that frame, and the whole state with the records of CPUs 0 and 1 explicit.
\<close>

definition cpu_at :: "u64 \<Rightarrow> u32 \<Rightarrow> review_entry option list \<Rightarrow> nat \<Rightarrow> u64 \<Rightarrow> refcache_cpu" where
  "cpu_at p d rv n ep = \<lparr>rc_cache = (replicate REFCACHE_SIZE \<lparr>de_phys = 0, de_delta = 0\<rparr>)[cache_slot p := \<lparr>de_phys = p, de_delta = d\<rparr>],
     rc_review = rv, rc_review_count = n, rc_epoch = ep\<rparr>"

lemma fold_skip: "(\<And>j. j \<in> set js \<Longrightarrow> f j x = x) \<Longrightarrow> fold f js x = x"
  by (induction js) simp_all

lemma flush_single:
  assumes "s < REFCACHE_SIZE" "length (rc_cache cpu) = REFCACHE_SIZE"
    and "\<And>j. j < REFCACHE_SIZE \<Longrightarrow> j \<noteq> s \<Longrightarrow> de_phys (rc_cache cpu ! j) = 0"
  shows "refcache_flush (cpu, t) = flush_slot s (cpu, t)"
proof -
  obtain cpu' t' where fl: "flush_slot s (cpu, t) = (cpu', t')" by fastforce
  then have same: "rc_cache cpu' ! j = rc_cache cpu ! j" if "j \<noteq> s" for j
    using that by (auto simp: flush_slot_def flush_entry_def enqueue_review_def Let_def split: if_splits prod.splits)
  have idle: "flush_slot j (c, u) = (c, u)" if "de_phys (rc_cache c ! j) = 0" for j c u
    using that by (simp add: flush_slot_def)
  have "[0..<REFCACHE_SIZE] = [0..<s] @ s # [Suc s..<REFCACHE_SIZE]"
    using assms(1) by (metis upt_conv_Cons less_imp_le upt_add_eq_append le_add_diff_inverse zero_le)
  moreover have "fold flush_slot [0..<s] (cpu, t) = (cpu, t)"
    using assms by (intro fold_skip) (auto intro!: idle)
  moreover have "fold flush_slot [Suc s..<REFCACHE_SIZE] (cpu', t') = (cpu', t')"
    using assms same by (intro fold_skip) (auto intro!: idle)
  ultimately show ?thesis
    using fl by (simp add: refcache_flush_def)
qed

lemma flush_at:
  assumes "frame_key p = p" "p \<noteq> 0"
  shows "refcache_flush (cpu_at p d rv n ep, t) =
    (if d = 0 then (cpu_at p 0 rv n ep, t)
     else (case ft_refcache_global_add p d t of (g, t') \<Rightarrow>
       (if g = 0 then enqueue_review p ep (cpu_at p 0 rv n ep) else cpu_at p 0 rv n ep, t')))"
  using assms
  by (subst flush_single [of "cache_slot p"])
    (auto simp: cpu_at_def flush_slot_def flush_entry_def enqueue_review_def Let_def split: prod.split)

lemma inc_at:
  assumes "frame_key p = p" "p \<noteq> 0"
  shows "refcache_inc p (refcache_cpu_new, t) = (cpu_at p 1 (replicate REVIEW_QUEUE_SIZE None) 0 0, t)"
    "refcache_inc p (cpu_at p d rv n ep, t) = (cpu_at p (i32_sat_inc d) rv n ep, t)"
    "refcache_dec p (cpu_at p d rv n ep, t) = (cpu_at p (i32_sat_dec d) rv n ep, t)"
  using assms by (auto simp: refcache_inc_def refcache_dec_def refcache_cpu_new_def cpu_at_def Let_def)

lemma slots [simp]:
  "0 < MAX_CPU_SLOTS" "Suc 0 < MAX_CPU_SLOTS" "0 < REVIEW_QUEUE_SIZE" "current_cpu_slot 0 = 0" "current_cpu_slot (Suc 0) = Suc 0"
  by (simp_all add: current_cpu_slot_def)

lemma cpu_at_epoch [simp]: "(cpu_at p d rv n ep)\<lparr>rc_epoch := ep'\<rparr> = cpu_at p d rv n ep'"
  "(cpu_at p d rv n ep)\<lparr>rc_review := rv'\<rparr> = cpu_at p d rv' n ep"
  "rc_review_count (cpu_at p d rv n ep) = n" "rc_review (cpu_at p d rv n ep) = rv" "rc_epoch (cpu_at p d rv n ep) = ep"
  "de_phys (rc_cache (cpu_at p d rv n ep) ! cache_slot p) = p" "de_delta (rc_cache (cpu_at p d rv n ep) ! cache_slot p) = d"
  by (simp_all add: cpu_at_def)

lemma enqueue_at [simp]: "enqueue_review q ep (cpu_at p d (replicate REVIEW_QUEUE_SIZE None) 0 e) =
  cpu_at p d ((replicate REVIEW_QUEUE_SIZE None)[0 := Some \<lparr>re_phys = q, re_added_epoch = ep, re_dirty = False\<rparr>]) 1 e"
  by (simp add: enqueue_review_def cpu_at_def)

lemma remove_at [simp]: "remove_review 0 (cpu_at p d rv (Suc 0) e) = cpu_at p d rv 0 e"
  by (simp add: remove_review_def cpu_at_def)

lemma review_none [simp]: "review_loop ge i (cpu_at p d rv 0 e) dr t = (cpu_at p d rv 0 e, dr, t)"
  by (subst review_loop.simps) simp

lemma review_one [simp]: "review_loop ge 0 (cpu_at p d ((replicate REVIEW_QUEUE_SIZE None)[0 := Some r]) (Suc 0) e) dr t = 
   (if ge - re_added_epoch r < 2 then (cpu_at p d ((replicate REVIEW_QUEUE_SIZE None)[0 := Some r]) (Suc 0) e, dr, t)
    else (let (freed, t') = ft_refcache_try_remove (re_phys r) t
                   in if freed then (cpu_at p d ((replicate REVIEW_QUEUE_SIZE None)[0 := Some r]) 0 e, dr @ [re_phys r], t')
                      else if re_dirty r then
                        (cpu_at p d ((replicate REVIEW_QUEUE_SIZE None)[0 := Some \<lparr>re_phys = re_phys r, re_added_epoch = ge, re_dirty = False\<rparr>]) (Suc 0) e, dr, t')
                      else (cpu_at p d ((replicate REVIEW_QUEUE_SIZE None)[0 := Some r]) 0 e, dr, t')))"
  by (subst review_loop.simps) (auto simp: review_loop.simps [of ge "Suc 0"] Let_def split: prod.split)

lemma i32_vals [simp]: "i32_sat_dec 0 = - 1" "i32_sat_inc 1 = 2" "i32_sat_dec 1 = 0" "i32_sat_inc 0 = 1"
  by (simp_all add: i32_sat_dec_def i32_sat_inc_def)

lemma signed_vals [simp]:
  "\<not> 0 <s (- 1 :: u32)" "0 <s (1::u32)" "0 <s (2::u32)" "0 \<le>s (0::u32)" "0 \<le>s (1::u32)" "\<not> 0 \<le>s (- 1 :: u32)" "0 \<le>s (2::u32)"
  by (simp_all add: word_sless_alt word_sle_eq)

lemma sat_vals [simp]: "sat_add 0 (1::u32) = 1" "sat_sub 1 (1::u32) = 0"
  by (simp_all add: sat_add_def sat_sub_def)

definition rs_at :: "u64 \<Rightarrow> refcache_cpu \<Rightarrow> refcache_cpu \<Rightarrow> u64 \<Rightarrow> u64 list \<Rightarrow> frame_entry option \<Rightarrow> refcache_state" where
  "rs_at p c0 c1 ge dr oe = \<lparr>rs_cpus = c0 # c1 # replicate (MAX_CPU_SLOTS - 2) refcache_cpu_new, rs_global_epoch = ge, rs_drain = dr,
     rs_world = \<lparr>fw_table = ft_new(p := oe), fw_freed = []\<rparr>\<rparr>"

definition fe_at :: "u8 \<Rightarrow> u32 \<Rightarrow> frame_entry option" where
  "fe_at fl k = Some \<lparr>fe_flags = fl, fe_order = 0, fe_refcount = k\<rparr>"

lemma new_at: "refcache_state_new = rs_at p refcache_cpu_new refcache_cpu_new 0 [] None"
proof -
  have "MAX_CPU_SLOTS = Suc (Suc (MAX_CPU_SLOTS - 2))"
    by simp
  then have "replicate MAX_CPU_SLOTS refcache_cpu_new = refcache_cpu_new # refcache_cpu_new # replicate (MAX_CPU_SLOTS - 2) refcache_cpu_new"
    by (metis replicate_Suc)
  then show ?thesis
    by (simp add: refcache_state_new_def rs_at_def ft_new_def)
qed

lemmas run_simps = rs_inc_def rs_dec_def rs_tick_def on_cpu_def srf_from_phys_def rs_init_frame_def
  ft_refcache_init_def Let_def flush_at inc_at ft_refcache_global_add_def ft_refcache_try_remove_def rs_refcount_def
  ft_refcount_def rs_at_def fe_at_def

section \<open>Properties\<close>

lemma rs_inv_tracked:
  assumes "rs_inv cpu (s, c)" "frame_key p = p" "p \<noteq> 0" "c p \<noteq> 0"
  shows "fw_table (rs_world s) p \<noteq> None"
proof -
  have "counted (fw_table (rs_world s) p) (local_delta (rs_cpus s ! current_cpu_slot cpu) p) (c p)"
    using assms rc_invD(4) by (auto simp: rs_inv_def)
  with assms(4) show ?thesis
    by (auto simp: counted_def split: option.splits)
qed

lemma rs_refcount_exact:
  assumes "rs_inv cpu (s, c)" "frame_key p = p" "p \<noteq> 0"
  shows "uint (rs_refcount cpu p s) = c p"
proof -
  let ?cpu = "rs_cpus s ! current_cpu_slot cpu" and ?t = "fw_table (rs_world s)"
  let ?e = "rc_cache ?cpu ! cache_slot p"
  let ?d = "if de_phys ?e = p then de_delta ?e else 0"
  have "counted (?t p) (local_delta ?cpu p) (c p)" "local_delta ?cpu p = sint ?d"
    using assms rc_invD(4) by (auto simp: rs_inv_def local_delta_def Let_def)
  then have c: "uint (ft_refcount p ?t) + sint ?d = c p" "0 \<le> c p" "c p < 2147483648"
    using assms(2) by (auto simp: counted_def ft_refcount_def split: option.splits)
  have rc: "rs_refcount cpu p s = (if 0 \<le>s ?d then ft_refcount p ?t + ?d else sat_sub (ft_refcount p ?t) (- ?d))"
    using assms(2) by (simp add: rs_refcount_def Let_def)
  show ?thesis
  proof (cases "0 \<le>s ?d")
    case True
    then have "uint ?d = sint ?d"
      using uint_sint32 [of ?d] sint32_bounds [of ?d] by (simp add: word_sle_eq)
    moreover have "uint (ft_refcount p ?t + ?d) = (uint (ft_refcount p ?t) + uint ?d) mod 2 ^ 32"
      by (simp add: uint_word_ariths)
    ultimately show ?thesis
      using c True rc by simp
  next
    case False
    then have "uint (- ?d) = - sint ?d"
      by (intro uint_of_neg32) (simp add: word_sle_eq word_sless_alt)
    with c False rc show ?thesis
      by (simp add: uint_sat_sub)
  qed
qed



text \<open>
  Across CPUs the review is unsafe: a reference taken on CPU 1 sits in its cache while CPU 0
  drops the other reference and ticks twice; every tick advances the global epoch, so the
  review period elapses without CPU 1 having flushed, and the frame is drained with a live
  reference.
\<close>

lemma refcache_two_cpus_free_early:
  assumes "frame_key p = p" and "p \<noteq> 0"
  shows "let s1 = rs_inc 1 p (rs_tick 0 (rs_inc 0 p (snd (srf_from_phys p refcache_state_new))));
       s2 = rs_tick 0 (rs_tick 0 (rs_dec 0 p s1))
   in rs_refcount 1 p s1 = 2 \<and> rs_refcount 1 p s2 = 1 \<and> rs_drain s2 = [p]"
proof -
  define N :: "review_entry option list" where "N = replicate REVIEW_QUEUE_SIZE None"
  define R where "R = N[0 := Some \<lparr>re_phys = p, re_added_epoch = 0, re_dirty = False\<rparr>]"
  note run = run_simps assms N_def R_def
  have "snd (srf_from_phys p refcache_state_new) = rs_at p refcache_cpu_new refcache_cpu_new 0 [] (fe_at FF_REFCACHE 0)"
    by (simp add: run new_at [of p])
  moreover have "rs_inc 0 p (rs_at p refcache_cpu_new refcache_cpu_new 0 [] (fe_at FF_REFCACHE 0)) =
      rs_at p (cpu_at p 1 N 0 0) refcache_cpu_new 0 [] (fe_at FF_REFCACHE 0)"
    by (simp add: run)
  moreover have "rs_tick 0 (rs_at p (cpu_at p 1 N 0 0) refcache_cpu_new 0 [] (fe_at FF_REFCACHE 0)) =
      rs_at p (cpu_at p 0 N 0 0) refcache_cpu_new 1 [] (fe_at FF_REFCACHE 1)"
    by (simp add: run)
  moreover have "rs_inc 1 p (rs_at p (cpu_at p 0 N 0 0) refcache_cpu_new 1 [] (fe_at FF_REFCACHE 1)) =
      rs_at p (cpu_at p 0 N 0 0) (cpu_at p 1 N 0 0) 1 [] (fe_at FF_REFCACHE 1)"
    by (simp add: run)
  moreover have "rs_dec 0 p (rs_at p (cpu_at p 0 N 0 0) (cpu_at p 1 N 0 0) 1 [] (fe_at FF_REFCACHE 1)) =
      rs_at p (cpu_at p (- 1) N 0 0) (cpu_at p 1 N 0 0) 1 [] (fe_at FF_REFCACHE 1)"
    by (simp add: run)
  moreover have "rs_tick 0 (rs_at p (cpu_at p (- 1) N 0 0) (cpu_at p 1 N 0 0) 1 [] (fe_at FF_REFCACHE 1)) =
      rs_at p (cpu_at p 0 R 1 1) (cpu_at p 1 N 0 0) 2 [] (fe_at FF_REFCACHE 0)"
    by (simp add: run)
  moreover have "rs_tick 0 (rs_at p (cpu_at p 0 R 1 1) (cpu_at p 1 N 0 0) 2 [] (fe_at FF_REFCACHE 0)) =
      rs_at p (cpu_at p 0 R 0 2) (cpu_at p 1 N 0 0) 3 [p] None"
    by (simp add: run)
  moreover have "rs_refcount 1 p (rs_at p (cpu_at p 0 N 0 0) (cpu_at p 1 N 0 0) 1 [] (fe_at FF_REFCACHE 1)) = 2"
    "rs_refcount 1 p (rs_at p (cpu_at p 0 R 0 2) (cpu_at p 1 N 0 0) 3 [p] None) = 1"
    by (simp_all add: run)
  ultimately show ?thesis by (simp add: rs_at_def)
qed

text \<open>
  A copy-on-write frame loses references: \<open>into_shared_refcache\<close> leaves the entry UNIQUE, and the
  first flush of a UNIQUE entry stores one whatever the delta was, so that of two references one is
  forgotten and the frame is drained while the other is alive.
\<close>

lemma refcache_cow_clone_lost:
  assumes "frame_key p = p" and "p \<noteq> 0"
  shows "let s0 = refcache_state_new\<lparr>rs_world := snd (uf_from_phys p (rs_world refcache_state_new))\<rparr>;
       s1 = snd (srf_clone 0 p (snd (uf_into_shared_refcache 0 p s0)));
       s2 = rs_tick 0 (rs_tick 0 (srf_drop 0 p (rs_tick 0 s1)))
   in ft_flags p (fw_table (rs_world s1)) = FF_UNIQUE \<and> rs_refcount 0 p s1 = 2 \<and> rs_refcount 0 p (rs_tick 0 s1) = 1 \<and> rs_drain s2 = [p]"
proof -
  define N :: "review_entry option list" where "N = replicate REVIEW_QUEUE_SIZE None"
  define R where "R = N[0 := Some \<lparr>re_phys = p, re_added_epoch = 0, re_dirty = False\<rparr>]"
  define c1 where "c1 = refcache_cpu_new"
  note run = run_simps assms N_def R_def
  have "refcache_state_new\<lparr>rs_world := snd (uf_from_phys p (rs_world refcache_state_new))\<rparr> = rs_at p refcache_cpu_new c1 0 [] (fe_at FF_UNIQUE 0)"
    by (simp add: run new_at [of p] c1_def uf_from_phys_def ft_init_unique_def fe_new_unique_def)
  moreover have "snd (uf_into_shared_refcache 0 p (rs_at p refcache_cpu_new c1 0 [] (fe_at FF_UNIQUE 0))) =
      rs_at p (cpu_at p 1 N 0 0) c1 0 [] (fe_at FF_UNIQUE 0)"
    by (simp add: run uf_into_shared_refcache_def)
  moreover have "snd (srf_clone 0 p (rs_at p (cpu_at p 1 N 0 0) c1 0 [] (fe_at FF_UNIQUE 0))) =
      rs_at p (cpu_at p 2 N 0 0) c1 0 [] (fe_at FF_UNIQUE 0)"
    by (simp add: run srf_clone_def)
  moreover have "rs_tick 0 (rs_at p (cpu_at p 2 N 0 0) c1 0 [] (fe_at FF_UNIQUE 0)) = rs_at p (cpu_at p 0 N 0 0) c1 1 [] (fe_at FF_REFCACHE 1)"
    by (simp add: run)
  moreover have "srf_drop 0 p (rs_at p (cpu_at p 0 N 0 0) c1 1 [] (fe_at FF_REFCACHE 1)) =
      rs_at p (cpu_at p (- 1) N 0 0) c1 1 [] (fe_at FF_REFCACHE 1)"
    by (simp add: run srf_drop_def)
  moreover have "rs_tick 0 (rs_at p (cpu_at p (- 1) N 0 0) c1 1 [] (fe_at FF_REFCACHE 1)) = rs_at p (cpu_at p 0 R 1 1) c1 2 [] (fe_at FF_REFCACHE 0)"
    by (simp add: run)
  moreover have "rs_tick 0 (rs_at p (cpu_at p 0 R 1 1) c1 2 [] (fe_at FF_REFCACHE 0)) = rs_at p (cpu_at p 0 R 0 2) c1 3 [p] None"
    by (simp add: run)
  moreover have "rs_refcount 0 p (rs_at p (cpu_at p 2 N 0 0) c1 0 [] (fe_at FF_UNIQUE 0)) = 2"
    "rs_refcount 0 p (rs_at p (cpu_at p 0 N 0 0) c1 1 [] (fe_at FF_REFCACHE 1)) = 1"
    by (simp_all add: run)
  ultimately show ?thesis using assms by (simp add: rs_at_def ft_flags_def fe_at_def)
qed

text \<open>
  Fork does not count refcache frames: \<open>incref\<close> on a REFCACHE entry leaves the table unchanged, so
  that after a fork the first of the two page-table references to be released makes the count zero.
\<close>

lemma incref_ignores_refcache:
  assumes "fw_table w (frame_key p) = Some e" and "fe_flags e = FF_REFCACHE"
  shows "saf_incref p w = w"
  using assms by (simp add: saf_incref_def ft_share_def)

end
