(* ===== verification/Fib_Buddy.thy ===== *)
theory Fib_Buddy
  imports EchOS_Prelude "HOL-Library.Multiset"
begin

text \<open>
  The Fibonacci buddy allocator of \<open>src/src/memory/fibonacci_buddy.rs\<close>, which manages the pages of
  one physical region in 32 free lists of Fibonacci block sizes.  Physical addresses have at most 52
  bits (the address type of the paging crate rejects others), so their sums do not wrap and are kept
  as \<open>nat\<close>; the \<open>usize\<close> and \<open>u64\<close> operations that can wrap are written with \<open>mod 2 ^ 64\<close>.  A fixed
  block list is the list of its first \<open>len\<close> items.
\<close>

section \<open>Block lists\<close>

abbreviation PAGE_SIZE :: nat where "PAGE_SIZE \<equiv> 4096"

lemma PAGE_SIZE_pos [simp]: "0 < PAGE_SIZE"
  by simp

definition FIBONACCI_SERIES :: "nat list" where
  "FIBONACCI_SERIES =
     [1, 2, 3, 5, 8, 13, 21, 34, 55, 89, 144, 233, 377, 610, 987, 1597, 2584, 4181, 6765, 10946,
      17711, 28657, 46368, 75025, 121393, 196418, 317811, 514229, 832040, 1346269, 2178309, 3524578]"

abbreviation FIB :: "nat \<Rightarrow> nat" where
  "FIB i \<equiv> FIBONACCI_SERIES ! i"

abbreviation MAX_BLOCKS_PER_LIST :: nat where "MAX_BLOCKS_PER_LIST \<equiv> 64"

type_synonym block_list = "nat list"

definition bl_push :: "nat \<Rightarrow> block_list \<Rightarrow> bool \<times> block_list" where
  "bl_push addr bl = (if MAX_BLOCKS_PER_LIST \<le> length bl then (False, bl) else (True, bl @ [addr]))"

definition bl_swap_remove :: "nat \<Rightarrow> block_list \<Rightarrow> nat \<times> block_list" where
  "bl_swap_remove index bl = (bl ! index, butlast (bl[index := last bl]))"

definition bl_retain_not_equal :: "nat \<Rightarrow> block_list \<Rightarrow> block_list" where
  "bl_retain_not_equal addr bl = filter (\<lambda>x. x \<noteq> addr) bl"

section \<open>The allocator\<close>

record fib_buddy =
  fb_lists :: "block_list list"
  fb_total_pages :: nat
  fb_used_pages :: nat
  fb_base :: nat

definition find_fib_index :: "nat \<Rightarrow> nat" where
  "find_fib_index pages =
     (case position (\<lambda>fib. pages \<le> fib) FIBONACCI_SERIES of Some i \<Rightarrow> i | None \<Rightarrow> length FIBONACCI_SERIES - 1)"

fun fib_floor_loop :: "nat \<Rightarrow> nat list \<Rightarrow> nat \<Rightarrow> nat \<Rightarrow> nat" where
  "fib_floor_loop pages [] i idx = idx"
| "fib_floor_loop pages (fib # fibs) i idx = (if pages < fib then idx else fib_floor_loop pages fibs (i + 1) i)"

definition find_fib_index_floor :: "nat \<Rightarrow> nat" where
  "find_fib_index_floor pages = fib_floor_loop pages FIBONACCI_SERIES 0 0"

definition push_at :: "nat \<Rightarrow> nat \<Rightarrow> block_list list \<Rightarrow> block_list list" where
  "push_at idx addr ls = ls[idx := snd (bl_push addr (ls ! idx))]"

lemma fib_length [simp]: "length FIBONACCI_SERIES = 32"
  by (simp add: FIBONACCI_SERIES_def)

lemma fib_sorted: "sorted_wrt (<) FIBONACCI_SERIES"
  by (simp add: FIBONACCI_SERIES_def)

lemma fib_mono: "i < j \<Longrightarrow> j < 32 \<Longrightarrow> FIB i < FIB j"
  using fib_sorted by (simp add: sorted_wrt_iff_nth_less)

lemma fib_0 [simp]: "FIB 0 = 1"
  by (simp add: FIBONACCI_SERIES_def)

lemma fib_1 [simp]: "FIB (Suc 0) = 2"
  by (simp add: FIBONACCI_SERIES_def)

lemma fib_31: "FIB 31 = 3524578"
  by (simp add: FIBONACCI_SERIES_def)

lemma fib_pos: "i < 32 \<Longrightarrow> 0 < FIB i"
  using fib_mono [of 0 i] by (cases "i = 0") auto

fun fib_rec :: "nat list \<Rightarrow> bool" where
  "fib_rec (a # b # c # xs) \<longleftrightarrow> c = b + a \<and> fib_rec (b # c # xs)"
| "fib_rec _ \<longleftrightarrow> True"

lemma fib_rec_nth: "fib_rec xs \<Longrightarrow> i + 2 < length xs \<Longrightarrow> xs ! (i + 2) = xs ! (i + 1) + xs ! i"
proof (induction xs arbitrary: i rule: fib_rec.induct)
  case (1 a b c xs)
  then show ?case by (cases i) auto
qed auto

lemma fib_step:
  assumes "i + 2 < 32"
  shows "FIB (i + 2) = FIB (i + 1) + FIB i"
proof (rule fib_rec_nth)
  show "fib_rec FIBONACCI_SERIES" by (simp add: FIBONACCI_SERIES_def)
qed (use assms in simp)

lemma fib_floor_loop_takeWhile:
  "fib_floor_loop pages fibs i idx =
     (let n = length (takeWhile (\<lambda>fib. fib \<le> pages) fibs) in if n = 0 then idx else i + n - 1)"
  by (induction fibs arbitrary: i idx) (auto simp: Let_def)

lemma find_fib_index_floor_spec:
  assumes "0 < pages"
  shows "find_fib_index_floor pages < 32" "FIB (find_fib_index_floor pages) \<le> pages"
    "find_fib_index_floor pages < 31 \<Longrightarrow> pages < FIB (Suc (find_fib_index_floor pages))"
proof -
  let ?tw = "takeWhile (\<lambda>fib. fib \<le> pages) FIBONACCI_SERIES" and ?r = "find_fib_index_floor pages"
  have len: "length ?tw \<le> 32"
    using length_takeWhile_le [of "\<lambda>fib. fib \<le> pages" FIBONACCI_SERIES] by simp
  have "?tw \<noteq> []" using assms by (simp add: FIBONACCI_SERIES_def)
  then have r: "Suc ?r = length ?tw"
    by (simp add: find_fib_index_floor_def fib_floor_loop_takeWhile Let_def)
  then show "?r < 32" using len by simp
  have "?r < length ?tw" using r by simp
  then show "FIB ?r \<le> pages"
    using set_takeWhileD [OF nth_mem [OF \<open>?r < length ?tw\<close>]] by (simp add: takeWhile_nth)
  show "pages < FIB (Suc ?r)" if "?r < 31"
    using nth_length_takeWhile [of "\<lambda>fib. fib \<le> pages" FIBONACCI_SERIES] r that by simp
qed

function fb_new_loop :: "nat \<Rightarrow> nat \<Rightarrow> block_list list \<Rightarrow> block_list list" where
  "fb_new_loop remaining current ls =
     (if 0 < remaining then
        (let idx = find_fib_index_floor remaining
         in fb_new_loop (remaining - FIB idx) (current + FIB idx * PAGE_SIZE) (push_at idx current ls))
      else ls)"
  by pat_completeness auto
termination
proof (relation "measure (\<lambda>(remaining, _, _). remaining)", simp)
  fix remaining current :: nat and ls :: "block_list list" and idx :: nat
  assume "0 < remaining" "idx = find_fib_index_floor remaining"
  then show "((remaining - FIB idx, current + FIB idx * PAGE_SIZE, push_at idx current ls), remaining, current, ls)
      \<in> measure (\<lambda>(remaining, _, _). remaining)"
    using find_fib_index_floor_spec [of remaining] fib_pos [of idx] by auto
qed

declare fb_new_loop.simps [simp del]

definition fb_new :: "nat \<Rightarrow> nat \<Rightarrow> fib_buddy" where
  "fb_new base sz =
     (let total_pages = sz div PAGE_SIZE
      in \<lparr>fb_lists = fb_new_loop total_pages base (replicate 32 []), fb_total_pages = total_pages, fb_used_pages = 0, fb_base = base\<rparr>)"

text \<open>\<open>min_by_key\<close> returns the first of the smallest elements; here with its position.\<close>

fun lowest_pos :: "nat \<Rightarrow> nat list \<Rightarrow> (nat \<times> nat) option" where
  "lowest_pos i [] = None"
| "lowest_pos i (x # xs) =
     (case lowest_pos (i + 1) xs of None \<Rightarrow> Some (i, x) | Some (j, y) \<Rightarrow> if y < x then Some (j, y) else Some (i, x))"

definition take_lowest_block :: "nat \<Rightarrow> block_list list \<Rightarrow> nat option \<times> block_list list" where
  "take_lowest_block idx ls =
     (case lowest_pos 0 (ls ! idx) of
        None \<Rightarrow> (None, ls)
      | Some (pos, _) \<Rightarrow> (let (v, bl) = bl_swap_remove pos (ls ! idx) in (Some v, ls[idx := bl])))"

text \<open>The two nested loops over list indices and positions that keep the best candidate so far.\<close>

type_synonym candidate = "(nat \<times> nat \<times> nat) option"

definition better :: "nat \<Rightarrow> nat \<Rightarrow> candidate \<Rightarrow> bool" where
  "better idx addr best =
     (case best of None \<Rightarrow> True | Some (best_idx, _, best_addr) \<Rightarrow> addr < best_addr \<or> addr = best_addr \<and> idx < best_idx)"

fun scan_list :: "nat \<Rightarrow> nat \<Rightarrow> block_list \<Rightarrow> candidate \<Rightarrow> candidate" where
  "scan_list idx pos [] best = best"
| "scan_list idx pos (addr # bl) best =
     scan_list idx (pos + 1) bl (if better idx addr best then Some (idx, pos, addr) else best)"

definition scan_lists :: "nat \<Rightarrow> block_list list \<Rightarrow> candidate" where
  "scan_lists target_idx ls = fold (\<lambda>idx. scan_list idx 0 (ls ! idx)) [target_idx + 1..<length FIBONACCI_SERIES] None"

definition take_lowest_suitable_block :: "nat \<Rightarrow> block_list list \<Rightarrow> (nat \<times> nat) option \<times> block_list list" where
  "take_lowest_suitable_block target_idx ls =
     (case scan_lists target_idx ls of
        None \<Rightarrow> (None, ls)
      | Some (idx, pos, _) \<Rightarrow> (let (v, bl) = bl_swap_remove pos (ls ! idx) in (Some (idx, v), ls[idx := bl])))"

fun split_block :: "nat \<Rightarrow> nat \<Rightarrow> nat \<Rightarrow> block_list list \<Rightarrow> nat \<times> block_list list" where
  "split_block current idx to_idx ls =
     (if to_idx < idx then
        (if idx = 1 \<and> to_idx = 0 then (current, push_at 0 (current + PAGE_SIZE) ls)
         else split_block current (idx - 1) to_idx (push_at (idx - 2) (current + FIB (idx - 1) * PAGE_SIZE) ls))
      else (current, ls))"

declare split_block.simps [simp del]

abbreviation size_pages :: "nat \<Rightarrow> nat" where
  "size_pages sz \<equiv> ((sz + PAGE_SIZE - 1) mod 2 ^ 64) div PAGE_SIZE"

definition fb_allocate :: "nat \<Rightarrow> fib_buddy \<Rightarrow> nat option \<times> fib_buddy" where
  "fb_allocate sz b =
     (if sz = 0 then (None, b)
      else (let target_idx = find_fib_index (size_pages sz)
            in case take_lowest_block target_idx (fb_lists b) of
                 (Some block, ls) \<Rightarrow> (Some block, b\<lparr>fb_lists := ls, fb_used_pages := fb_used_pages b + FIB target_idx\<rparr>)
               | (None, _) \<Rightarrow>
                   (case take_lowest_suitable_block target_idx (fb_lists b) of
                      (None, _) \<Rightarrow> (None, b)
                    | (Some (larger_idx, large_block), ls) \<Rightarrow>
                        (let (left_block, ls') = split_block large_block larger_idx target_idx ls
                         in (Some left_block, b\<lparr>fb_lists := ls', fb_used_pages := fb_used_pages b + FIB target_idx\<rparr>)))))"

definition find_buddy :: "nat \<Rightarrow> nat \<Rightarrow> nat \<Rightarrow> nat" where
  "find_buddy base addr idx =
     (let offset_pages = ((addr + 2 ^ 64 - base) mod 2 ^ 64) div PAGE_SIZE;
          buddy_offset_pages = offset_pages XOR FIB idx
      in (base + buddy_offset_pages * PAGE_SIZE) mod 2 ^ 64)"

definition find_block_in_freelist :: "nat \<Rightarrow> block_list list \<Rightarrow> nat option" where
  "find_block_in_freelist addr ls = position (\<lambda>bl. addr \<in> set bl) ls"

text \<open>The recursion goes up one list at a time and stops at list 31.\<close>

function try_coalesce :: "nat \<Rightarrow> nat \<Rightarrow> nat \<Rightarrow> block_list list \<Rightarrow> block_list list" where
  "try_coalesce base addr idx ls =
     (if length FIBONACCI_SERIES - 1 \<le> idx then ls
      else (let buddy_addr = find_buddy base addr idx
            in case find_block_in_freelist buddy_addr ls of
                 None \<Rightarrow> ls
               | Some buddy_idx \<Rightarrow>
                   if buddy_idx = idx then
                     (let ls1 = ls[idx := bl_retain_not_equal buddy_addr (ls ! idx)];
                          coalesced_addr = (if addr < buddy_addr then addr else buddy_addr);
                          ls2 = push_at (idx + 1) coalesced_addr ls1
                      in try_coalesce base coalesced_addr (idx + 1) ls2)
                   else ls))"
  by pat_completeness auto
termination
  by (relation "measure (\<lambda>(_, _, idx, _). 31 - idx)") auto

declare try_coalesce.simps [simp del]

definition fb_deallocate :: "nat \<Rightarrow> nat \<Rightarrow> fib_buddy \<Rightarrow> fib_buddy" where
  "fb_deallocate addr sz b =
     (if sz = 0 then b
      else (let target_idx = find_fib_index (size_pages sz);
                ls = push_at target_idx addr (fb_lists b)
            in b\<lparr>fb_used_pages := fb_used_pages b - FIB target_idx,
                 fb_lists := try_coalesce (fb_base b) addr target_idx ls\<rparr>))"

section \<open>The pages of the free lists\<close>

text \<open>
  The multiset of free pages: a page listed in two free blocks is counted twice, so that
  conservation and disjointness of blocks are equations and inclusions of multisets.
\<close>

definition block_pages :: "nat \<Rightarrow> nat \<Rightarrow> nat multiset" where
  "block_pages addr n = mset (map (\<lambda>k. addr + k * PAGE_SIZE) [0..<n])"

definition list_pages :: "nat \<Rightarrow> block_list \<Rightarrow> nat multiset" where
  "list_pages n bl = (\<Sum>addr \<in># mset bl. block_pages addr n)"

definition free_pages :: "block_list list \<Rightarrow> nat multiset" where
  "free_pages ls = (\<Sum>i < 32. list_pages (FIB i) (ls ! i))"

lemma size_block_pages: "size (block_pages addr n) = n"
  by (simp add: block_pages_def)

lemma block_pages_0 [simp]: "block_pages addr 0 = {#}"
  by (simp add: block_pages_def)

lemma block_pages_add: "block_pages addr (m + n) = block_pages addr m + block_pages (addr + m * PAGE_SIZE) n"
proof -
  have "[0..<m + n] = [0..<m] @ map (\<lambda>k. k + m) [0..<n]"
    by (metis add.commute add_0 map_add_upt upt_add_eq_append zero_le)
  then show ?thesis
    by (simp add: block_pages_def algebra_simps comp_def)
qed

lemma list_pages_simps [simp]:
  "list_pages n [] = {#}" "list_pages n (x # bl) = block_pages x n + list_pages n bl"
  "list_pages n (bl @ bl') = list_pages n bl + list_pages n bl'"
  by (simp_all add: list_pages_def)

lemma free_pages_update:
  assumes "i < 32" "length ls = 32"
  shows "free_pages (ls[i := bl]) + list_pages (FIB i) (ls ! i) = free_pages ls + list_pages (FIB i) bl"
proof -
  have "free_pages xs = list_pages (FIB i) (xs ! i) + (\<Sum>j \<in> {..<32} - {i}. list_pages (FIB j) (xs ! j))" for xs
    using assms(1) unfolding free_pages_def by (simp add: sum.remove)
  moreover have "(\<Sum>j \<in> {..<32} - {i}. list_pages (FIB j) (ls[i := bl] ! j)) = (\<Sum>j \<in> {..<32} - {i}. list_pages (FIB j) (ls ! j))"
    by (intro sum.cong) auto
  ultimately show ?thesis
    using assms by simp
qed

lemma push_at_length [simp]: "length (push_at i a ls) = length ls"
  by (simp add: push_at_def)

lemma push_at_pages:
  assumes "i < 32" "length ls = 32"
  shows "free_pages (push_at i a ls) \<subseteq># free_pages ls + block_pages a (FIB i)"
    and "length (ls ! i) < MAX_BLOCKS_PER_LIST \<Longrightarrow> free_pages (push_at i a ls) = free_pages ls + block_pages a (FIB i)"
proof -
  have eq: "free_pages (push_at i a ls) = free_pages ls + block_pages a (FIB i)" if "length (ls ! i) < MAX_BLOCKS_PER_LIST"
    using free_pages_update [OF assms, of "ls ! i @ [a]"] that by (simp add: push_at_def bl_push_def algebra_simps)
  then show "length (ls ! i) < MAX_BLOCKS_PER_LIST \<Longrightarrow> free_pages (push_at i a ls) = free_pages ls + block_pages a (FIB i)" .
  show "free_pages (push_at i a ls) \<subseteq># free_pages ls + block_pages a (FIB i)"
  proof (cases "length (ls ! i) < MAX_BLOCKS_PER_LIST")
    case False
    then have "push_at i a ls = ls" by (simp add: push_at_def bl_push_def)
    then show ?thesis by simp
  qed (simp add: eq)
qed

text \<open>Greedy decomposition: list 31 takes the bulk, every smaller list at most one block.\<close>

lemma fb_new_loop_pages:
  assumes "length ls = 32" "\<And>j. j < 31 \<Longrightarrow> FIB j \<le> remaining \<Longrightarrow> ls ! j = []"
    and "length (ls ! 31) + remaining div FIB 31 \<le> MAX_BLOCKS_PER_LIST"
  shows "free_pages (fb_new_loop remaining current ls) = free_pages ls + block_pages current remaining"
  using assms
proof (induction remaining current ls rule: fb_new_loop.induct)
  case (1 remaining current ls)
  show ?case
  proof (cases "0 < remaining")
    case False
    then show ?thesis by (simp add: fb_new_loop.simps)
  next
    case True
    let ?i = "find_fib_index_floor remaining"
    note floor = find_fib_index_floor_spec [OF True]
    have room: "length (ls ! ?i) < MAX_BLOCKS_PER_LIST"
    proof (cases "?i < 31")
      case True
      then show ?thesis using "1.prems"(2) floor(2) by simp
    next
      case False
      then have "?i = 31" using floor(1) by simp
      moreover from this have "0 < remaining div FIB 31"
        using floor(2) fib_pos [of 31] by (simp add: div_greater_zero_iff)
      ultimately show ?thesis using "1.prems"(3) by simp
    qed
    have rest: "free_pages (fb_new_loop (remaining - FIB ?i) (current + FIB ?i * PAGE_SIZE) (push_at ?i current ls)) =
        free_pages (push_at ?i current ls) + block_pages (current + FIB ?i * PAGE_SIZE) (remaining - FIB ?i)"
    proof (intro "1.IH" [OF True refl])
      show "length (push_at ?i current ls) = 32" using "1.prems"(1) by simp
    next
      fix j
      assume j: "j < 31" "FIB j \<le> remaining - FIB ?i"
      have "j \<noteq> ?i"
      proof (cases "?i < 31")
        case True
        have "remaining < FIB (Suc ?i)" using floor(3) True by simp
        moreover have "FIB (Suc ?i) \<le> FIB ?i + FIB ?i"
        proof (cases "?i = 0")
          case False
          then show ?thesis
            using fib_step [of "?i - 1"] fib_mono [of "?i - 1" ?i] floor(1) True by (simp add: numeral_2_eq_2)
        qed simp
        ultimately show ?thesis using j by auto
      qed (use j in auto)
      moreover have "FIB j \<le> remaining" using j by simp
      ultimately show "push_at ?i current ls ! j = []"
        using "1.prems"(2) [OF j(1)] by (simp add: push_at_def)
    next
      show "length (push_at ?i current ls ! 31) + (remaining - FIB ?i) div FIB 31 \<le> MAX_BLOCKS_PER_LIST"
      proof (cases "?i = 31")
        case True
        then have "remaining div FIB 31 = Suc ((remaining - FIB 31) div FIB 31)"
          using floor(2) fib_pos [of 31] by (simp add: le_div_geq)
        with True "1.prems"(1,3) show ?thesis
          by (simp add: push_at_def bl_push_def)
      next
        case False
        have "(remaining - FIB ?i) div FIB 31 \<le> remaining div FIB 31"
          by (simp add: div_le_mono)
        with False "1.prems"(3) show ?thesis by (simp add: push_at_def)
      qed
    qed
    have "block_pages current remaining = block_pages current (FIB ?i) + block_pages (current + FIB ?i * PAGE_SIZE) (remaining - FIB ?i)"
      using block_pages_add [of current "FIB ?i" "remaining - FIB ?i"] floor(2) by simp
    with rest push_at_pages(2) [OF floor(1) "1.prems"(1) room] True show ?thesis
      by (subst fb_new_loop.simps) (simp add: Let_def algebra_simps)
  qed
qed

section \<open>Taking and splitting blocks\<close>

lemma lowest_pos_None [simp]: "lowest_pos i xs = None \<longleftrightarrow> xs = []"
  by (cases xs) (auto split: option.splits prod.splits if_splits)

lemma lowest_pos_Some:
  "lowest_pos i xs = Some (j, y) \<Longrightarrow> i \<le> j \<and> j < i + length xs \<and> xs ! (j - i) = y \<and> (\<forall>x \<in> set xs. y \<le> x)"
proof (induction xs arbitrary: i j y)
  case (Cons x xs)
  show ?case
  proof (cases "lowest_pos (i + 1) xs")
    case None
    with Cons.prems show ?thesis by (auto simp del: lowest_pos_None dest: lowest_pos_None [THEN iffD1])
  next
    case (Some jy)
    obtain j' y' where jy: "jy = (j', y')" by fastforce
    from Cons.IH [of "i + 1" j' y'] Some jy
    have IH: "i + 1 \<le> j'" "j' < i + 1 + length xs" "xs ! (j' - (i + 1)) = y'" "\<forall>x \<in> set xs. y' \<le> x" by auto
    then have "(x # xs) ! (j' - i) = y'" by (simp add: nth_Cons')
    with Cons.prems Some jy IH show ?thesis by (auto split: if_splits)
  qed
qed simp

lemma mset_swap_remove:
  assumes "i < length bl" "bl_swap_remove i bl = (v, bl')"
  shows "mset bl = add_mset v (mset bl')" "v = bl ! i"
proof -
  obtain xs l where bl: "bl = xs @ [l]"
    using assms(1) by (cases bl rule: rev_cases) auto
  show "v = bl ! i" using assms(2) by (simp add: bl_swap_remove_def)
  show "mset bl = add_mset v (mset bl')"
  proof (cases "i < length xs")
    case True
    then have "mset (xs[i := l]) = add_mset l (mset xs - {#xs ! i#})" "xs ! i \<in># mset xs"
      by (simp_all add: mset_update)
    with True assms(2) bl show ?thesis
      by (auto simp: bl_swap_remove_def list_update_append butlast_append nth_append)
  next
    case False
    with assms bl have "i = length xs" by simp
    with assms(2) bl show ?thesis
      by (auto simp: bl_swap_remove_def list_update_append)
  qed
qed

lemma swap_remove_pages:
  assumes "i < 32" "length ls = 32" "pos < length (ls ! i)" "bl_swap_remove pos (ls ! i) = (v, bl)"
  shows "free_pages ls = free_pages (ls[i := bl]) + block_pages v (FIB i)"
proof -
  have "list_pages (FIB i) (ls ! i) = block_pages v (FIB i) + list_pages (FIB i) bl"
    using mset_swap_remove(1) [OF assms(3,4)] by (simp add: list_pages_def)
  then show ?thesis
    using free_pages_update [OF assms(1,2), of bl] by (simp add: algebra_simps)
qed

lemma take_lowest_block_spec:
  assumes "i < 32" "length ls = 32" "take_lowest_block i ls = (r, ls')"
  shows "case r of
      None \<Rightarrow> ls ! i = [] \<and> ls' = ls
    | Some v \<Rightarrow> v \<in> set (ls ! i) \<and> (\<forall>x \<in> set (ls ! i). v \<le> x) \<and> length ls' = 32 \<and> (\<forall>j < 32. length (ls' ! j) \<le> length (ls ! j)) \<and>
        free_pages ls = free_pages ls' + block_pages v (FIB i)"
proof (cases "lowest_pos 0 (ls ! i)")
  case None
  with assms(3) show ?thesis by (auto simp: take_lowest_block_def)
next
  case (Some py)
  obtain pos y where py: "py = (pos, y)" by fastforce
  note low = lowest_pos_Some [of 0 "ls ! i" pos y]
  obtain v bl where sr: "bl_swap_remove pos (ls ! i) = (v, bl)" by fastforce
  have r: "r = Some v" "ls' = ls[i := bl]"
    using assms(3) Some py sr by (simp_all add: take_lowest_block_def)
  have pos: "pos < length (ls ! i)" "v = y" "\<forall>x \<in> set (ls ! i). y \<le> x"
    using low Some py mset_swap_remove(2) [of pos "ls ! i" v bl] sr by auto
  have "size (mset (ls ! i)) = Suc (length bl)"
    using mset_swap_remove(1) [OF pos(1) sr] by simp
  then have "length (ls' ! j) \<le> length (ls ! j)" if "j < 32" for j
    using r(2) that assms(2) by (cases "j = i") auto
  moreover have "v \<in> set (ls ! i)"
    using pos(1) mset_swap_remove(2) [OF pos(1) sr] by simp
  ultimately show ?thesis
    using r pos assms(2) swap_remove_pages [OF assms(1,2) pos(1) sr] by auto
qed

text \<open>The scan keeps a candidate that is the lowest address among the lists visited so far.\<close>

definition cand_ok :: "(nat \<times> nat) set \<Rightarrow> block_list list \<Rightarrow> candidate \<Rightarrow> bool" where
  "cand_ok V ls best = (case best of
     None \<Rightarrow> V = {}
   | Some (idx, pos, addr) \<Rightarrow> (idx, addr) \<in> V \<and> pos < length (ls ! idx) \<and> ls ! idx ! pos = addr \<and> (\<forall>(j, x) \<in> V. addr \<le> x))"

lemma scan_list_ok:
  assumes "cand_ok V ls best" "ls ! idx = pre @ bl" "pos = length pre"
  shows "cand_ok (V \<union> Pair idx ` set bl) ls (scan_list idx pos bl best)"
  using assms
proof (induction bl arbitrary: pre pos best V)
  case (Cons a bl)
  let ?b = "if better idx a best then Some (idx, pos, a) else best"
  have at: "pos < length (ls ! idx)" "ls ! idx ! pos = a"
    using Cons.prems(2,3) by (simp_all add: nth_append)
  have "cand_ok (insert (idx, a) V) ls ?b"
    using Cons.prems(1) at by (fastforce simp: cand_ok_def better_def split: option.splits prod.splits if_splits)
  from Cons.IH [OF this, of "pre @ [a]" "pos + 1"] Cons.prems show ?case
    by auto
qed simp

lemma fold_scan_ok:
  "cand_ok V ls best \<Longrightarrow> cand_ok (V \<union> (\<Union>idx \<in> set is. Pair idx ` set (ls ! idx))) ls (fold (\<lambda>idx. scan_list idx 0 (ls ! idx)) is best)"
proof (induction "is" arbitrary: V best)
  case (Cons i "is")
  from Cons.IH [OF scan_list_ok [OF Cons.prems, of i "[]" "ls ! i" 0]] show ?case
    by (simp add: Un_assoc)
qed simp

lemma scan_lists_spec:
  "case scan_lists t ls of
     None \<Rightarrow> \<forall>i. t < i \<and> i < 32 \<longrightarrow> ls ! i = []
   | Some (i, pos, addr) \<Rightarrow> t < i \<and> i < 32 \<and> pos < length (ls ! i) \<and> ls ! i ! pos = addr \<and>
       (\<forall>j x. t < j \<and> j < 32 \<and> x \<in> set (ls ! j) \<longrightarrow> addr \<le> x)"
  using fold_scan_ok [of "{}" ls None "[t + 1..<32]"]
  by (fastforce simp: scan_lists_def cand_ok_def split: option.splits)

lemma take_lowest_suitable_block_spec:
  assumes "length ls = 32" "take_lowest_suitable_block t ls = (r, ls')"
  shows "case r of
      None \<Rightarrow> (\<forall>i. t < i \<and> i < 32 \<longrightarrow> ls ! i = []) \<and> ls' = ls
    | Some (i, v) \<Rightarrow> t < i \<and> i < 32 \<and> v \<in> set (ls ! i) \<and> (\<forall>j x. t < j \<and> j < 32 \<and> x \<in> set (ls ! j) \<longrightarrow> v \<le> x) \<and>
        length ls' = 32 \<and> (\<forall>j < 32. length (ls' ! j) \<le> length (ls ! j)) \<and> free_pages ls = free_pages ls' + block_pages v (FIB i)"
proof (cases "scan_lists t ls")
  case None
  with assms(2) scan_lists_spec [of t ls] show ?thesis
    by (auto simp: take_lowest_suitable_block_def)
next
  case (Some c)
  obtain i pos addr where c: "c = (i, pos, addr)" by (metis prod_cases3)
  have sc: "t < i" "i < 32" "pos < length (ls ! i)" "ls ! i ! pos = addr"
    "\<forall>j x. t < j \<and> j < 32 \<and> x \<in> set (ls ! j) \<longrightarrow> addr \<le> x"
    using scan_lists_spec [of t ls] Some c by auto
  obtain v bl where sr: "bl_swap_remove pos (ls ! i) = (v, bl)" by fastforce
  have r: "r = Some (i, v)" "ls' = ls[i := bl]"
    using assms(2) Some c sr by (simp_all add: take_lowest_suitable_block_def)
  have v: "v = addr" "v \<in> set (ls ! i)"
    using mset_swap_remove(2) [OF sc(3) sr] sc(3,4) by auto
  have "size (mset (ls ! i)) = Suc (length bl)"
    using mset_swap_remove(1) [OF sc(3) sr] by simp
  then have "length (ls' ! j) \<le> length (ls ! j)" if "j < 32" for j
    using r(2) that assms(1) by (cases "j = i") auto
  then show ?thesis
    using r v sc assms(1) swap_remove_pages [OF sc(2) assms(1) sc(3) sr] by auto
qed

lemma split_step_pages:
  assumes "2 \<le> idx" "idx < 32"
  shows "block_pages cur (FIB idx) = block_pages cur (FIB (idx - 1)) + block_pages (cur + FIB (idx - 1) * PAGE_SIZE) (FIB (idx - 2))"
  using fib_step [of "idx - 2"] assms block_pages_add [of cur "FIB (idx - 1)" "FIB (idx - 2)"]
  by (simp add: numeral_2_eq_2 Suc_diff_Suc)

lemma split_block_pages:
  assumes "to_idx \<le> idx" "idx < 32" "length ls = 32" "split_block cur idx to_idx ls = (addr, ls')"
  shows "addr = cur \<and> length ls' = 32 \<and> free_pages ls' + block_pages cur (FIB to_idx) \<subseteq># free_pages ls + block_pages cur (FIB idx) \<and>
    ((\<forall>j. 0 < j \<and> j + 2 \<le> idx \<longrightarrow> length (ls ! j) < MAX_BLOCKS_PER_LIST) \<and> length (ls ! 0) + min idx 2 \<le> MAX_BLOCKS_PER_LIST \<longrightarrow>
      free_pages ls' + block_pages cur (FIB to_idx) = free_pages ls + block_pages cur (FIB idx))"
  using assms
proof (induction cur idx to_idx ls arbitrary: addr ls' rule: split_block.induct)
  case (1 cur idx to_idx ls)
  consider (same) "to_idx = idx" | (last) "idx = 1" "to_idx = 0" | (more) "to_idx < idx" "2 \<le> idx"
    using "1.prems"(1) by linarith
  then show ?case
  proof cases
    case same
    with "1.prems" show ?thesis by (auto simp: split_block.simps [of cur idx])
  next
    case last
    have "block_pages cur 2 = block_pages cur 1 + block_pages (cur + PAGE_SIZE) 1"
      using block_pages_add [of cur 1 1] by (simp add: numeral_2_eq_2)
    moreover have "addr = cur" "ls' = push_at 0 (cur + PAGE_SIZE) ls"
      using last "1.prems"(4) by (auto simp: split_block.simps [of cur "Suc 0"])
    ultimately show ?thesis
      using last "1.prems"(3) push_at_pages [of 0 ls "cur + PAGE_SIZE"] by (auto simp: algebra_simps)
  next
    case more
    let ?r = "cur + FIB (idx - 1) * PAGE_SIZE" and ?j = "idx - 2"
    let ?ls = "push_at ?j ?r ls"
    have j: "?j < 32" "\<not> (idx = 1 \<and> to_idx = 0)" "to_idx \<le> idx - 1" using more "1.prems"(2) by auto
    have run: "split_block cur (idx - 1) to_idx ?ls = (addr, ls')"
      using "1.prems"(4) more by (simp add: split_block.simps [of cur idx])
    have len: "idx - 1 < 32" "length ?ls = 32" using "1.prems"(2,3) by auto
    note IH = "1.IH" [OF more(1) j(2,3) len run]
    note step = split_step_pages [OF more(2) "1.prems"(2), of cur]
    have sub: "free_pages ?ls + block_pages cur (FIB (idx - 1)) \<subseteq># free_pages ls + block_pages cur (FIB idx)"
      using push_at_pages(1) [OF j(1) "1.prems"(3), of ?r] step by (simp add: algebra_simps)
    have "free_pages ls' + block_pages cur (FIB to_idx) = free_pages ls + block_pages cur (FIB idx)"
      if room: "\<forall>j. 0 < j \<and> j + 2 \<le> idx \<longrightarrow> length (ls ! j) < MAX_BLOCKS_PER_LIST" "length (ls ! 0) + min idx 2 \<le> MAX_BLOCKS_PER_LIST"
    proof -
      have "length (ls ! ?j) < MAX_BLOCKS_PER_LIST"
        using room more by (cases "?j = 0") auto
      then have "free_pages ?ls + block_pages cur (FIB (idx - 1)) = free_pages ls + block_pages cur (FIB idx)"
        using push_at_pages(2) [OF j(1) "1.prems"(3), of ?r] step by (simp add: algebra_simps)
      moreover have "\<forall>j. 0 < j \<and> j + 2 \<le> idx - 1 \<longrightarrow> length (?ls ! j) < MAX_BLOCKS_PER_LIST"
        using room(1) more by (auto simp: push_at_def)
      moreover have "length (?ls ! 0) + min (idx - 1) 2 \<le> MAX_BLOCKS_PER_LIST"
        using room(2) more "1.prems"(3) by (cases "?j = 0") (auto simp: push_at_def bl_push_def)
      ultimately show ?thesis using IH by simp
    qed
    then show ?thesis
      using IH sub subset_mset.order_trans by blast
  qed
qed

text \<open>Size classes.\<close>

lemma find_fib_index_less: "find_fib_index pages < 32"
  by (auto simp: find_fib_index_def split: option.split dest: position_SomeD)

lemma find_fib_index_fits:
  assumes "pages \<le> 3524578"
  shows "pages \<le> FIB (find_fib_index pages)" "0 < find_fib_index pages \<Longrightarrow> FIB (find_fib_index pages - 1) < pages"
proof -
  have "\<exists>x \<in> set FIBONACCI_SERIES. pages \<le> x"
    using assms fib_31 nth_mem [of 31 FIBONACCI_SERIES] by force
  then obtain i where i: "position (\<lambda>fib. pages \<le> fib) FIBONACCI_SERIES = Some i"
    using position_None_iff [of "\<lambda>fib. pages \<le> fib" FIBONACCI_SERIES]
    by (cases "position (\<lambda>fib. pages \<le> fib) FIBONACCI_SERIES") auto
  then show "pages \<le> FIB (find_fib_index pages)" "0 < find_fib_index pages \<Longrightarrow> FIB (find_fib_index pages - 1) < pages"
    using position_SomeD [OF i] by (auto simp: find_fib_index_def not_le)
qed

lemma size_pages_bound:
  assumes "sz + PAGE_SIZE \<le> 2 ^ 64"
  shows "sz \<le> size_pages sz * PAGE_SIZE" "sz = n * PAGE_SIZE \<Longrightarrow> size_pages sz = n"
proof -
  have "size_pages sz = (sz + 4095) div 4096"
    using assms by simp
  then show "sz \<le> size_pages sz * PAGE_SIZE" "sz = n * PAGE_SIZE \<Longrightarrow> size_pages sz = n"
    by simp_all
qed

lemma size_pages_mult:
  assumes "n \<le> 3524578"
  shows "size_pages (n * 4096) = n"
proof -
  have "(n * 4096 + 4095) mod 2 ^ 64 = n * 4096 + 4095"
    using assms by (intro mod_less) simp
  then show ?thesis
    by simp
qed

section \<open>Allocation\<close>

definition fb_room :: "block_list list \<Rightarrow> bool" where
  "fb_room ls \<longleftrightarrow> (\<forall>j < 32. length (ls ! j) + 2 \<le> MAX_BLOCKS_PER_LIST)"

lemma fb_allocate_spec:
  assumes "length (fb_lists b) = 32" "sz \<noteq> 0" "fb_allocate sz b = (r, b')"
  defines "t \<equiv> find_fib_index (size_pages sz)"
  shows "case r of
      None \<Rightarrow> b' = b \<and> (\<forall>i. t \<le> i \<and> i < 32 \<longrightarrow> fb_lists b ! i = [])
    | Some addr \<Rightarrow> length (fb_lists b') = 32 \<and> fb_used_pages b' = fb_used_pages b + FIB t \<and> fb_base b' = fb_base b \<and>
        free_pages (fb_lists b') + block_pages addr (FIB t) \<subseteq># free_pages (fb_lists b) \<and>
        (fb_room (fb_lists b) \<longrightarrow> free_pages (fb_lists b') + block_pages addr (FIB t) = free_pages (fb_lists b))"
proof -
  have t: "t < 32" by (simp add: t_def find_fib_index_less)
  obtain r1 ls1 where tl: "take_lowest_block t (fb_lists b) = (r1, ls1)" by fastforce
  note tls = take_lowest_block_spec [OF t assms(1) tl]
  show ?thesis
  proof (cases r1)
    case (Some v)
    with assms(2,3) tl have "r = Some v" "b' = b\<lparr>fb_lists := ls1, fb_used_pages := fb_used_pages b + FIB t\<rparr>"
      by (auto simp: fb_allocate_def t_def Let_def)
    with tls Some show ?thesis by simp
  next
    case None
    obtain r2 ls2 where ts: "take_lowest_suitable_block t (fb_lists b) = (r2, ls2)" by fastforce
    note tss = take_lowest_suitable_block_spec [OF assms(1) ts]
    show ?thesis
    proof (cases r2)
      case n2: None
      with assms(2,3) tl None ts have "r = None" "b' = b"
        by (auto simp: fb_allocate_def t_def Let_def)
      with tss tls n2 None show ?thesis
        by (auto simp: le_less)
    next
      case (Some iv)
      obtain i v where iv: "iv = (i, v)" by fastforce
      obtain a ls3 where sp: "split_block v i t ls2 = (a, ls3)" by fastforce
      have s: "t < i" "i < 32" "length ls2 = 32" "\<forall>j < 32. length (ls2 ! j) \<le> length (fb_lists b ! j)"
        "free_pages (fb_lists b) = free_pages ls2 + block_pages v (FIB i)"
        using tss Some iv by auto
      have res: "r = Some a" "b' = b\<lparr>fb_lists := ls3, fb_used_pages := fb_used_pages b + FIB t\<rparr>"
        using assms(2,3) tl None ts Some iv sp by (auto simp: fb_allocate_def t_def Let_def)
      note spl = split_block_pages [OF less_imp_le [OF s(1)] s(2,3) sp]
      have "free_pages ls3 + block_pages v (FIB t) = free_pages (fb_lists b)" if room: "fb_room (fb_lists b)"
      proof -
        have r: "length (ls2 ! j) + 2 \<le> MAX_BLOCKS_PER_LIST" if "j < 32" for j
          using room that s(4) unfolding fb_room_def by (meson add_le_mono1 le_trans)
        have "\<forall>j. 0 < j \<and> j + 2 \<le> i \<longrightarrow> length (ls2 ! j) < MAX_BLOCKS_PER_LIST"
        proof (intro allI impI)
          fix j
          assume "0 < j \<and> j + 2 \<le> i"
          then show "length (ls2 ! j) < MAX_BLOCKS_PER_LIST" using r [of j] s(2) by simp
        qed
        moreover have "length (ls2 ! 0) + min i 2 \<le> MAX_BLOCKS_PER_LIST"
          using r [of 0] by simp
        ultimately show ?thesis using spl s(5) by simp
      qed
      with res spl s(5) show ?thesis by simp
    qed
  qed
qed

fun fb_allocs :: "nat list \<Rightarrow> fib_buddy \<Rightarrow> (nat \<times> nat) list \<times> fib_buddy" where
  "fb_allocs [] b = ([], b)"
| "fb_allocs (sz # szs) b =
     (case fb_allocate sz b of
        (None, b') \<Rightarrow> fb_allocs szs b'
      | (Some addr, b') \<Rightarrow> (let (blocks, b'') = fb_allocs szs b' in ((addr, FIB (find_fib_index (size_pages sz))) # blocks, b'')))"

definition blocks_pages :: "(nat \<times> nat) list \<Rightarrow> nat multiset" where
  "blocks_pages bs = (\<Sum>(addr, n) \<leftarrow> bs. block_pages addr n)"

lemma fb_allocs_pages:
  "length (fb_lists b) = 32 \<Longrightarrow> fb_allocs szs b = (blocks, b') \<Longrightarrow>
     free_pages (fb_lists b') + blocks_pages blocks \<subseteq># free_pages (fb_lists b) \<and>
     fb_used_pages b' = fb_used_pages b + sum_list (map snd blocks)"
proof (induction szs arbitrary: b blocks b')
  case (Cons sz szs)
  obtain r b1 where al: "fb_allocate sz b = (r, b1)" by fastforce
  show ?case
  proof (cases "sz = 0 \<or> r = None")
    case True
    then have "b1 = b" "r = None"
      using al fb_allocate_spec [OF Cons.prems(1) _ al] by (cases "sz = 0"; auto simp: fb_allocate_def [of 0])+
    with Cons.prems al Cons.IH [of b] show ?thesis by simp
  next
    case False
    then obtain addr where r: "r = Some addr" by auto
    obtain bs b2 where run: "fb_allocs szs b1 = (bs, b2)" by fastforce
    let ?n = "FIB (find_fib_index (size_pages sz))"
    have sp: "length (fb_lists b1) = 32" "free_pages (fb_lists b1) + block_pages addr ?n \<subseteq># free_pages (fb_lists b)"
      "fb_used_pages b1 = fb_used_pages b + ?n"
      using fb_allocate_spec [OF Cons.prems(1) _ al] False r by auto
    have "blocks = (addr, ?n) # bs" "b' = b2"
      using Cons.prems(2) al r run by auto
    moreover have "free_pages (fb_lists b2) + blocks_pages bs \<subseteq># free_pages (fb_lists b1)"
      "fb_used_pages b2 = fb_used_pages b1 + sum_list (map snd bs)"
      using Cons.IH [OF sp(1) run] by auto
    moreover from this(1) sp(2) have "(free_pages (fb_lists b2) + blocks_pages bs) + block_pages addr ?n \<subseteq># free_pages (fb_lists b)"
      by (meson mset_subset_eq_mono_add_right_cancel subset_mset.order_trans)
    ultimately show ?thesis
      using sp(3) by (simp add: blocks_pages_def algebra_simps)
  qed
qed (simp add: blocks_pages_def)

lemma fb_new_length: "length (fb_new_loop r c ls) = length ls"
  by (induction r c ls rule: fb_new_loop.induct) (subst fb_new_loop.simps, simp add: Let_def)

lemma free_pages_empty [simp]: "free_pages (replicate 32 []) = {#}"
  by (simp add: free_pages_def)

lemma fb_new_pages:
  assumes "sz div PAGE_SIZE div FIB 31 \<le> 64"
  shows "free_pages (fb_lists (fb_new base sz)) = block_pages base (sz div PAGE_SIZE)"
  using fb_new_loop_pages [of "replicate 32 []" "sz div PAGE_SIZE" base] assms
  by (simp add: fb_new_def Let_def)

lemma count_block_pages: "count (block_pages addr n) p \<le> 1"
proof -
  have "distinct (map (\<lambda>k. addr + k * PAGE_SIZE) [0..<n])"
    by (auto simp: distinct_map inj_on_def)
  then show ?thesis
    by (simp add: block_pages_def distinct_count_atmost_1)
qed

section \<open>Coalescing\<close>

lemma xor_nat_less: "(a::nat) < 2 ^ n \<Longrightarrow> b < 2 ^ n \<Longrightarrow> a XOR b < 2 ^ n"
  by (metis take_bit_nat_eq_self_iff take_bit_xor)

lemma xor_nat_neq: "b \<noteq> 0 \<Longrightarrow> (a::nat) XOR b \<noteq> a"
  by (metis xor.assoc xor.left_neutral xor_self_eq)

lemma fib_less: "idx < 32 \<Longrightarrow> FIB idx < 2 ^ 40"
  using fib_mono [of idx 31] fib_31 by (cases "idx = 31") auto

lemma find_buddy_offset:
  assumes "base < 2 ^ 52" "off < 2 ^ 40" "idx < 32"
  shows "find_buddy base (base + off * PAGE_SIZE) idx = base + (off XOR FIB idx) * PAGE_SIZE"
    "off XOR FIB idx < 2 ^ 40" "off XOR FIB idx \<noteq> off"
proof -
  show lt: "off XOR FIB idx < 2 ^ 40"
    by (rule xor_nat_less [OF assms(2) fib_less [OF assms(3)]])
  show "off XOR FIB idx \<noteq> off"
    using fib_pos [OF assms(3)] by (intro xor_nat_neq) simp
  have "(base + off * PAGE_SIZE + 2 ^ 64 - base) mod 2 ^ 64 div PAGE_SIZE = off"
    using assms by simp
  moreover have "base + (off XOR FIB idx) * PAGE_SIZE < 2 ^ 64"
    using assms(1) lt by simp
  ultimately show "find_buddy base (base + off * PAGE_SIZE) idx = base + (off XOR FIB idx) * PAGE_SIZE"
    by (simp add: find_buddy_def Let_def)
qed

lemma try_coalesce_keeps:
  assumes "base < 2 ^ 52" "off < 2 ^ 40" "idx < 32" "length ls = 32"
  shows "(\<forall>j < idx. try_coalesce base (base + off * PAGE_SIZE) idx ls ! j = ls ! j) \<and>
    (base + off * PAGE_SIZE \<in> set (ls ! idx) \<longrightarrow> base + off * PAGE_SIZE \<in> set (try_coalesce base (base + off * PAGE_SIZE) idx ls ! idx))"
  using assms(2-4)
proof (induction "31 - idx" arbitrary: off idx ls)
  case 0
  then show ?case by (simp add: try_coalesce.simps)
next
  case (Suc n)
  let ?a = "base + off * PAGE_SIZE" and ?o = "off XOR FIB idx"
  note fb = find_buddy_offset [OF assms(1) Suc.prems(1,2)]
  have idx: "idx < 31" using Suc.hyps(2) by simp
  show ?case
  proof (cases "find_block_in_freelist (base + ?o * PAGE_SIZE) ls = Some idx")
    case False
    then show ?thesis
      using idx by (subst (1 2) try_coalesce.simps) (auto simp: fb(1) Let_def split: option.split)
  next
    case True
    define off' where "off' = (if off < ?o then off else ?o)"
    define ls2 where "ls2 = push_at (idx + 1) (base + off' * PAGE_SIZE) (ls[idx := bl_retain_not_equal (base + ?o * PAGE_SIZE) (ls ! idx)])"
    have rec: "try_coalesce base ?a idx ls = try_coalesce base (base + off' * PAGE_SIZE) (idx + 1) ls2"
      using True idx by (subst try_coalesce.simps) (simp add: fb(1) Let_def off'_def ls2_def)
    have "off' < 2 ^ 40" using fb(2) Suc.prems(1) by (simp add: off'_def)
    from Suc.hyps(1) [of "idx + 1", OF _ this] Suc.hyps(2) Suc.prems(3)
    have IH: "\<forall>j < idx + 1. try_coalesce base (base + off' * PAGE_SIZE) (idx + 1) ls2 ! j = ls2 ! j"
      by (simp add: ls2_def)
    have "?a \<in> set (ls2 ! idx)" if "?a \<in> set (ls ! idx)"
      using that fb(3) Suc.prems(3) idx by (simp add: ls2_def push_at_def bl_retain_not_equal_def)
    then show ?thesis
      using rec IH by (simp add: ls2_def push_at_def)
  qed
qed

lemma try_coalesce_double:
  assumes "base < 2 ^ 52" "off < 2 ^ 40" "idx < 31" "length ls = 32"
    and "base + off * PAGE_SIZE \<in> set (ls ! idx)" and "length (ls ! (idx + 1)) < MAX_BLOCKS_PER_LIST"
    and "find_block_in_freelist (base + (off XOR FIB idx) * PAGE_SIZE) ls = Some idx"
  shows "let ls' = try_coalesce base (base + off * PAGE_SIZE) idx ls
    in base + off * PAGE_SIZE \<in> set (ls' ! idx) \<and> base + min off (off XOR FIB idx) * PAGE_SIZE \<in> set (ls' ! (idx + 1))"
proof -
  let ?a = "base + off * PAGE_SIZE" and ?o = "off XOR FIB idx" and ?m = "min off (off XOR FIB idx)"
  define ls2 where "ls2 = push_at (idx + 1) (base + ?m * PAGE_SIZE) (ls[idx := bl_retain_not_equal (base + ?o * PAGE_SIZE) (ls ! idx)])"
  have i: "idx < 32" using assms(3) by simp
  note fb = find_buddy_offset [OF assms(1,2) i]
  have rec: "try_coalesce base ?a idx ls = try_coalesce base (base + ?m * PAGE_SIZE) (idx + 1) ls2"
    using assms(3,7) by (subst try_coalesce.simps) (auto simp: fb(1) Let_def min_def ls2_def)
  have m: "?m < 2 ^ 40" using fb(2) assms(2) by simp
  have "base + ?m * PAGE_SIZE \<in> set (ls2 ! (idx + 1))"
    using assms(3,4,6) by (simp add: ls2_def push_at_def bl_push_def)
  moreover have "length ls2 = 32" "idx + 1 < 32" using assms(3,4) by (simp_all add: ls2_def)
  ultimately have "base + ?m * PAGE_SIZE \<in> set (try_coalesce base ?a idx ls ! (idx + 1))"
    using try_coalesce_keeps [OF assms(1) m, of "idx + 1" ls2] rec by simp
  then show ?thesis
    using try_coalesce_keeps [OF assms(1,2) i assms(4)] assms(5) by (simp add: Let_def)
qed

section \<open>Properties\<close>

text \<open>
  C6. Allocations never overlap: whatever is requested from a fresh allocator over a region, in any
  order and number, the blocks handed out lie in the region, no page belongs to two of them or to
  one of them and a free list, and the page accounting is their total size.
\<close>

theorem fib_allocations_disjoint:
  assumes "sz div PAGE_SIZE div 3524578 \<le> 64" and "fb_allocs szs (fb_new base sz) = (blocks, b)"
  shows "free_pages (fb_lists b) + blocks_pages blocks \<subseteq># block_pages base (sz div PAGE_SIZE) \<and>
    (\<forall>p. count (free_pages (fb_lists b) + blocks_pages blocks) p \<le> 1) \<and> fb_used_pages b = sum_list (map snd blocks)"
proof -
  have "length (fb_lists (fb_new base sz)) = 32" "fb_used_pages (fb_new base sz) = 0"
    by (simp_all add: fb_new_def Let_def fb_new_length)
  with fb_allocs_pages [OF _ assms(2)] fb_new_pages [of sz base] assms(1)
  have sub: "free_pages (fb_lists b) + blocks_pages blocks \<subseteq># block_pages base (sz div PAGE_SIZE)"
    and used: "fb_used_pages b = sum_list (map snd blocks)" by (simp_all add: fib_31)
  have "count (free_pages (fb_lists b) + blocks_pages blocks) p \<le> 1" for p
    using mset_subset_eq_count [OF sub, of p] count_block_pages [of base "sz div PAGE_SIZE" p] by linarith
  with sub used show ?thesis by blast
qed

theorem fib_allocations_disjoint_witness:
  "\<forall>p. count (free_pages (fb_lists (snd (fb_allocs [4096, 20000, 4096] (fb_new 0x1000 0x400000)))) +
     blocks_pages (fst (fb_allocs [4096, 20000, 4096] (fb_new 0x1000 0x400000)))) p \<le> 1"
  using fib_allocations_disjoint [of "0x400000" "[4096, 20000, 4096]" "0x1000"] by simp

text \<open>
  A fresh allocator covers its region: its free blocks partition the region's pages, for every
  region of at most 64 blocks of the largest class (about 860 GiB).
\<close>

lemma fib_new_partitions_region:
  assumes "sz div PAGE_SIZE div 3524578 \<le> 64"
  shows "free_pages (fb_lists (fb_new base sz)) = block_pages base (sz div PAGE_SIZE)"
  using fb_new_pages [of sz base] assms by (simp add: fib_31)



text \<open>
  Coalescing lists pages twice: when a block is freed while its computed buddy is in the same
  free list, the freed block stays in that list and the merged block, which starts at the lower of
  the two and is longer than either, is put into the next list, so the same page can be handed out
  twice.
\<close>

lemma fib_coalesce_duplicates:
  assumes "length (fb_lists b) = 32" and "fb_base b < 2 ^ 52" and "off < 2 ^ 40" and "sz \<noteq> 0"
    and "find_fib_index (size_pages sz) = idx" and "idx < 31"
    and "length (fb_lists b ! idx) < MAX_BLOCKS_PER_LIST" and "length (fb_lists b ! (idx + 1)) < MAX_BLOCKS_PER_LIST"
    and "find_block_in_freelist (fb_base b + (off XOR FIB idx) * PAGE_SIZE) (push_at idx (fb_base b + off * PAGE_SIZE) (fb_lists b)) = Some idx"
  shows "let b' = fb_deallocate (fb_base b + off * PAGE_SIZE) sz b
    in fb_base b + off * PAGE_SIZE \<in> set (fb_lists b' ! idx) \<and>
       fb_base b + min off (off XOR FIB idx) * PAGE_SIZE \<in> set (fb_lists b' ! (idx + 1))"
proof -
  let ?ls = "push_at idx (fb_base b + off * PAGE_SIZE) (fb_lists b)"
  have "length ?ls = 32" "fb_base b + off * PAGE_SIZE \<in> set (?ls ! idx)" "length (?ls ! (idx + 1)) < MAX_BLOCKS_PER_LIST"
    using assms(1,6,7,8) by (simp_all add: push_at_def bl_push_def)
  from try_coalesce_double [OF assms(2,3,6) this(1,2,3) assms(9)] show ?thesis
    using assms(4,5) by (simp add: fb_deallocate_def Let_def)
qed

text \<open>
  Requests beyond the largest class are not refused: they are served from list 31 with a block
  that is smaller than what was asked for.
\<close>

lemma fib_oversized_request_short:
  assumes "3524578 * PAGE_SIZE < sz" and "sz + PAGE_SIZE \<le> 2 ^ 64" and "length (fb_lists b) = 32" and "fb_allocate sz b = (Some addr, b')"
  shows "free_pages (fb_lists b') + block_pages addr 3524578 \<subseteq># free_pages (fb_lists b) \<and>
    fb_used_pages b' = fb_used_pages b + 3524578 \<and> 3524578 * PAGE_SIZE < sz"
proof -
  have "3524578 < size_pages sz"
    using assms(1) size_pages_bound(1) [OF assms(2)] by simp
  then have "position (\<lambda>fib. size_pages sz \<le> fib) FIBONACCI_SERIES = None"
    by (simp add: position_None_iff FIBONACCI_SERIES_def)
  then have "find_fib_index (size_pages sz) = 31"
    by (simp add: find_fib_index_def)
  with fb_allocate_spec [OF assms(3) _ assms(4)] assms(1) show ?thesis
    by (auto simp: fib_31)
qed

end
