(* ===== verification/Fib_Pmm.thy ===== *)
theory Fib_Pmm
  imports Fib_Buddy
begin

text \<open>
  The physical memory manager of \<open>src/src/memory/fibonacci_pmm.rs\<close>: up to 32 regions, each with a
  Fibonacci buddy allocator, split at the borders of the DMA, DMA32 and normal zones and searched
  with zone fallback.  The occupied prefix of the region array is a list.  The memory descriptors
  come from the firmware; of their type only whether it is conventional memory matters.  A physical
  frame is represented by the address it is made from.
\<close>

section \<open>Zones and regions\<close>

datatype memory_zone = Dma | Dma32 | Normal

abbreviation ZONE_DMA_LIMIT :: nat where "ZONE_DMA_LIMIT \<equiv> 16 * 1024 * 1024"
abbreviation ZONE_DMA32_LIMIT :: nat where "ZONE_DMA32_LIMIT \<equiv> 4 * 1024 * 1024 * 1024"

definition zone_from_addr :: "nat \<Rightarrow> memory_zone" where
  "zone_from_addr addr = (if addr < ZONE_DMA_LIMIT then Dma else if addr < ZONE_DMA32_LIMIT then Dma32 else Normal)"

fun zone_fallback :: "memory_zone \<Rightarrow> memory_zone option" where
  "zone_fallback Normal = Some Dma32"
| "zone_fallback Dma32 = Some Dma"
| "zone_fallback Dma = None"

fun zone_idx :: "memory_zone \<Rightarrow> nat" where
  "zone_idx Dma = 0"
| "zone_idx Dma32 = 1"
| "zone_idx Normal = 2"

record region_allocator =
  ra_start :: nat
  ra_size :: nat
  ra_zone :: memory_zone
  ra_buddy :: fib_buddy

record fib_pmm =
  pm_regions :: "region_allocator list"
  pm_total_frames :: nat
  pm_used_frames :: nat
  pm_zone_total :: "nat list"
  pm_zone_used :: "nat list"

abbreviation MAX_PMM_REGIONS :: nat where "MAX_PMM_REGIONS \<equiv> 32"

definition pmm_empty :: fib_pmm where
  "pmm_empty = \<lparr>pm_regions = [], pm_total_frames = 0, pm_used_frames = 0, pm_zone_total = [0, 0, 0], pm_zone_used = [0, 0, 0]\<rparr>"

section \<open>Initialisation\<close>

record mem_desc =
  md_conventional :: bool
  md_phys_start :: nat
  md_page_count :: nat

definition add_region :: "nat \<Rightarrow> nat \<Rightarrow> fib_pmm \<Rightarrow> fib_pmm" where
  "add_region cursor sz m =
     (let zone = zone_from_addr cursor; pages = sz div 4096
      in m\<lparr>pm_regions := pm_regions m @ [\<lparr>ra_start = cursor, ra_size = sz, ra_zone = zone, ra_buddy = fb_new cursor sz\<rparr>],
           pm_total_frames := min (pm_total_frames m + pages) (2 ^ 64 - 1),
           pm_zone_total := (pm_zone_total m)[zone_idx zone := pm_zone_total m ! zone_idx zone + pages]\<rparr>)"

text \<open>The loop over the zone borders of one descriptor; \<open>False\<close> is the early return on a full region array.\<close>

fun init_chunks :: "nat list \<Rightarrow> nat \<Rightarrow> nat \<Rightarrow> fib_pmm \<Rightarrow> bool \<times> fib_pmm" where
  "init_chunks [] cursor phys_end m = (True, m)"
| "init_chunks (boundary # bs) cursor phys_end m =
     (if phys_end \<le> cursor then (True, m)
      else (let chunk_end = min phys_end boundary
            in if chunk_end \<le> cursor then init_chunks bs cursor phys_end m
               else if MAX_PMM_REGIONS \<le> length (pm_regions m) then (False, m)
               else init_chunks bs chunk_end phys_end (add_region cursor (chunk_end - cursor) m)))"

declare init_chunks.simps [simp del]

fun init_descs :: "mem_desc list \<Rightarrow> fib_pmm \<Rightarrow> fib_pmm" where
  "init_descs [] m = m"
| "init_descs (d # ds) m =
     (if \<not> md_conventional d \<or> md_page_count d = 0 then init_descs ds m
      else (let phys_end = (md_phys_start d + md_page_count d * 4096) mod 2 ^ 64;
                (go, m') = init_chunks [ZONE_DMA_LIMIT, ZONE_DMA32_LIMIT, 2 ^ 64 - 1] (md_phys_start d) phys_end m
            in if go then init_descs ds m' else m'))"

definition pmm_init :: "mem_desc list \<Rightarrow> fib_pmm" where
  "pmm_init ds = init_descs ds pmm_empty"

section \<open>Allocation and deallocation\<close>

fun try_regions :: "memory_zone \<Rightarrow> nat \<Rightarrow> region_allocator list \<Rightarrow> nat option \<times> region_allocator list" where
  "try_regions zone sz [] = (None, [])"
| "try_regions zone sz (r # rs) =
     (if ra_zone r \<noteq> zone then (let (x, rs') = try_regions zone sz rs in (x, r # rs'))
      else (case fb_allocate sz (ra_buddy r) of
              (Some addr, b) \<Rightarrow> (Some addr, r\<lparr>ra_buddy := b\<rparr> # rs)
            | (None, b) \<Rightarrow> (let (x, rs') = try_regions zone sz rs in (x, r\<lparr>ra_buddy := b\<rparr> # rs'))))"

definition try_allocate_contiguous_zone :: "nat \<Rightarrow> memory_zone \<Rightarrow> fib_pmm \<Rightarrow> nat option \<times> fib_pmm" where
  "try_allocate_contiguous_zone pages zone m =
     (case try_regions zone (pages * 4096) (pm_regions m) of
        (None, rs) \<Rightarrow> (None, m\<lparr>pm_regions := rs\<rparr>)
      | (Some addr, rs) \<Rightarrow>
          (Some addr,
           m\<lparr>pm_regions := rs, pm_used_frames := pm_used_frames m + pages,
             pm_zone_used := (pm_zone_used m)[zone_idx zone := pm_zone_used m ! zone_idx zone + pages]\<rparr>))"

definition try_allocate_zone :: "memory_zone \<Rightarrow> fib_pmm \<Rightarrow> nat option \<times> fib_pmm" where
  "try_allocate_zone = try_allocate_contiguous_zone 1"

text \<open>The zone asked for, then the loop over its fallbacks.\<close>

function zone_chain_alloc :: "nat \<Rightarrow> memory_zone \<Rightarrow> fib_pmm \<Rightarrow> nat option \<times> fib_pmm" where
  "zone_chain_alloc pages zone m =
     (case try_allocate_contiguous_zone pages zone m of
        (Some frame, m') \<Rightarrow> (Some frame, m')
      | (None, m') \<Rightarrow> (case zone_fallback zone of None \<Rightarrow> (None, m') | Some fz \<Rightarrow> zone_chain_alloc pages fz m'))"
  by pat_completeness auto
termination
proof (relation "measure (\<lambda>(_, zone, _). zone_idx zone)", simp)
  fix pages zone and m :: fib_pmm and p x x2 fz and m' :: fib_pmm
  assume "zone_fallback zone = Some fz"
  then show "((pages, fz, m'), pages, zone, m) \<in> measure (\<lambda>(_, zone, _). zone_idx zone)"
    by (cases zone) auto
qed

declare zone_chain_alloc.simps [simp del]

definition allocate_contiguous_from_zone :: "nat \<Rightarrow> memory_zone \<Rightarrow> fib_pmm \<Rightarrow> nat option \<times> fib_pmm" where
  "allocate_contiguous_from_zone pages zone m = (if pages = 0 then (None, m) else zone_chain_alloc pages zone m)"

definition allocate_from_zone :: "memory_zone \<Rightarrow> fib_pmm \<Rightarrow> nat option \<times> fib_pmm" where
  "allocate_from_zone zone m = zone_chain_alloc 1 zone m"

definition pmm_allocate_frame :: "fib_pmm \<Rightarrow> nat option \<times> fib_pmm" where
  "pmm_allocate_frame m = allocate_from_zone Normal m"

definition pmm_allocate_contiguous :: "nat \<Rightarrow> fib_pmm \<Rightarrow> nat option \<times> fib_pmm" where
  "pmm_allocate_contiguous pages m = allocate_contiguous_from_zone pages Normal m"

fun dealloc_regions :: "nat \<Rightarrow> nat \<Rightarrow> region_allocator list \<Rightarrow> memory_zone option \<times> region_allocator list" where
  "dealloc_regions addr sz [] = (None, [])"
| "dealloc_regions addr sz (r # rs) =
     (if ra_start r \<le> addr \<and> addr < ra_start r + ra_size r
      then (Some (ra_zone r), r\<lparr>ra_buddy := fb_deallocate addr sz (ra_buddy r)\<rparr> # rs)
      else (let (x, rs') = dealloc_regions addr sz rs in (x, r # rs')))"

definition pmm_deallocate_contiguous :: "nat \<Rightarrow> nat \<Rightarrow> fib_pmm \<Rightarrow> fib_pmm" where
  "pmm_deallocate_contiguous start pages m =
     (if pages = 0 then m
      else (case dealloc_regions start (pages * 4096) (pm_regions m) of
              (None, rs) \<Rightarrow> m\<lparr>pm_regions := rs\<rparr>
            | (Some zone, rs) \<Rightarrow>
                m\<lparr>pm_regions := rs, pm_used_frames := pm_used_frames m - pages,
                  pm_zone_used := (pm_zone_used m)[zone_idx zone := pm_zone_used m ! zone_idx zone - pages]\<rparr>))"

definition pmm_free_frames :: "fib_pmm \<Rightarrow> nat" where
  "pmm_free_frames m = pm_total_frames m - pm_used_frames m"

definition pmm_zone_stats :: "memory_zone \<Rightarrow> fib_pmm \<Rightarrow> nat \<times> nat \<times> nat" where
  "pmm_zone_stats zone m =
     (let total = pm_zone_total m ! zone_idx zone; used = pm_zone_used m ! zone_idx zone in (total, used, total - used))"

section \<open>Zone invariant\<close>

fun zone_low :: "memory_zone \<Rightarrow> nat" where
  "zone_low Dma = 0"
| "zone_low Dma32 = ZONE_DMA_LIMIT"
| "zone_low Normal = ZONE_DMA32_LIMIT"

fun zone_high :: "memory_zone \<Rightarrow> nat" where
  "zone_high Dma = ZONE_DMA_LIMIT"
| "zone_high Dma32 = ZONE_DMA32_LIMIT"
| "zone_high Normal = 2 ^ 64 - 1"

definition region_ok :: "region_allocator \<Rightarrow> bool" where
  "region_ok r \<longleftrightarrow> zone_low (ra_zone r) \<le> ra_start r \<and> ra_start r + ra_size r \<le> zone_high (ra_zone r) \<and>
     length (fb_lists (ra_buddy r)) = 32 \<and> free_pages (fb_lists (ra_buddy r)) \<subseteq># block_pages (ra_start r) (ra_size r div PAGE_SIZE)"

definition pmm_ok :: "fib_pmm \<Rightarrow> bool" where
  "pmm_ok m \<longleftrightarrow> (\<forall>r \<in> set (pm_regions m). region_ok r) \<and> length (pm_regions m) \<le> MAX_PMM_REGIONS \<and>
     length (pm_zone_total m) = 3 \<and> length (pm_zone_used m) = 3"

lemma zone_limits [simp]: "ZONE_DMA_LIMIT = 16777216" "ZONE_DMA32_LIMIT = 4294967296"
  by simp_all

lemma fb_new_loop_sub:
  "length ls = 32 \<Longrightarrow> free_pages (fb_new_loop r c ls) \<subseteq># free_pages ls + block_pages c r \<and> length (fb_new_loop r c ls) = 32"
proof (induction r c ls rule: fb_new_loop.induct)
  case (1 r c ls)
  show ?case
  proof (cases "0 < r")
    case True
    let ?i = "find_fib_index_floor r"
    note fl = find_fib_index_floor_spec [OF True]
    have "block_pages c r = block_pages c (FIB ?i) + block_pages (c + FIB ?i * PAGE_SIZE) (r - FIB ?i)"
      using block_pages_add [of c "FIB ?i" "r - FIB ?i"] fl(2) by simp
    then have step: "free_pages (push_at ?i c ls) + block_pages (c + FIB ?i * PAGE_SIZE) (r - FIB ?i) \<subseteq># free_pages ls + block_pages c r"
      using push_at_pages(1) [OF fl(1) "1.prems", of c] by (simp add: add.assoc [symmetric])
    have IH: "free_pages (fb_new_loop (r - FIB ?i) (c + FIB ?i * PAGE_SIZE) (push_at ?i c ls)) \<subseteq>#
        free_pages (push_at ?i c ls) + block_pages (c + FIB ?i * PAGE_SIZE) (r - FIB ?i)"
      "length (fb_new_loop (r - FIB ?i) (c + FIB ?i * PAGE_SIZE) (push_at ?i c ls)) = 32"
      using "1.IH" [OF True refl] "1.prems" by simp_all
    from subset_mset.order_trans [OF IH(1) step] IH(2) True show ?thesis
      by (subst (1 2) fb_new_loop.simps) (simp add: Let_def)
  qed (use "1.prems" in \<open>simp add: fb_new_loop.simps\<close>)
qed

lemma region_ok_new:
  assumes "0 < sz" "cursor + sz \<le> zone_high (zone_from_addr cursor)"
  shows "region_ok \<lparr>ra_start = cursor, ra_size = sz, ra_zone = zone_from_addr cursor, ra_buddy = fb_new cursor sz\<rparr>"
proof -
  have "zone_low (zone_from_addr cursor) \<le> cursor"
    by (simp add: zone_from_addr_def)
  then show ?thesis
    using assms fb_new_loop_sub [of "replicate 32 []" "sz div PAGE_SIZE" cursor]
    by (simp add: region_ok_def fb_new_def Let_def)
qed

lemma zone_idx_less [simp]: "zone_idx z < 3"
  by (cases z) simp_all

lemma add_region_ok:
  assumes "pmm_ok m" "length (pm_regions m) < MAX_PMM_REGIONS" "0 < sz" "cursor + sz \<le> zone_high (zone_from_addr cursor)"
  shows "pmm_ok (add_region cursor sz m)"
  using assms region_ok_new [OF assms(3,4)] by (auto simp: pmm_ok_def add_region_def Let_def)

text \<open>The borders are passed in increasing order, so a chunk that starts below one ends at or below it.\<close>

lemma init_chunks_ok:
  assumes "pmm_ok m" "phys_end \<le> 2 ^ 64 - 1" "init_chunks bs cursor phys_end m = (go, m')"
    and "bs \<in> {[], [2 ^ 64 - 1], [ZONE_DMA32_LIMIT, 2 ^ 64 - 1], [ZONE_DMA_LIMIT, ZONE_DMA32_LIMIT, 2 ^ 64 - 1]}"
    and "bs = [2 ^ 64 - 1] \<Longrightarrow> phys_end \<le> cursor \<or> ZONE_DMA32_LIMIT \<le> cursor"
    and "bs = [ZONE_DMA32_LIMIT, 2 ^ 64 - 1] \<Longrightarrow> phys_end \<le> cursor \<or> ZONE_DMA_LIMIT \<le> cursor"
  shows "pmm_ok m'"
  using assms
proof (induction bs cursor phys_end m rule: init_chunks.induct)
  case (2 boundary bs cursor phys_end m)
  let ?ce = "min phys_end boundary"
  consider (over) "phys_end \<le> cursor" | (skip) "\<not> phys_end \<le> cursor" "?ce \<le> cursor"
    | (full) "\<not> phys_end \<le> cursor" "\<not> ?ce \<le> cursor" "MAX_PMM_REGIONS \<le> length (pm_regions m)"
    | (add) "\<not> phys_end \<le> cursor" "\<not> ?ce \<le> cursor" "\<not> MAX_PMM_REGIONS \<le> length (pm_regions m)" by blast
  then show ?case
  proof cases
    case skip
    have "boundary \<le> cursor" using skip by auto
    with skip have run: "init_chunks bs cursor phys_end m = (go, m')"
      using "2.prems"(3) by (simp add: init_chunks.simps Let_def)
    from \<open>boundary \<le> cursor\<close> "2.prems"(4) show ?thesis
      by (intro "2.IH"(1) [OF skip(1) refl skip(2) "2.prems"(1,2) run]) auto
  next
    case add
    have "cursor + (?ce - cursor) \<le> zone_high (zone_from_addr cursor)"
      using add(1,2) "2.prems" by (auto simp: zone_from_addr_def)
    then have "pmm_ok (add_region cursor (?ce - cursor) m)"
      using "2.prems"(1) add by (intro add_region_ok) auto
    moreover have "init_chunks bs ?ce phys_end (add_region cursor (?ce - cursor) m) = (go, m')"
      using "2.prems"(3) add by (simp add: init_chunks.simps Let_def)
    ultimately show ?thesis
      using "2.prems"(2,4) by (intro "2.IH"(2) [OF add(1) refl add(2,3)]) auto
  qed (use "2.prems"(1,3) in \<open>auto simp: init_chunks.simps Let_def\<close>)
qed (simp add: init_chunks.simps)

lemma init_descs_ok:
  assumes "pmm_ok m" "\<forall>d \<in> set ds. md_phys_start d + md_page_count d * 4096 < 2 ^ 64"
  shows "pmm_ok (init_descs ds m)"
  using assms
proof (induction ds arbitrary: m)
  case (Cons d ds)
  obtain go m' where ch: "init_chunks [ZONE_DMA_LIMIT, ZONE_DMA32_LIMIT, 2 ^ 64 - 1] (md_phys_start d)
      ((md_phys_start d + md_page_count d * 4096) mod 2 ^ 64) m = (go, m')" by fastforce
  have "pmm_ok m'"
    using init_chunks_ok [OF Cons.prems(1) _ ch] Cons.prems(2) by simp
  with Cons ch show ?case by (simp add: Let_def)
qed simp

lemma pmm_init_ok:
  "\<forall>d \<in> set ds. md_phys_start d + md_page_count d * 4096 < 2 ^ 64 \<Longrightarrow> pmm_ok (pmm_init ds)"
  unfolding pmm_init_def by (rule init_descs_ok) (simp_all add: pmm_ok_def pmm_empty_def)

text \<open>Allocation takes the block out of a region of the zone and keeps every region's invariant.\<close>

lemma try_regions_ok:
  assumes "\<forall>r \<in> set rs. region_ok r" "sz \<noteq> 0" "try_regions zone sz rs = (x, rs')"
  shows "(\<forall>r \<in> set rs'. region_ok r) \<and> length rs' = length rs \<and>
    (\<forall>addr. x = Some addr \<longrightarrow> (\<exists>r \<in> set rs. ra_zone r = zone \<and> region_ok r \<and>
       block_pages addr (FIB (find_fib_index (size_pages sz))) \<subseteq># block_pages (ra_start r) (ra_size r div PAGE_SIZE)))"
  using assms
proof (induction rs arbitrary: x rs')
  case (Cons r rs)
  obtain y rs1 where rec: "try_regions zone sz rs = (y, rs1)" by fastforce
  have ok: "region_ok r" using Cons.prems(1) by simp
  note IH = Cons.IH [OF _ Cons.prems(2) rec]
  obtain q b where al: "fb_allocate sz (ra_buddy r) = (q, b)" by fastforce
  have len: "length (fb_lists (ra_buddy r)) = 32" using ok by (simp add: region_ok_def)
  note sp = fb_allocate_spec [OF len Cons.prems(2) al]
  show ?case
  proof (cases "ra_zone r = zone \<and> q \<noteq> None")
    case True
    then obtain addr where q: "q = Some addr" by auto
    let ?n = "FIB (find_fib_index (size_pages sz))"
    have res: "x = Some addr" "rs' = r\<lparr>ra_buddy := b\<rparr> # rs"
      using Cons.prems(3) True q al by auto
    have "free_pages (fb_lists b) + block_pages addr ?n \<subseteq># block_pages (ra_start r) (ra_size r div PAGE_SIZE)"
      using sp q ok by (auto simp: region_ok_def intro: subset_mset.order_trans)
    then have "free_pages (fb_lists b) \<subseteq># block_pages (ra_start r) (ra_size r div PAGE_SIZE)"
      "block_pages addr ?n \<subseteq># block_pages (ra_start r) (ra_size r div PAGE_SIZE)"
      by (meson mset_subset_eq_add_left mset_subset_eq_add_right subset_mset.order_trans)+
    with res sp q ok True Cons.prems(1) show ?thesis
      by (auto simp: region_ok_def)
  next
    case False
    then have "x = y" "\<exists>r'. rs' = r' # rs1 \<and> (r' = r \<or> r' = r\<lparr>ra_buddy := b\<rparr> \<and> q = None)"
      using Cons.prems(3) rec al by (auto split: if_splits)
    moreover have "region_ok (r\<lparr>ra_buddy := b\<rparr>)" if "q = None"
      using sp that ok by (auto simp: region_ok_def)
    ultimately show ?thesis using IH Cons.prems(1) by auto
  qed
qed simp

lemma try_zone_ok:
  assumes "pmm_ok m" "0 < pages" "try_allocate_contiguous_zone pages zone m = (x, m')"
  shows "pmm_ok m'"
    and "x = Some frame \<Longrightarrow> \<exists>r. ra_zone r = zone \<and> region_ok r \<and>
     block_pages frame (FIB (find_fib_index (size_pages (pages * 4096)))) \<subseteq># block_pages (ra_start r) (ra_size r div PAGE_SIZE)"
proof -
  obtain y rs where tr: "try_regions zone (pages * 4096) (pm_regions m) = (y, rs)" by fastforce
  have "\<forall>r \<in> set (pm_regions m). region_ok r" "pages * 4096 \<noteq> 0" using assms by (auto simp: pmm_ok_def)
  note ok = try_regions_ok [OF this tr]
  show "pmm_ok m'"
    using ok assms tr by (cases y) (auto simp: try_allocate_contiguous_zone_def pmm_ok_def)
  show "\<exists>r. ra_zone r = zone \<and> region_ok r \<and>
     block_pages frame (FIB (find_fib_index (size_pages (pages * 4096)))) \<subseteq># block_pages (ra_start r) (ra_size r div PAGE_SIZE)"
    if x: "x = Some frame"
  proof -
    have "y = Some frame"
      using x assms(3) tr by (cases y) (auto simp: try_allocate_contiguous_zone_def)
    with ok show ?thesis by blast
  qed
qed

lemma block_in_range:
  assumes "block_pages addr n \<subseteq># block_pages start k" "0 < n"
  shows "start \<le> addr \<and> addr + n * PAGE_SIZE \<le> start + k * PAGE_SIZE"
proof -
  have "addr + j * PAGE_SIZE \<in># block_pages start k" if "j < n" for j
    by (rule mset_subset_eqD [OF assms(1)]) (use that in \<open>auto simp: block_pages_def\<close>)
  then have "addr \<in># block_pages start k" "addr + (n - 1) * PAGE_SIZE \<in># block_pages start k"
    using assms(2) by (auto dest: meta_spec [of _ 0])
  then obtain i j where
    "addr = start + i * PAGE_SIZE" "addr + (n - 1) * PAGE_SIZE = start + j * PAGE_SIZE" "j < k"
    unfolding block_pages_def set_mset_mset set_map set_upt image_iff by (metis atLeastLessThan_iff)
  then have "start \<le> addr" "addr + (n - 1) * PAGE_SIZE + PAGE_SIZE \<le> start + k * PAGE_SIZE"
    using mult_le_mono1 [of "Suc j" k PAGE_SIZE] by simp_all
  moreover have "n * PAGE_SIZE = (n - 1) * PAGE_SIZE + PAGE_SIZE"
    using assms(2) by (cases n) auto
  ultimately show ?thesis by simp
qed

lemma zone_fallback_high: "zone_fallback z = Some fz \<Longrightarrow> zone_high fz \<le> zone_high z"
  by (cases z) auto

lemma zone_chain_ok:
  assumes "pmm_ok m" "0 < pages" "pages \<le> 3524578" "zone_chain_alloc pages zone m = (x, m')"
  shows "pmm_ok m' \<and> (\<forall>frame. x = Some frame \<longrightarrow> frame + pages * 4096 \<le> zone_high zone)"
  using assms
proof (induction pages zone m arbitrary: x m' rule: zone_chain_alloc.induct)
  case (1 pages zone m)
  obtain y m1 where tr: "try_allocate_contiguous_zone pages zone m = (y, m1)" by fastforce
  note ok = try_zone_ok [OF "1.prems"(1,2) tr]
  show ?case
  proof (cases y)
    case None
    show ?thesis
    proof (cases "zone_fallback zone")
      case n: None
      with None tr "1.prems"(4) have "x = None" "m' = m1" by (simp_all add: zone_chain_alloc.simps [of pages zone])
      with ok(1) show ?thesis by simp
    next
      case (Some fz)
      then have "zone_chain_alloc pages fz m1 = (x, m')"
        using None tr "1.prems"(4) by (subst (asm) zone_chain_alloc.simps) simp
      from "1.IH" [OF tr [symmetric] None Some ok(1) "1.prems"(2,3) this] zone_fallback_high [OF Some] show ?thesis
        by (auto intro: order_trans)
    qed
  next
    case (Some frame)
    then have res: "x = Some frame" "m' = m1"
      using tr "1.prems"(4) by (auto simp: zone_chain_alloc.simps [of pages zone])
    obtain r where a: "ra_zone r = zone" "region_ok r"
      "block_pages frame (FIB (find_fib_index (size_pages (pages * 4096)))) \<subseteq># block_pages (ra_start r) (ra_size r div PAGE_SIZE)"
      using ok(2) [OF Some] by blast
    let ?n = "FIB (find_fib_index (size_pages (pages * 4096)))"
    have "size_pages (pages * 4096) = pages"
      by (rule size_pages_mult [OF "1.prems"(3)])
    then have n: "pages \<le> ?n" "0 < ?n"
      using find_fib_index_fits(1) [OF "1.prems"(3)] "1.prems"(2) by auto
    from block_in_range [OF a(3) n(2)] have "frame + ?n * 4096 \<le> ra_start r + ra_size r div 4096 * 4096"
      by simp
    also have "\<dots> \<le> ra_start r + ra_size r"
      using div_times_less_eq_dividend [of "ra_size r" 4096] by linarith
    also have "\<dots> \<le> zone_high zone"
      using a(1,2) by (simp add: region_ok_def)
    finally have "frame + pages * 4096 \<le> zone_high zone"
      using n(1) by linarith
    then show ?thesis
      using res ok(1) by simp
  qed
qed

section \<open>Properties\<close>

fun pmm_allocs :: "(nat \<times> memory_zone) list \<Rightarrow> fib_pmm \<Rightarrow> fib_pmm" where
  "pmm_allocs [] m = m"
| "pmm_allocs ((pages, zone) # rs) m = pmm_allocs rs (snd (allocate_contiguous_from_zone pages zone m))"

lemma pmm_allocs_ok:
  "pmm_ok m \<Longrightarrow> \<forall>(pages, zone) \<in> set rs. pages \<le> 3524578 \<Longrightarrow> pmm_ok (pmm_allocs rs m)"
proof (induction rs m rule: pmm_allocs.induct)
  case (2 pages zone rs m)
  have "pmm_ok (snd (allocate_contiguous_from_zone pages zone m))"
    using zone_chain_ok [OF "2.prems"(1), of pages zone "fst (zone_chain_alloc pages zone m)" "snd (zone_chain_alloc pages zone m)"] "2.prems"
    by (cases "pages = 0") (auto simp: allocate_contiguous_from_zone_def)
  with 2 show ?case by simp
qed simp

text \<open>
  C18. Zone limits are respected: whatever the firmware's memory map and the allocations made so far,
  a block returned for a zone lies entirely below that zone's upper limit, so memory requested for
  DMA devices is below 16 MiB and memory for 32-bit devices below 4 GiB.
\<close>

theorem pmm_respects_zone_limit:
  assumes "\<forall>d \<in> set ds. md_phys_start d + md_page_count d * 4096 < 2 ^ 64"
    and "\<forall>(pages, zone) \<in> set rs. pages \<le> 3524578" and "pages \<le> 3524578"
    and "allocate_contiguous_from_zone pages zone (pmm_allocs rs (pmm_init ds)) = (Some frame, m)"
  shows "frame + pages * 4096 \<le> zone_high zone"
proof -
  have "0 < pages" using assms(4) by (cases pages) (simp_all add: allocate_contiguous_from_zone_def)
  then show ?thesis
    using zone_chain_ok [OF pmm_allocs_ok [OF pmm_init_ok [OF assms(1)] assms(2)], of pages zone "Some frame" m] assms(3,4)
    by (simp add: allocate_contiguous_from_zone_def)
qed

lemma fb_fresh_allocates:
  assumes "0 < sz div PAGE_SIZE" "sz div PAGE_SIZE div 3524578 \<le> 64"
  shows "\<exists>addr b. fb_allocate 4096 (fb_new base sz) = (Some addr, b)"
proof -
  obtain r b where al: "fb_allocate 4096 (fb_new base sz) = (r, b)" by fastforce
  have idx: "find_fib_index (size_pages 4096) = 0"
    by (simp add: find_fib_index_def FIBONACCI_SERIES_def)
  have len: "length (fb_lists (fb_new base sz)) = 32"
    by (simp add: fb_new_def Let_def fb_new_length)
  have "r \<noteq> None"
  proof
    assume "r = None"
    with fb_allocate_spec [OF len _ al] idx have "\<forall>i < 32. fb_lists (fb_new base sz) ! i = []" by simp
    then have "free_pages (fb_lists (fb_new base sz)) = {#}"
      by (simp add: free_pages_def)
    then have "size (block_pages base (sz div PAGE_SIZE)) = 0"
      using fb_new_pages [of sz base] assms(2) by (simp add: fib_31)
    then show False
      using assms(1) by (simp only: size_block_pages)
  qed
  with al show ?thesis by auto
qed

theorem pmm_respects_zone_limit_witness:
  "\<exists>frame m. allocate_contiguous_from_zone 1 Dma (pmm_init [\<lparr>md_conventional = True, md_phys_start = 0x100000, md_page_count = 256\<rparr>]) = (Some frame, m) \<and>
     frame + 4096 \<le> 16 * 1024 * 1024"
proof -
  let ?ds = "[\<lparr>md_conventional = True, md_phys_start = 0x100000, md_page_count = 256\<rparr>]"
  obtain addr b where al: "fb_allocate 4096 (fb_new 0x100000 0x100000) = (Some addr, b)"
    using fb_fresh_allocates [of "0x100000" "0x100000"] by auto
  have "pm_regions (pmm_init ?ds) = [\<lparr>ra_start = 0x100000, ra_size = 0x100000, ra_zone = Dma, ra_buddy = fb_new 0x100000 0x100000\<rparr>]"
    by (simp add: pmm_init_def pmm_empty_def init_chunks.simps add_region_def zone_from_addr_def Let_def)
  then obtain frame m where al': "allocate_contiguous_from_zone 1 Dma (pmm_init ?ds) = (Some frame, m)"
    using al by (simp add: allocate_contiguous_from_zone_def zone_chain_alloc.simps try_allocate_contiguous_zone_def)
  then show ?thesis
    using pmm_respects_zone_limit [of ?ds "[]" 1 Dma frame m] by simp
qed

end
