(* ===== verification/Wait_Queue.thy ===== *)
theory Wait_Queue
  imports EchOS_Prelude
begin

text \<open>
  The wait queue of \<open>src/src/task/scheduler.rs\<close>: the tasks that sleep on an event.  Only the
  identity of a sleeping task matters here; a woken task is handed back to the scheduler, which the
  operations return.
\<close>

type_synonym task_id = u64

type_synonym wait_queue = "task_id list"

definition wq_new :: wait_queue where
  "wq_new = []"

definition wq_sleep :: "task_id \<Rightarrow> wait_queue \<Rightarrow> wait_queue" where
  "wq_sleep current waiters = waiters @ [current]"

definition wq_wake_one :: "wait_queue \<Rightarrow> task_id list \<times> wait_queue" where
  "wq_wake_one waiters = (if waiters = [] then ([], []) else ([last waiters], butlast waiters))"

definition wq_wake_all :: "wait_queue \<Rightarrow> task_id list \<times> wait_queue" where
  "wq_wake_all waiters = (waiters, [])"

definition wq_waiter_count :: "wait_queue \<Rightarrow> nat" where
  "wq_waiter_count waiters = length waiters"

lemma wq_wake_one_mset: "wq_wake_one q = (woken, q') \<Longrightarrow> q = q' @ woken"
  by (auto simp: wq_wake_one_def split: if_splits)

fun wq_wakes :: "nat \<Rightarrow> wait_queue \<Rightarrow> task_id list" where
  "wq_wakes 0 q = []"
| "wq_wakes (Suc n) q = (let (w, q') = wq_wake_one q in w @ wq_wakes n q')"

lemma wq_wakes_snoc: "wq_wakes (Suc n) (q @ [t]) = t # wq_wakes n q"
  by (simp add: wq_wake_one_def)

section \<open>Properties\<close>

text \<open>
  Waking is last-in first-out: the tasks come back in the reverse of the order in which they went
  to sleep, so that the one that has waited longest is woken last.
\<close>

lemma wait_queue_wakes_reversed:
  "wq_wakes (length ts) (fold wq_sleep ts wq_new) = rev ts"
proof -
  have "fold wq_sleep ts q = q @ ts" for q
    by (induction ts arbitrary: q) (simp_all add: wq_sleep_def)
  moreover have "wq_wakes (length ts) ts = rev ts"
    by (induction ts rule: rev_induct) (simp_all add: wq_wakes_snoc del: wq_wakes.simps(2))
  ultimately show ?thesis by (simp add: wq_new_def)
qed

end
