(* ===== verification/Channel.thy ===== *)
theory Channel
  imports Wait_Queue Fifo_Contract
begin

text \<open>
  The typed message channel of \<open>src/src/ipc/channel.rs\<close>: a queue with a capacity, the counts of
  sender and receiver handles, and the wait queues of the two sides.  Woken tasks are collected in
  \<open>ch_ready\<close>.  The blocking receive is its loop body, split where another CPU can act between its
  queue access, its test of the sender count and its going to sleep.
\<close>

section \<open>State and operations\<close>

datatype channel_error = Closed | Full

record 'a channel =
  ch_queue :: "'a list"
  ch_capacity :: nat
  ch_recv_waiters :: wait_queue
  ch_send_waiters :: wait_queue
  ch_closed :: bool
  ch_sender_count :: u64
  ch_receiver_count :: u64
  ch_ready :: "task_id list"

abbreviation DEFAULT_CAPACITY :: nat where "DEFAULT_CAPACITY \<equiv> 256"

definition channel_with_capacity :: "nat \<Rightarrow> 'a channel" where
  "channel_with_capacity capacity = \<lparr>ch_queue = [], ch_capacity = capacity, ch_recv_waiters = wq_new, ch_send_waiters = wq_new,
     ch_closed = False, ch_sender_count = 1, ch_receiver_count = 1, ch_ready = []\<rparr>"

definition channel_new :: "'a channel" where
  "channel_new = channel_with_capacity DEFAULT_CAPACITY"

definition wake_recv_one :: "'a channel \<Rightarrow> 'a channel" where
  "wake_recv_one s = (let (w, q) = wq_wake_one (ch_recv_waiters s) in s\<lparr>ch_recv_waiters := q, ch_ready := ch_ready s @ w\<rparr>)"

definition wake_send_one :: "'a channel \<Rightarrow> 'a channel" where
  "wake_send_one s = (let (w, q) = wq_wake_one (ch_send_waiters s) in s\<lparr>ch_send_waiters := q, ch_ready := ch_ready s @ w\<rparr>)"

definition ch_send :: "'a \<Rightarrow> 'a channel \<Rightarrow> (channel_error + unit) \<times> 'a channel" where
  "ch_send msg s =
     (if ch_receiver_count s = 0 then (Inl Closed, s)
      else if length (ch_queue s) < ch_capacity s
      then (Inr (), wake_recv_one (s\<lparr>ch_queue := ch_queue s @ [msg]\<rparr>))
      else (Inr (), wake_recv_one (s\<lparr>ch_queue := ch_queue s @ [msg]\<rparr>)))"

definition ch_try_send :: "'a \<Rightarrow> 'a channel \<Rightarrow> (channel_error + unit) \<times> 'a channel" where
  "ch_try_send msg s =
     (if ch_receiver_count s = 0 then (Inl Closed, s)
      else if ch_capacity s \<le> length (ch_queue s) then (Inl Full, s)
      else (Inr (), wake_recv_one (s\<lparr>ch_queue := ch_queue s @ [msg]\<rparr>)))"

abbreviation ch_pop_front :: "'a channel \<Rightarrow> 'a option \<times> 'a channel" where
  "ch_pop_front s \<equiv>
     (case ch_queue s of [] \<Rightarrow> (None, s) | m # ms \<Rightarrow> (Some m, wake_send_one (s\<lparr>ch_queue := ms\<rparr>)))"

definition ch_try_recv :: "'a channel \<Rightarrow> 'a option \<times> 'a channel" where
  "ch_try_recv s = ch_pop_front s"

datatype 'a recv_outcome = Received 'a | RecvClosed | RecvSleeps

abbreviation ch_recv_sleep :: "task_id \<Rightarrow> 'a channel \<Rightarrow> 'a channel" where
  "ch_recv_sleep t s \<equiv> s\<lparr>ch_recv_waiters := wq_sleep t (ch_recv_waiters s)\<rparr>"

definition ch_recv :: "task_id \<Rightarrow> 'a channel \<Rightarrow> 'a recv_outcome \<times> 'a channel" where
  "ch_recv t s =
     (case ch_pop_front s of
        (Some m, s') \<Rightarrow> (Received m, s')
      | (None, s') \<Rightarrow> if ch_sender_count s' = 0 then (RecvClosed, s') else (RecvSleeps, ch_recv_sleep t s'))"

definition ch_is_closed :: "'a channel \<Rightarrow> bool" where
  "ch_is_closed s \<longleftrightarrow> ch_sender_count s = 0 \<and> ch_queue s = []"

definition sender_clone :: "'a channel \<Rightarrow> 'a channel" where
  "sender_clone s = s\<lparr>ch_sender_count := ch_sender_count s + 1\<rparr>"

definition sender_drop :: "'a channel \<Rightarrow> 'a channel" where
  "sender_drop s =
     (let s' = s\<lparr>ch_sender_count := ch_sender_count s - 1\<rparr>
      in if ch_sender_count s = 1
         then (let (w, q) = wq_wake_all (ch_recv_waiters s') in s'\<lparr>ch_recv_waiters := q, ch_ready := ch_ready s' @ w\<rparr>)
         else s')"

definition receiver_clone :: "'a channel \<Rightarrow> 'a channel" where
  "receiver_clone s = s\<lparr>ch_receiver_count := ch_receiver_count s + 1\<rparr>"

definition receiver_drop :: "'a channel \<Rightarrow> 'a channel" where
  "receiver_drop s =
     (let s' = s\<lparr>ch_receiver_count := ch_receiver_count s - 1\<rparr>
      in if ch_receiver_count s = 1
         then (let (w, q) = wq_wake_all (ch_send_waiters s') in s'\<lparr>ch_send_waiters := q, ch_ready := ch_ready s' @ w\<rparr>)
         else s')"

lemma wake_fields [simp]:
  "ch_queue (wake_recv_one s) = ch_queue s" "ch_capacity (wake_recv_one s) = ch_capacity s"
  "ch_sender_count (wake_recv_one s) = ch_sender_count s" "ch_receiver_count (wake_recv_one s) = ch_receiver_count s"
  "ch_queue (wake_send_one s) = ch_queue s" "ch_capacity (wake_send_one s) = ch_capacity s"
  "ch_sender_count (wake_send_one s) = ch_sender_count s" "ch_receiver_count (wake_send_one s) = ch_receiver_count s"
  by (simp_all add: wake_recv_one_def wake_send_one_def Let_def split: prod.split)

section \<open>The non-blocking interface is a bounded queue\<close>

definition ch_enq :: "'a \<Rightarrow> 'a channel \<Rightarrow> bool \<times> 'a channel" where
  "ch_enq msg s = (let (r, s') = ch_try_send msg s in (r = Inr (), s'))"

definition ch_open :: "'a channel \<Rightarrow> bool" where
  "ch_open s \<longleftrightarrow> ch_receiver_count s \<noteq> 0"

interpretation chan: bounded_fifo ch_open ch_queue ch_capacity ch_enq ch_try_recv
proof
  fix s :: "'a channel" and x ok s'
  assume "ch_open s" "ch_enq x s = (ok, s')"
  then show "ch_open s' \<and> ch_capacity s' = ch_capacity s \<and> (ok \<longleftrightarrow> length (ch_queue s) < ch_capacity s) \<and>
      ch_queue s' = (if ok then ch_queue s @ [x] else ch_queue s)"
    by (auto simp: ch_enq_def ch_try_send_def ch_open_def Let_def split: if_splits)
next
  fix s :: "'a channel" and r s'
  assume "ch_open s" "ch_try_recv s = (r, s')"
  then show "ch_open s' \<and> ch_capacity s' = ch_capacity s \<and>
      (case ch_queue s of [] \<Rightarrow> r = None \<and> ch_queue s' = [] | x # xs \<Rightarrow> r = Some x \<and> ch_queue s' = xs)"
    by (auto simp: ch_try_recv_def ch_open_def split: list.splits)
qed

fun ch_recvs :: "task_id \<Rightarrow> nat \<Rightarrow> 'a channel \<Rightarrow> 'a recv_outcome list \<times> 'a channel" where
  "ch_recvs t 0 s = ([], s)"
| "ch_recvs t (Suc n) s = (let (r, s') = ch_recv t s; (rs, s'') = ch_recvs t n s' in (r # rs, s''))"

lemma ch_recv_closed:
  "ch_sender_count s = 0 \<Longrightarrow>
   ch_recv t s = (case ch_queue s of [] \<Rightarrow> (RecvClosed, s) | m # ms \<Rightarrow> (Received m, wake_send_one (s\<lparr>ch_queue := ms\<rparr>)))"
  by (simp add: ch_recv_def split: list.split)

section \<open>Properties\<close>

text \<open>
  C37. While a receiver exists, any sequence of \<open>try_send\<close> and \<open>try_recv\<close> behaves as a FIFO queue bounded
  by the capacity: accepted messages are received once and in order, and never more than the
  capacity are queued.
\<close>

theorem channel_try_is_fifo:
  fixes s :: "'a channel"
  assumes "fifo_run ch_enq ch_try_recv ops (channel_with_capacity n) = (ins, outs, s)"
  shows "ins = outs @ ch_queue s \<and> length (ch_queue s) \<le> n"
proof -
  let ?c = "channel_with_capacity n :: 'a channel"
  have new: "ch_open ?c" "ch_queue ?c = []" "ch_capacity ?c = n"
    by (simp_all add: channel_with_capacity_def ch_open_def)
  show ?thesis
    using chan.run_conserves [OF new(1) assms] chan.run_bounded [OF new(1) _ assms] new by simp
qed

theorem channel_try_is_fifo_witness:
  "fifo_run ch_enq ch_try_recv [Enq (7::nat), Enq 8, Enq 9, Deq] (channel_with_capacity 2) =
     ([7, 8], [7], (channel_with_capacity 2)\<lparr>ch_queue := [8]\<rparr>) \<and>
   length (ch_queue ((channel_with_capacity 2)\<lparr>ch_queue := [8::nat]\<rparr>)) \<le> 2"
proof -
  have run: "fifo_run ch_enq ch_try_recv [Enq (7::nat), Enq 8, Enq 9, Deq] (channel_with_capacity 2) =
     ([7, 8], [7], (channel_with_capacity 2)\<lparr>ch_queue := [8]\<rparr>)"
    by (simp add: ch_enq_def ch_try_send_def ch_try_recv_def wake_recv_one_def wake_send_one_def
        wq_wake_one_def channel_with_capacity_def wq_new_def)
  from run conjunct2 [OF channel_try_is_fifo [OF run]] show ?thesis
    by (rule conjI)
qed

text \<open>
  Closing drains: once every sender is gone, the blocking receive never sleeps; it returns the
  queued messages in order and reports the closed channel ever after.
\<close>

lemma channel_close_drains:
  assumes "ch_sender_count s = 0"
  shows "fst (ch_recvs t (length (ch_queue s) + n) s) = map Received (ch_queue s) @ replicate n RecvClosed"
  using assms
proof (induction "ch_queue s" arbitrary: s)
  case Nil
  then have "ch_recv t s = (RecvClosed, s)" by (simp add: ch_recv_closed split: list.split)
  then have "fst (ch_recvs t n s) = replicate n RecvClosed"
    by (induction n) (simp_all add: case_prod_beta)
  with Nil show ?case by simp
next
  case (Cons m ms)
  let ?s = "wake_send_one (s\<lparr>ch_queue := ms\<rparr>)"
  have step: "ch_recv t s = (Received m, ?s)"
    using Cons.hyps(2) [symmetric] Cons.prems by (simp add: ch_recv_closed)
  have "fst (ch_recvs t (length (ch_queue ?s) + n) ?s) = map Received (ch_queue ?s) @ replicate n RecvClosed"
    using Cons.hyps(1) [of ?s] Cons.prems by simp
  with step Cons.hyps(2) [symmetric] show ?case
    by (simp add: case_prod_beta)
qed

text \<open>
  The blocking send does not block and does not respect the capacity: on a full channel with a
  receiver it queues the message and reports success.
\<close>

lemma channel_send_exceeds_capacity:
  assumes "ch_receiver_count s \<noteq> 0"
  shows "fst (ch_send m s) = Inr () \<and> length (ch_queue (snd (ch_send m s))) = Suc (length (ch_queue s))"
  using assms by (simp add: ch_send_def)

text \<open>
  Lost wake-up: when a message is sent after the receiver has found the queue empty and the
  channel open but before it has gone to sleep, the sender finds nobody to wake and the receiver
  then sleeps with a message in the queue; no task is made ready.
\<close>

lemma channel_lost_wakeup:
  assumes "ch_pop_front s = (None, s1)" and "ch_sender_count s1 \<noteq> 0" and "ch_receiver_count s \<noteq> 0" and "ch_recv_waiters s = []"
  shows "let s2 = snd (ch_send m s1); s3 = ch_recv_sleep t s2
    in fst (ch_send m s1) = Inr () \<and> ch_recv_waiters s3 = [t] \<and> ch_queue s3 = [m] \<and> ch_ready s3 = ch_ready s"
  using assms
  by (auto simp: ch_send_def wake_recv_one_def wq_wake_one_def wq_sleep_def Let_def split: list.splits)

end
