(* ===== verification/Mailbox.thy ===== *)
theory Mailbox
  imports Fifo_Contract Wait_Queue
begin

text \<open>
  The task mailboxes of \<open>src/src/ipc/message.rs\<close>: a registry of one bounded message queue per task,
  created on first use and looked up by a linear search.  The global registry sits behind a mutex, so
  each operation is one step.
\<close>

section \<open>State and operations\<close>

abbreviation MAX_QUEUE_SIZE :: nat where "MAX_QUEUE_SIZE \<equiv> 32"

record message =
  msg_sender :: task_id
  msg_data :: "u8 list"

record task_mailbox =
  tm_task_id :: task_id
  tm_messages :: "message list"

type_synonym registry = "task_mailbox list"

definition message_new :: "task_id \<Rightarrow> u8 list \<Rightarrow> message" where
  "message_new sender data = \<lparr>msg_sender = sender, msg_data = data\<rparr>"

definition mailbox_new :: "task_id \<Rightarrow> task_mailbox" where
  "mailbox_new t = \<lparr>tm_task_id = t, tm_messages = []\<rparr>"

definition registry_new :: registry where
  "registry_new = []"

text \<open>The mutable reference that the search returns is the position of the mailbox.\<close>

definition get_or_create_mailbox :: "task_id \<Rightarrow> registry \<Rightarrow> nat \<times> registry" where
  "get_or_create_mailbox t r =
     (case position (\<lambda>m. tm_task_id m = t) r of
        Some pos \<Rightarrow> (pos, r)
      | None \<Rightarrow> (length r, r @ [mailbox_new t]))"

definition mb_send :: "task_id \<Rightarrow> message \<Rightarrow> registry \<Rightarrow> bool \<times> registry" where
  "mb_send target msg r =
     (let (i, r') = get_or_create_mailbox target r; mailbox = r' ! i
      in if MAX_QUEUE_SIZE \<le> length (tm_messages mailbox) then (False, r')
         else (True, r'[i := mailbox\<lparr>tm_messages := tm_messages mailbox @ [msg]\<rparr>]))"

definition mb_receive :: "task_id \<Rightarrow> registry \<Rightarrow> message option \<times> registry" where
  "mb_receive t r =
     (let (i, r') = get_or_create_mailbox t r; mailbox = r' ! i
      in case tm_messages mailbox of
           [] \<Rightarrow> (None, r')
         | m # ms \<Rightarrow> (Some m, r'[i := mailbox\<lparr>tm_messages := ms\<rparr>]))"

definition mb_has_message :: "task_id \<Rightarrow> registry \<Rightarrow> bool \<times> registry" where
  "mb_has_message t r = (let (i, r') = get_or_create_mailbox t r in (tm_messages (r' ! i) \<noteq> [], r'))"

definition send_message :: "task_id \<Rightarrow> task_id \<Rightarrow> u8 list \<Rightarrow> registry \<Rightarrow> bool \<times> registry" where
  "send_message target sender data r = mb_send target (message_new sender data) r"

definition receive_message :: "task_id \<Rightarrow> registry \<Rightarrow> message option \<times> registry" where
  "receive_message t r = mb_receive t r"

definition message_count :: "task_id \<Rightarrow> registry \<Rightarrow> nat \<times> registry" where
  "message_count t r = (let (i, r') = get_or_create_mailbox t r in (length (tm_messages (r' ! i)), r'))"

section \<open>Per-task queues\<close>

definition mb_inv :: "registry \<Rightarrow> bool" where
  "mb_inv r \<longleftrightarrow> distinct (map tm_task_id r)"

definition mb_messages :: "task_id \<Rightarrow> registry \<Rightarrow> message list" where
  "mb_messages t r = (case position (\<lambda>m. tm_task_id m = t) r of Some pos \<Rightarrow> tm_messages (r ! pos) | None \<Rightarrow> [])"

lemma mb_messages_at:
  assumes "mb_inv r" "i < length r"
  shows "mb_messages (tm_task_id (r ! i)) r = tm_messages (r ! i)"
proof -
  let ?p = "\<lambda>m. tm_task_id m = tm_task_id (r ! i)"
  have "position ?p r \<noteq> None"
    using assms(2) by (auto simp: position_None_iff)
  then obtain j where j: "position ?p r = Some j" by auto
  then have "j < length r" "tm_task_id (r ! j) = tm_task_id (r ! i)"
    using position_SomeD [OF j] by auto
  then have "j = i"
    using assms by (auto simp: mb_inv_def distinct_conv_nth)
  with j show ?thesis by (simp add: mb_messages_def)
qed

lemma get_or_create_spec:
  assumes "mb_inv r" "get_or_create_mailbox t r = (i, r')"
  shows "mb_inv r' \<and> i < length r' \<and> tm_task_id (r' ! i) = t \<and> (\<forall>u. mb_messages u r' = mb_messages u r)"
proof (cases "position (\<lambda>m. tm_task_id m = t) r")
  case (Some j)
  with assms position_SomeD [OF Some] show ?thesis
    by (auto simp: get_or_create_mailbox_def)
next
  case None
  then have r': "r' = r @ [mailbox_new t]" "i = length r"
    using assms(2) by (auto simp: get_or_create_mailbox_def)
  have fresh: "t \<notin> tm_task_id ` set r"
    using None by (auto simp: position_None_iff)
  have "position (\<lambda>m. tm_task_id m = u) (r @ [mailbox_new t]) =
      (case position (\<lambda>m. tm_task_id m = u) r of Some j \<Rightarrow> Some j | None \<Rightarrow> if u = t then Some (length r) else None)" for u
    by (induction r) (auto simp: mailbox_new_def split: option.splits)
  moreover have "position (\<lambda>m. tm_task_id m = u) r = Some j \<Longrightarrow> j < length r" for u j
    using position_SomeD by fastforce
  ultimately have "mb_messages u r' = mb_messages u r" for u
    by (auto simp: mb_messages_def r'(1) nth_append mailbox_new_def split: option.split)
  with assms(1) fresh show ?thesis
    by (simp add: r' mb_inv_def mailbox_new_def)
qed

lemma mb_update:
  assumes "mb_inv r" "i < length r" "tm_task_id (r ! i) = t"
  shows "mb_inv (r[i := (r ! i)\<lparr>tm_messages := ms\<rparr>])"
    "mb_messages u (r[i := (r ! i)\<lparr>tm_messages := ms\<rparr>]) = (if u = t then ms else mb_messages u r)"
proof -
  let ?r = "r[i := (r ! i)\<lparr>tm_messages := ms\<rparr>]"
  have ids: "map tm_task_id ?r = map tm_task_id r"
    using assms(2) by (simp add: map_update list_update_same_conv)
  then show inv: "mb_inv ?r"
    using assms(1) by (simp add: mb_inv_def)
  show "mb_messages u ?r = (if u = t then ms else mb_messages u r)"
  proof (cases "u = t")
    case True
    then show ?thesis
      using mb_messages_at [OF inv, of i] assms(2,3) by simp
  next
    case False
    show ?thesis
    proof (cases "\<exists>j < length r. tm_task_id (r ! j) = u")
      case True
      then obtain j where j: "j < length r" "tm_task_id (r ! j) = u" by blast
      with False assms(3) have "?r ! j = r ! j" by (metis nth_list_update_neq)
      with j False show ?thesis
        using mb_messages_at [OF inv, of j] mb_messages_at [OF assms(1) j(1)] by simp
    next
      case none: False
      have "u \<notin> set (map tm_task_id r)"
        using none by (auto simp: in_set_conv_nth)
      moreover from this have "u \<notin> set (map tm_task_id ?r)"
        by (simp only: ids simp_thms)
      ultimately have "position (\<lambda>m. tm_task_id m = u) r = None" "position (\<lambda>m. tm_task_id m = u) ?r = None"
        by (auto simp: position_None_iff)
      then show ?thesis using False by (simp add: mb_messages_def)
    qed
  qed
qed

lemma mb_send_spec:
  assumes "mb_inv r" "mb_send t m r = (ok, r')"
  shows "mb_inv r' \<and> (ok \<longleftrightarrow> length (mb_messages t r) < MAX_QUEUE_SIZE) \<and>
    (\<forall>u. mb_messages u r' = (if ok \<and> u = t then mb_messages t r @ [m] else mb_messages u r))"
proof -
  obtain i r1 where g: "get_or_create_mailbox t r = (i, r1)" by fastforce
  note sp = get_or_create_spec [OF assms(1) g]
  then have at: "mb_messages t r = tm_messages (r1 ! i)"
    using mb_messages_at [of r1 i] by auto
  show ?thesis
    using sp at assms(2) g mb_update [where r = r1 and i = i and t = t and ms = "tm_messages (r1 ! i) @ [m]"]
    by (auto simp: mb_send_def Let_def split: if_splits)
qed

lemma mb_receive_spec:
  assumes "mb_inv r" "mb_receive t r = (x, r')"
  shows "mb_inv r' \<and> (\<forall>u. u \<noteq> t \<longrightarrow> mb_messages u r' = mb_messages u r) \<and>
    (case mb_messages t r of [] \<Rightarrow> x = None \<and> mb_messages t r' = [] | m # ms \<Rightarrow> x = Some m \<and> mb_messages t r' = ms)"
proof -
  obtain i r1 where g: "get_or_create_mailbox t r = (i, r1)" by fastforce
  note sp = get_or_create_spec [OF assms(1) g]
  then have at: "mb_messages t r = tm_messages (r1 ! i)"
    using mb_messages_at [of r1 i] by auto
  show ?thesis
  proof (cases "tm_messages (r1 ! i)")
    case Nil
    with sp at assms(2) g show ?thesis by (auto simp: mb_receive_def)
  next
    case (Cons m ms)
    with sp at assms(2) g mb_update [where r = r1 and i = i and t = t and ms = ms] show ?thesis
      by (auto simp: mb_receive_def)
  qed
qed

interpretation mailbox: bounded_fifo mb_inv "mb_messages t" "\<lambda>_. MAX_QUEUE_SIZE" "mb_send t" "mb_receive t" for t
proof
  fix r m ok r'
  assume "mb_inv r" "mb_send t m r = (ok, r')"
  from mb_send_spec [OF this] show "mb_inv r' \<and> MAX_QUEUE_SIZE = MAX_QUEUE_SIZE \<and> (ok \<longleftrightarrow> length (mb_messages t r) < MAX_QUEUE_SIZE) \<and>
      mb_messages t r' = (if ok then mb_messages t r @ [m] else mb_messages t r)" by auto
next
  fix r x r'
  assume "mb_inv r" "mb_receive t r = (x, r')"
  from mb_receive_spec [OF this] show "mb_inv r' \<and> MAX_QUEUE_SIZE = MAX_QUEUE_SIZE \<and>
      (case mb_messages t r of [] \<Rightarrow> x = None \<and> mb_messages t r' = [] | m # ms \<Rightarrow> x = Some m \<and> mb_messages t r' = ms)" by auto
qed

section \<open>Interleaved traffic\<close>

datatype mb_op = MSend task_id message | MRecv task_id

fun mb_run :: "mb_op list \<Rightarrow> registry \<Rightarrow> (task_id \<times> message) list \<times> (task_id \<times> message) list \<times> registry" where
  "mb_run [] r = ([], [], r)"
| "mb_run (MSend t m # ops) r =
     (let (ok, r1) = mb_send t m r; (ins, outs, r2) = mb_run ops r1 in (if ok then (t, m) # ins else ins, outs, r2))"
| "mb_run (MRecv t # ops) r =
     (let (x, r1) = mb_receive t r; (ins, outs, r2) = mb_run ops r1
      in (ins, case x of None \<Rightarrow> outs | Some m \<Rightarrow> (t, m) # outs, r2))"

definition for_task :: "task_id \<Rightarrow> (task_id \<times> message) list \<Rightarrow> message list" where
  "for_task t xs = map snd (filter (\<lambda>x. fst x = t) xs)"

text \<open>The operations of one task on its own queue, seen by the contract.\<close>

fun mb_project :: "task_id \<Rightarrow> mb_op list \<Rightarrow> message fifo_op list" where
  "mb_project t [] = []"
| "mb_project t (MSend u m # ops) = (if u = t then Enq m # mb_project t ops else mb_project t ops)"
| "mb_project t (MRecv u # ops) = (if u = t then Deq # mb_project t ops else mb_project t ops)"

lemma mb_run_conserves:
  "mb_inv r \<Longrightarrow> mb_run ops r = (ins, outs, r') \<Longrightarrow>
     mb_messages t r @ for_task t ins = for_task t outs @ mb_messages t r' \<and> mb_inv r' \<and>
     (length (mb_messages t r) \<le> MAX_QUEUE_SIZE \<longrightarrow> length (mb_messages t r') \<le> MAX_QUEUE_SIZE)"
proof (induction ops r arbitrary: ins outs rule: mb_run.induct)
  case (2 u m ops r)
  obtain ok r1 where s: "mb_send u m r = (ok, r1)" by fastforce
  obtain ins1 where run: "mb_run ops r1 = (ins1, outs, r')" "ins = (if ok then (u, m) # ins1 else ins1)"
    using "2.prems"(2) s by (auto split: prod.splits)
  note sp = mb_send_spec [OF "2.prems"(1) s]
  with "2.IH" [OF s [symmetric] refl _ run(1)] run(2) show ?case
    by (auto simp: for_task_def split: if_splits)
next
  case (3 u ops r)
  obtain x r1 where s: "mb_receive u r = (x, r1)" by fastforce
  obtain outs1 where run: "mb_run ops r1 = (ins, outs1, r')" "outs = (case x of None \<Rightarrow> outs1 | Some m \<Rightarrow> (u, m) # outs1)"
    using "3.prems"(2) s by (auto split: prod.splits)
  note sp = mb_receive_spec [OF "3.prems"(1) s]
  with "3.IH" [OF s [symmetric] refl _ run(1)] run(2) show ?case
    by (cases "u = t") (auto simp: for_task_def split: list.splits)
qed (simp add: for_task_def)

section \<open>Properties\<close>



end
