(* ===== verification/Pipe.thy ===== *)
theory Pipe
  imports Fifo_Contract Wait_Queue "HOL-Library.Multiset"
begin

text \<open>
  Pipes and named pipes, after \<open>src/src/posix/pipe.rs\<close>: the shared byte buffer with its reader and
  writer counts, the anonymous pipe, the named pipe, the manager of both and the two system calls.
  A blocking call is one pass through its loop: \<open>pb_read\<close> and \<open>pb_write\<close> enter it, a call that goes
  to sleep is \<open>Sleeps\<close>, and \<open>pb_read_resume\<close> and \<open>pb_write_resume\<close> continue it once the task has been
  woken.  The tasks handed to the scheduler and the tasks sent \<open>SIGPIPE\<close> are recorded in order.
\<close>

section \<open>The pipe buffer\<close>

abbreviation PIPE_BUF_SIZE :: nat where "PIPE_BUF_SIZE \<equiv> 65536"

abbreviation PIPE_MIN_BUF_SIZE :: nat where "PIPE_MIN_BUF_SIZE \<equiv> 4096"

abbreviation PIPE_MAX_BUF_SIZE :: nat where "PIPE_MAX_BUF_SIZE \<equiv> 1048576"

datatype pipe_error = WouldBlock | BrokenPipe | NoReader | NoWriter | AlreadyExists | NotFound

record pipe_buffer =
  pb_buffer :: "u8 list"
  pb_max_size :: nat
  pb_readers :: u32
  pb_writers :: u32
  pb_nonblocking :: bool
  pb_bytes_written :: u64
  pb_bytes_read :: u64
  pb_waiting_readers :: u32
  pb_waiting_writers :: u32
  pb_read_wq :: wait_queue
  pb_write_wq :: wait_queue
  pb_ready :: "task_id list"
  pb_sigpipe :: "task_id list"

definition pb_new :: "nat \<Rightarrow> pipe_buffer" where
  "pb_new n =
     \<lparr>pb_buffer = [], pb_max_size = min (max n PIPE_MIN_BUF_SIZE) PIPE_MAX_BUF_SIZE,
      pb_readers = 0, pb_writers = 0, pb_nonblocking = False, pb_bytes_written = 0,
      pb_bytes_read = 0, pb_waiting_readers = 0, pb_waiting_writers = 0,
      pb_read_wq = wq_new, pb_write_wq = wq_new, pb_ready = [], pb_sigpipe = []\<rparr>"

definition pb_add_reader :: "pipe_buffer \<Rightarrow> pipe_buffer" where
  "pb_add_reader p = p\<lparr>pb_readers := pb_readers p + 1\<rparr>"

definition pb_remove_reader :: "pipe_buffer \<Rightarrow> pipe_buffer" where
  "pb_remove_reader p = p\<lparr>pb_readers := pb_readers p - 1\<rparr>"

definition pb_add_writer :: "pipe_buffer \<Rightarrow> pipe_buffer" where
  "pb_add_writer p = p\<lparr>pb_writers := pb_writers p + 1\<rparr>"

definition pb_remove_writer :: "pipe_buffer \<Rightarrow> pipe_buffer" where
  "pb_remove_writer p = p\<lparr>pb_writers := pb_writers p - 1\<rparr>"

definition pb_wake_writer :: "pipe_buffer \<Rightarrow> pipe_buffer" where
  "pb_wake_writer p = (let (w, q) = wq_wake_one (pb_write_wq p)
     in p\<lparr>pb_write_wq := q, pb_ready := pb_ready p @ w\<rparr>)"

definition pb_wake_reader :: "pipe_buffer \<Rightarrow> pipe_buffer" where
  "pb_wake_reader p = (let (w, q) = wq_wake_one (pb_read_wq p)
     in p\<lparr>pb_read_wq := q, pb_ready := pb_ready p @ w\<rparr>)"

datatype 'r pipe_outcome = Returns "pipe_error + 'r" | Sleeps

text \<open>One pass of the loop of \<open>read\<close> into a buffer of \<open>n\<close> bytes; the result holds the bytes stored in it.\<close>

definition pb_read_iter :: "task_id \<Rightarrow> nat \<Rightarrow> pipe_buffer \<Rightarrow> u8 list pipe_outcome \<times> pipe_buffer" where
  "pb_read_iter t n p =
     (if pb_buffer p \<noteq> [] then
        (let to_read = min n (length (pb_buffer p)) in
         (Returns (Inr (take to_read (pb_buffer p))),
          pb_wake_writer (p\<lparr>pb_buffer := drop to_read (pb_buffer p),
                            pb_bytes_read := pb_bytes_read p + of_nat to_read\<rparr>)))
      else if pb_writers p = 0 then (Returns (Inr []), p)
      else if pb_nonblocking p then (Returns (Inl WouldBlock), p)
      else (Sleeps, p\<lparr>pb_waiting_readers := pb_waiting_readers p + 1,
                      pb_read_wq := wq_sleep t (pb_read_wq p)\<rparr>))"

definition pb_read :: "task_id \<Rightarrow> nat \<Rightarrow> pipe_buffer \<Rightarrow> u8 list pipe_outcome \<times> pipe_buffer" where
  "pb_read t n p = (if pb_readers p = 0 then (Returns (Inl NoReader), p) else pb_read_iter t n p)"

abbreviation pb_read_resume :: "task_id \<Rightarrow> nat \<Rightarrow> pipe_buffer \<Rightarrow> u8 list pipe_outcome \<times> pipe_buffer" where
  "pb_read_resume t n p \<equiv> pb_read_iter t n (p\<lparr>pb_waiting_readers := pb_waiting_readers p - 1\<rparr>)"

text \<open>One pass of the loop of \<open>write\<close>; the result is the number of bytes taken.\<close>

definition pb_space :: "pipe_buffer \<Rightarrow> nat" where
  "pb_space p = pb_max_size p - length (pb_buffer p)"

definition pb_write_iter :: "task_id \<Rightarrow> u8 list \<Rightarrow> pipe_buffer \<Rightarrow> nat pipe_outcome \<times> pipe_buffer" where
  "pb_write_iter t buf p =
     (let available = pb_max_size p - length (pb_buffer p) in
      if 0 < available then
        (let to_write = min (length buf) available in
         (Returns (Inr to_write),
          pb_wake_reader (p\<lparr>pb_buffer := pb_buffer p @ take to_write buf,
                            pb_bytes_written := pb_bytes_written p + of_nat to_write\<rparr>)))
      else if pb_nonblocking p then (Returns (Inl WouldBlock), p)
      else (Sleeps, p\<lparr>pb_waiting_writers := pb_waiting_writers p + 1,
                      pb_write_wq := wq_sleep t (pb_write_wq p)\<rparr>))"

definition pb_write :: "task_id \<Rightarrow> u8 list \<Rightarrow> pipe_buffer \<Rightarrow> nat pipe_outcome \<times> pipe_buffer" where
  "pb_write t buf p =
     (if pb_writers p = 0 then (Returns (Inl NoWriter), p)
      else if pb_readers p = 0 then (Returns (Inl BrokenPipe), p\<lparr>pb_sigpipe := pb_sigpipe p @ [t]\<rparr>)
      else pb_write_iter t buf p)"

definition pb_write_resume :: "task_id \<Rightarrow> u8 list \<Rightarrow> pipe_buffer \<Rightarrow> nat pipe_outcome \<times> pipe_buffer" where
  "pb_write_resume t buf p =
     (let p' = p\<lparr>pb_waiting_writers := pb_waiting_writers p - 1\<rparr> in
      if pb_readers p' = 0 then (Returns (Inl BrokenPipe), p'\<lparr>pb_sigpipe := pb_sigpipe p' @ [t]\<rparr>)
      else pb_write_iter t buf p')"

definition pb_len :: "pipe_buffer \<Rightarrow> nat" where
  "pb_len p = length (pb_buffer p)"

definition pb_is_empty :: "pipe_buffer \<Rightarrow> bool" where
  "pb_is_empty p \<longleftrightarrow> pb_buffer p = []"

definition pb_set_nonblocking :: "bool \<Rightarrow> pipe_buffer \<Rightarrow> pipe_buffer" where
  "pb_set_nonblocking b p = p\<lparr>pb_nonblocking := b\<rparr>"

definition pb_poll :: "u32 \<Rightarrow> pipe_buffer \<Rightarrow> u32" where
  "pb_poll events p =
     (if events AND 0x001 \<noteq> 0 \<and> \<not> pb_is_empty p then 0x001 else 0) OR
     (if events AND 0x004 \<noteq> 0 \<and> 0 < pb_space p then 0x004 else 0) OR
     (if pb_writers p = 0 then 0x010 else 0) OR
     (if pb_readers p = 0 then 0x008 else 0)"

section \<open>Anonymous pipes, named pipes and their manager\<close>

text \<open>
  The \<open>Arc\<close>s of the source are indices into a store of buffers, so that the two ends of a pipe and
  every opener of a named pipe share one buffer.
\<close>

type_synonym pb_store = "pipe_buffer list"

record pipe =
  pipe_buf :: nat
  read_fd :: int
  write_fd :: int

definition pipe_new :: "nat \<Rightarrow> pb_store \<Rightarrow> pipe \<times> pb_store" where
  "pipe_new n h = (\<lparr>pipe_buf = length h, read_fd = - 1, write_fd = - 1\<rparr>,
     h @ [pb_add_writer (pb_add_reader (pb_new n))])"

definition pipe_close_read :: "pipe \<Rightarrow> pb_store \<Rightarrow> pb_store" where
  "pipe_close_read p h = h[pipe_buf p := pb_remove_reader (h ! pipe_buf p)]"

definition pipe_close_write :: "pipe \<Rightarrow> pb_store \<Rightarrow> pb_store" where
  "pipe_close_write p h = h[pipe_buf p := pb_remove_writer (h ! pipe_buf p)]"

definition pipe_read :: "task_id \<Rightarrow> nat \<Rightarrow> pipe \<Rightarrow> pb_store \<Rightarrow> u8 list pipe_outcome \<times> pb_store" where
  "pipe_read t n p h = (let (r, b) = pb_read t n (h ! pipe_buf p) in (r, h[pipe_buf p := b]))"

definition pipe_write :: "task_id \<Rightarrow> u8 list \<Rightarrow> pipe \<Rightarrow> pb_store \<Rightarrow> nat pipe_outcome \<times> pb_store" where
  "pipe_write t buf p h = (let (r, b) = pb_write t buf (h ! pipe_buf p) in (r, h[pipe_buf p := b]))"

record named_pipe =
  np_path :: string
  np_mode :: u32
  np_buffer :: pipe_buffer
  np_open_read :: bool
  np_open_write :: bool

definition fifo_new :: "string \<Rightarrow> u32 \<Rightarrow> named_pipe" where
  "fifo_new path mode = \<lparr>np_path = path, np_mode = mode, np_buffer = pb_new PIPE_BUF_SIZE,
     np_open_read = False, np_open_write = False\<rparr>"

definition fifo_open_read :: "named_pipe \<Rightarrow> (pipe_error + unit) \<times> named_pipe" where
  "fifo_open_read f = (Inr (), f\<lparr>np_buffer := pb_add_reader (np_buffer f), np_open_read := True\<rparr>)"

definition fifo_open_write :: "named_pipe \<Rightarrow> (pipe_error + unit) \<times> named_pipe" where
  "fifo_open_write f = (Inr (), f\<lparr>np_buffer := pb_add_writer (np_buffer f), np_open_write := True\<rparr>)"

definition fifo_close_read :: "named_pipe \<Rightarrow> named_pipe" where
  "fifo_close_read f = (if np_open_read f
     then f\<lparr>np_open_read := False, np_buffer := pb_remove_reader (np_buffer f)\<rparr> else f)"

definition fifo_close_write :: "named_pipe \<Rightarrow> named_pipe" where
  "fifo_close_write f = (if np_open_write f
     then f\<lparr>np_open_write := False, np_buffer := pb_remove_writer (np_buffer f)\<rparr> else f)"

definition fifo_read :: "task_id \<Rightarrow> nat \<Rightarrow> named_pipe \<Rightarrow> u8 list pipe_outcome \<times> named_pipe" where
  "fifo_read t n f = (let (r, b) = pb_read t n (np_buffer f) in (r, f\<lparr>np_buffer := b\<rparr>))"

definition fifo_write :: "task_id \<Rightarrow> u8 list \<Rightarrow> named_pipe \<Rightarrow> nat pipe_outcome \<times> named_pipe" where
  "fifo_write t buf f = (let (r, b) = pb_write t buf (np_buffer f) in (r, f\<lparr>np_buffer := b\<rparr>))"

record pipe_stats =
  pipes_created :: u64
  fifos_created :: u64
  st_bytes_read :: u64
  st_bytes_written :: u64

text \<open>
  The manager's tables.  A named pipe is reached through its path; one that has been removed from
  the table lives on for its openers, who hold its index in the store of named pipes.
\<close>

record pipe_manager =
  pm_fifos :: "string \<rightharpoonup> nat"
  pm_pipes :: "u64 \<rightharpoonup> pipe"
  pm_next_pipe_id :: u64
  pm_stats :: pipe_stats
  pm_fifo_store :: "named_pipe list"
  pm_pb_store :: pb_store

definition pm_new :: pipe_manager where
  "pm_new = \<lparr>pm_fifos = Map.empty, pm_pipes = Map.empty, pm_next_pipe_id = 1,
     pm_stats = \<lparr>pipes_created = 0, fifos_created = 0, st_bytes_read = 0, st_bytes_written = 0\<rparr>,
     pm_fifo_store = [], pm_pb_store = []\<rparr>"

definition create_pipe :: "nat \<Rightarrow> pipe_manager \<Rightarrow> pipe \<times> pipe_manager" where
  "create_pipe n m =
     (let i = pm_next_pipe_id m; (p, h) = pipe_new n (pm_pb_store m); st = pm_stats m in
      (p, m\<lparr>pm_next_pipe_id := i + 1, pm_pb_store := h, pm_pipes := (pm_pipes m)(i \<mapsto> p),
            pm_stats := st\<lparr>pipes_created := pipes_created st + 1\<rparr>\<rparr>))"

definition create_fifo :: "string \<Rightarrow> u32 \<Rightarrow> pipe_manager \<Rightarrow> (pipe_error + nat) \<times> pipe_manager" where
  "create_fifo path mode m =
     (if pm_fifos m path \<noteq> None then (Inl AlreadyExists, m)
      else let i = length (pm_fifo_store m); st = pm_stats m in
        (Inr i, m\<lparr>pm_fifo_store := pm_fifo_store m @ [fifo_new path mode],
                  pm_fifos := (pm_fifos m)(path \<mapsto> i),
                  pm_stats := st\<lparr>fifos_created := fifos_created st + 1\<rparr>\<rparr>))"

definition get_fifo :: "string \<Rightarrow> pipe_manager \<Rightarrow> nat option" where
  "get_fifo path m = pm_fifos m path"

definition remove_fifo :: "string \<Rightarrow> pipe_manager \<Rightarrow> pipe_manager" where
  "remove_fifo path m = m\<lparr>pm_fifos := (pm_fifos m)(path := None)\<rparr>"

definition sys_pipe :: "pipe_manager \<Rightarrow> int \<times> (int \<times> int) \<times> pipe_manager" where
  "sys_pipe m = (let (p, m') = create_pipe PIPE_BUF_SIZE m in (0, (read_fd p, write_fd p), m'))"

definition sys_mkfifo :: "string \<Rightarrow> u32 \<Rightarrow> pipe_manager \<Rightarrow> int \<times> pipe_manager" where
  "sys_mkfifo path mode m =
     (case create_fifo path mode m of
        (Inr _, m') \<Rightarrow> (0, m')
      | (Inl AlreadyExists, m') \<Rightarrow> (- 17, m')
      | (Inl _, m') \<Rightarrow> (- 5, m'))"

lemmas pb_defs [echos_defs] = pb_read_def pb_read_iter_def pb_write_def
  pb_write_resume_def pb_write_iter_def pb_wake_reader_def pb_wake_writer_def pb_add_reader_def
  pb_remove_reader_def pb_add_writer_def pb_remove_writer_def pb_set_nonblocking_def

section \<open>The pipe as a bounded queue of bytes\<close>

text \<open>
  With both ends open and non-blocking, writing and reading one byte at a time meets the contract of
  the bounded queue.
\<close>

definition pb_enq :: "task_id \<Rightarrow> u8 \<Rightarrow> pipe_buffer \<Rightarrow> bool \<times> pipe_buffer" where
  "pb_enq t x p = (let (r, q) = pb_write t [x] p in (r = Returns (Inr 1), q))"

definition pb_deq :: "task_id \<Rightarrow> pipe_buffer \<Rightarrow> u8 option \<times> pipe_buffer" where
  "pb_deq t p = (let (r, q) = pb_read t 1 p
     in (case r of Returns (Inr (x # xs)) \<Rightarrow> Some x | _ \<Rightarrow> None, q))"

definition pb_open :: "pipe_buffer \<Rightarrow> bool" where
  "pb_open p \<longleftrightarrow> pb_readers p \<noteq> 0 \<and> pb_writers p \<noteq> 0 \<and> pb_nonblocking p"

interpretation pipe_fifo: bounded_fifo pb_open pb_buffer pb_max_size "pb_enq t" "pb_deq t" for t
proof
  fix s x ok s'
  assume "pb_open s" and "pb_enq t x s = (ok, s')"
  then show "pb_open s' \<and> pb_max_size s' = pb_max_size s \<and> (ok \<longleftrightarrow> length (pb_buffer s) < pb_max_size s) \<and>
      pb_buffer s' = (if ok then pb_buffer s @ [x] else pb_buffer s)"
    by (auto simp: pb_enq_def pb_open_def pb_defs Let_def min_def split: prod.splits if_splits)
next
  fix s r s'
  assume "pb_open s" and "pb_deq t s = (r, s')"
  then show "pb_open s' \<and> pb_max_size s' = pb_max_size s \<and>
      (case pb_buffer s of [] \<Rightarrow> r = None \<and> pb_buffer s' = [] | x # xs \<Rightarrow> r = Some x \<and> pb_buffer s' = xs)"
    by (cases "pb_buffer s") (auto simp: pb_deq_def pb_open_def pb_defs Let_def split: prod.splits)
qed

section \<open>Runs of pipe operations\<close>

datatype pipe_op =
    PWrite task_id "u8 list" | PWriteResume task_id "u8 list"
  | PRead task_id nat | PReadResume task_id nat
  | PAddReader | PRemoveReader | PAddWriter | PRemoveWriter | PSetNonblocking bool

fun taken :: "u8 list \<Rightarrow> nat pipe_outcome \<Rightarrow> u8 list" where
  "taken buf (Returns (Inr k)) = take k buf"
| "taken buf _ = []"

fun given :: "u8 list pipe_outcome \<Rightarrow> u8 list" where
  "given (Returns (Inr bs)) = bs"
| "given _ = []"

definition asleep :: "task_id \<Rightarrow> 'r pipe_outcome \<Rightarrow> task_id list" where
  "asleep t r = (case r of Sleeps \<Rightarrow> [t] | _ \<Rightarrow> [])"

text \<open>The bytes an operation puts in, the bytes it takes out, the task it sends to sleep and the new state.\<close>

fun pipe_step :: "pipe_op \<Rightarrow> pipe_buffer \<Rightarrow> u8 list \<times> u8 list \<times> task_id list \<times> pipe_buffer" where
  "pipe_step (PWrite t buf) p = (let (r, q) = pb_write t buf p in (taken buf r, [], asleep t r, q))"
| "pipe_step (PWriteResume t buf) p = (let (r, q) = pb_write_resume t buf p in (taken buf r, [], asleep t r, q))"
| "pipe_step (PRead t n) p = (let (r, q) = pb_read t n p in ([], given r, asleep t r, q))"
| "pipe_step (PReadResume t n) p = (let (r, q) = pb_read_resume t n p in ([], given r, asleep t r, q))"
| "pipe_step PAddReader p = ([], [], [], pb_add_reader p)"
| "pipe_step PRemoveReader p = ([], [], [], pb_remove_reader p)"
| "pipe_step PAddWriter p = ([], [], [], pb_add_writer p)"
| "pipe_step PRemoveWriter p = ([], [], [], pb_remove_writer p)"
| "pipe_step (PSetNonblocking b) p = ([], [], [], pb_set_nonblocking b p)"

fun pipe_run :: "pipe_op list \<Rightarrow> pipe_buffer \<Rightarrow> u8 list \<times> u8 list \<times> task_id list \<times> pipe_buffer" where
  "pipe_run [] p = ([], [], [], p)"
| "pipe_run (a # ops) p =
     (let (i, d, z, q) = pipe_step a p; (is, ds, zs, r) = pipe_run ops q in (i @ is, d @ ds, z @ zs, r))"

text \<open>
  What one operation does to the stream, to the counters and to the sleepers.  Every case is read
  off the two loops.
\<close>

definition pipe_step_ok :: "u8 list \<Rightarrow> u8 list \<Rightarrow> task_id list \<Rightarrow> pipe_buffer \<Rightarrow> pipe_buffer \<Rightarrow> bool" where
  "pipe_step_ok i d z p q \<longleftrightarrow>
     pb_buffer p @ i = d @ pb_buffer q \<and> pb_max_size q = pb_max_size p \<and>
     (length (pb_buffer q) \<le> length (pb_buffer p) \<or> length (pb_buffer q) \<le> pb_max_size p) \<and>
     pb_bytes_written q = pb_bytes_written p + of_nat (length i) \<and>
     pb_bytes_read q = pb_bytes_read p + of_nat (length d) \<and>
     mset (pb_read_wq q) + mset (pb_write_wq q) + mset (pb_ready q) =
       mset z + mset (pb_read_wq p) + mset (pb_write_wq p) + mset (pb_ready p)"

lemma wake_one_mset: "wq_wake_one q = (w, q') \<Longrightarrow> mset q = mset q' + mset w"
  using wq_wake_one_mset by fastforce

lemma pb_wake_reader_simps [simp]:
  "pb_buffer (pb_wake_reader p) = pb_buffer p" "pb_max_size (pb_wake_reader p) = pb_max_size p"
  "pb_bytes_written (pb_wake_reader p) = pb_bytes_written p" "pb_bytes_read (pb_wake_reader p) = pb_bytes_read p"
  "pb_write_wq (pb_wake_reader p) = pb_write_wq p"
  "mset (pb_read_wq (pb_wake_reader p)) + mset (pb_ready (pb_wake_reader p)) = mset (pb_read_wq p) + mset (pb_ready p)"
  by (auto simp: pb_wake_reader_def dest: wake_one_mset split: prod.splits)

lemma pb_wake_writer_simps [simp]:
  "pb_buffer (pb_wake_writer p) = pb_buffer p" "pb_max_size (pb_wake_writer p) = pb_max_size p"
  "pb_bytes_written (pb_wake_writer p) = pb_bytes_written p" "pb_bytes_read (pb_wake_writer p) = pb_bytes_read p"
  "pb_read_wq (pb_wake_writer p) = pb_read_wq p"
  "mset (pb_write_wq (pb_wake_writer p)) + mset (pb_ready (pb_wake_writer p)) = mset (pb_write_wq p) + mset (pb_ready p)"
  by (auto simp: pb_wake_writer_def dest: wake_one_mset split: prod.splits)

lemma read_iter_ok:
  "pb_read_iter t n p = (r, q) \<Longrightarrow> pipe_step_ok [] (given r) (asleep t r) p q"
  using pb_wake_writer_simps(6) [of "p\<lparr>pb_buffer := drop (min n (length (pb_buffer p))) (pb_buffer p),
      pb_bytes_read := pb_bytes_read p + of_nat (min n (length (pb_buffer p)))\<rparr>"]
  by (auto simp: pb_read_iter_def pipe_step_ok_def asleep_def wq_sleep_def Let_def ac_simps
      simp del: pb_wake_writer_simps(6) split: if_splits)

lemma write_iter_ok:
  "pb_write_iter t buf p = (r, q) \<Longrightarrow> pipe_step_ok (taken buf r) [] (asleep t r) p q"
  using pb_wake_reader_simps(6) [of "p\<lparr>pb_buffer := pb_buffer p @
      take (min (length buf) (pb_max_size p - length (pb_buffer p))) buf,
      pb_bytes_written := pb_bytes_written p + of_nat (min (length buf) (pb_max_size p - length (pb_buffer p)))\<rparr>"]
  by (auto simp: pb_write_iter_def pipe_step_ok_def asleep_def wq_sleep_def Let_def ac_simps
      simp del: pb_wake_reader_simps(6) split: if_splits)

lemma pipe_step_sound: "pipe_step a p = (i, d, z, q) \<Longrightarrow> pipe_step_ok i d z p q"
proof (cases a)
  case (PWrite t buf)
  assume "pipe_step a p = (i, d, z, q)"
  with PWrite show ?thesis
    by (auto simp: pb_write_def asleep_def split: prod.splits if_splits dest: write_iter_ok)
      (auto simp: pipe_step_ok_def)
qed (auto simp: pb_write_resume_def pb_read_def pb_add_reader_def pb_remove_reader_def
  pb_add_writer_def pb_remove_writer_def pb_set_nonblocking_def pipe_step_ok_def asleep_def Let_def
  split: prod.splits if_splits dest!: write_iter_ok read_iter_ok)

lemma pipe_run_sound:
  assumes "pipe_run ops p = (is, ds, zs, q)" and "length (pb_buffer p) \<le> pb_max_size p"
  shows "pipe_step_ok is ds zs p q \<and> length (pb_buffer q) \<le> pb_max_size q"
  using assms
proof (induction ops arbitrary: p "is" ds zs)
  case Nil
  then show ?case by (auto simp: pipe_step_ok_def)
next
  case (Cons a ops)
  obtain i d z p' where a: "pipe_step a p = (i, d, z, p')"
    using prod_cases4 by blast
  obtain is' ds' zs' q' where r: "pipe_run ops p' = (is', ds', zs', q')"
    using prod_cases4 by blast
  with Cons.prems(1) a have eq: "is = i @ is'" "ds = d @ ds'" "zs = z @ zs'" "q' = q"
    by simp_all
  have s: "pipe_step_ok i d z p p'"
    using a by (rule pipe_step_sound)
  then have "length (pb_buffer p') \<le> pb_max_size p'"
    using Cons.prems(2) by (auto simp: pipe_step_ok_def)
  with Cons.IH r eq have t: "pipe_step_ok is' ds' zs' p' q" "length (pb_buffer q) \<le> pb_max_size q"
    by auto
  have "pb_buffer p @ i @ is' = d @ pb_buffer p' @ is'"
    using s unfolding pipe_step_ok_def by (metis append.assoc)
  with s t eq show ?case
    by (auto simp: pipe_step_ok_def ac_simps)
qed

lemma fifo_reader_leak:
  "let f = snd (fifo_open_read (snd (fifo_open_read (fifo_new path mode))))
   in pb_readers (np_buffer (fifo_close_read (fifo_close_read f))) = 1"
  by (simp add: fifo_open_read_def fifo_close_read_def fifo_new_def pb_add_reader_def pb_remove_reader_def
      pb_new_def)

lemma sys_pipe_fds: "fst (sys_pipe m) = 0 \<and> fst (snd (sys_pipe m)) = (- 1, - 1)"
  by (simp add: sys_pipe_def create_pipe_def pipe_new_def Let_def)

section \<open>Properties\<close>

text \<open>
  C20. A pipe is a bounded byte stream whatever its users do: in every sequence of reads, writes,
  resumed calls, opens, closes and mode changes by any tasks, the bytes accepted are the bytes
  delivered, in order and each once, followed by those still buffered; the buffer never exceeds the
  size given at creation clamped to the limits; the two counters are the lengths of the streams; and
  every task that went to sleep is on one of the wait queues or has been made ready, once.
\<close>

theorem pipe_stream:
  "case pipe_run ops (pb_new n) of (written, delivered, slept, p) \<Rightarrow>
     written = delivered @ pb_buffer p \<and>
     pb_max_size p = min (max n 4096) 1048576 \<and> length (pb_buffer p) \<le> pb_max_size p \<and>
     pb_bytes_written p = of_nat (length written) \<and> pb_bytes_read p = of_nat (length delivered) \<and>
     mset slept = mset (pb_read_wq p) + mset (pb_write_wq p) + mset (pb_ready p)"
proof -
  obtain i d z q where r: "pipe_run ops (pb_new n) = (i, d, z, q)"
    using prod_cases4 by blast
  have new: "pb_buffer (pb_new n) = []" "pb_max_size (pb_new n) = min (max n 4096) 1048576"
    "pb_bytes_written (pb_new n) = 0" "pb_bytes_read (pb_new n) = 0" "pb_read_wq (pb_new n) = []"
    "pb_write_wq (pb_new n) = []" "pb_ready (pb_new n) = []"
    by (simp_all add: pb_new_def wq_new_def)
  have "pipe_step_ok i d z (pb_new n) q \<and> length (pb_buffer q) \<le> pb_max_size q"
    using pipe_run_sound [OF r] by (simp add: new(1))
  then show ?thesis
    unfolding r prod.case pipe_step_ok_def new by auto
qed



text \<open>
  A reader left behind: when a read has gone to sleep on a pipe with one writer and that writer
  closes, nobody is made ready and the reader stays on the queue, although its call would now return
  end of file; every later write fails without waking it.
\<close>

lemma pipe_close_strands_reader:
  assumes "pb_read t n p = (Sleeps, p1)" and "pb_writers p = 1"
  shows "let p2 = pb_remove_writer p1 in
    t \<in> set (pb_read_wq p2) \<and> pb_ready p2 = pb_ready p \<and>
    fst (pb_read_resume t n p2) = Returns (Inr []) \<and>
    (\<forall>u buf. pb_write u buf p2 = (Returns (Inl NoWriter), p2))"
  using assms
  by (auto simp: pb_read_def pb_read_iter_def pb_remove_writer_def pb_write_def
      wq_sleep_def Let_def split: if_splits)

end
