(* ===== verification/Semaphore.thy ===== *)
theory Semaphore
  imports EchOS_Prelude
begin

text \<open>
  Semaphores, after \<open>src/src/posix/semaphore.rs\<close>: unnamed and named POSIX semaphores, System V
  semaphore arrays, the manager and the system calls.  A signed 32-bit value is an integer whose sums
  wrap by \<open>i32_wrap\<close>.  The compare-and-swap loops are split where another task can run: a load and
  the compare-and-swap are separate steps of a program counter, so that every interleaving of the
  tasks is a run of \<open>sem_sys\<close>.  The tick counter and the user's memory are arguments.
\<close>

section \<open>Constants and errors\<close>

abbreviation SEMVMX :: int where "SEMVMX \<equiv> 32767"
abbreviation SEM_UNDO :: u16 where "SEM_UNDO \<equiv> 0x1000"
abbreviation IPC_CREAT :: u32 where "IPC_CREAT \<equiv> 0x0200"
abbreviation IPC_EXCL :: u32 where "IPC_EXCL \<equiv> 0x0400"
abbreviation IPC_NOWAIT :: u32 where "IPC_NOWAIT \<equiv> 0x0800"

datatype sem_error =
  NotFound | AlreadyExists | WouldBlock | Overflow | InvalidSemNum | InvalidCommand | PermissionDenied | UserFault

section \<open>POSIX semaphores\<close>

record sem_unnamed =
  su_value :: int
  su_max :: int
  su_waiters :: u32
  su_pshared :: bool

definition su_new :: "int \<Rightarrow> bool \<Rightarrow> sem_unnamed" where
  "su_new v pshared = \<lparr>su_value = v, su_max = SEMVMX, su_waiters = 0, su_pshared = pshared\<rparr>"

text \<open>
  Where a task stands in one of the three operations: before the load at the head of the loop, or
  between the load of \<open>current\<close> and the compare-and-swap.
\<close>

datatype sem_pc = Idle | WaitLoop | WaitCas int | TryLoop | TryCas int | PostLoop | PostCas int

definition su_wait_enter :: "sem_unnamed \<Rightarrow> sem_pc \<times> sem_unnamed" where
  "su_wait_enter s = (WaitLoop, s\<lparr>su_waiters := su_waiters s + 1\<rparr>)"

definition su_wait_load :: "sem_unnamed \<Rightarrow> sem_pc \<times> (sem_error + unit) option" where
  "su_wait_load s = (let current = su_value s in if current \<le> 0 then (WaitLoop, None) else (WaitCas current, None))"

definition su_wait_cas :: "int \<Rightarrow> sem_unnamed \<Rightarrow> sem_pc \<times> (sem_error + unit) option \<times> sem_unnamed" where
  "su_wait_cas current s =
     (if su_value s = current
      then (Idle, Some (Inr ()), s\<lparr>su_value := i32_wrap (current - 1), su_waiters := su_waiters s - 1\<rparr>)
      else (WaitLoop, None, s))"

definition su_trywait_load :: "sem_unnamed \<Rightarrow> sem_pc \<times> (sem_error + unit) option" where
  "su_trywait_load s = (let current = su_value s in if current \<le> 0 then (Idle, Some (Inl WouldBlock)) else (TryCas current, None))"

definition su_trywait_cas :: "int \<Rightarrow> sem_unnamed \<Rightarrow> sem_pc \<times> (sem_error + unit) option \<times> sem_unnamed" where
  "su_trywait_cas current s =
     (if su_value s = current then (Idle, Some (Inr ()), s\<lparr>su_value := i32_wrap (current - 1)\<rparr>) else (TryLoop, None, s))"

definition su_post_load :: "sem_unnamed \<Rightarrow> sem_pc \<times> (sem_error + unit) option" where
  "su_post_load s = (let current = su_value s in if su_max s \<le> current then (Idle, Some (Inl Overflow)) else (PostCas current, None))"

definition su_post_cas :: "int \<Rightarrow> sem_unnamed \<Rightarrow> sem_pc \<times> (sem_error + unit) option \<times> sem_unnamed" where
  "su_post_cas current s =
     (if su_value s = current then (Idle, Some (Inr ()), s\<lparr>su_value := i32_wrap (current + 1)\<rparr>) else (PostLoop, None, s))"

text \<open>The named semaphore has the same loops, without the waiter count, and a lifetime of its own.\<close>

record sem_named =
  sn_name :: string
  sn_value :: int
  sn_max :: int
  sn_ref_count :: u32
  sn_open_count :: u32
  sn_unlinked :: bool

definition sn_new :: "string \<Rightarrow> int \<Rightarrow> sem_named" where
  "sn_new name v = \<lparr>sn_name = name, sn_value = v, sn_max = SEMVMX, sn_ref_count = 1, sn_open_count = 1, sn_unlinked = False\<rparr>"

definition sn_wait_load :: "sem_named \<Rightarrow> sem_pc \<times> (sem_error + unit) option" where
  "sn_wait_load s = (let current = sn_value s in if current \<le> 0 then (WaitLoop, None) else (WaitCas current, None))"

definition sn_wait_cas :: "int \<Rightarrow> sem_named \<Rightarrow> sem_pc \<times> (sem_error + unit) option \<times> sem_named" where
  "sn_wait_cas current s =
     (if sn_value s = current then (Idle, Some (Inr ()), s\<lparr>sn_value := i32_wrap (current - 1)\<rparr>) else (WaitLoop, None, s))"

definition sn_trywait_load :: "sem_named \<Rightarrow> sem_pc \<times> (sem_error + unit) option" where
  "sn_trywait_load s = (let current = sn_value s in if current \<le> 0 then (Idle, Some (Inl WouldBlock)) else (TryCas current, None))"

definition sn_trywait_cas :: "int \<Rightarrow> sem_named \<Rightarrow> sem_pc \<times> (sem_error + unit) option \<times> sem_named" where
  "sn_trywait_cas current s =
     (if sn_value s = current then (Idle, Some (Inr ()), s\<lparr>sn_value := i32_wrap (current - 1)\<rparr>) else (TryLoop, None, s))"

definition sn_post_load :: "sem_named \<Rightarrow> sem_pc \<times> (sem_error + unit) option" where
  "sn_post_load s = (let current = sn_value s in if sn_max s \<le> current then (Idle, Some (Inl Overflow)) else (PostCas current, None))"

definition sn_post_cas :: "int \<Rightarrow> sem_named \<Rightarrow> sem_pc \<times> (sem_error + unit) option \<times> sem_named" where
  "sn_post_cas current s =
     (if sn_value s = current then (Idle, Some (Inr ()), s\<lparr>sn_value := i32_wrap (current + 1)\<rparr>) else (PostLoop, None, s))"

definition sn_close :: "sem_named \<Rightarrow> sem_named" where
  "sn_close s = s\<lparr>sn_open_count := sn_open_count s - 1, sn_ref_count := sn_ref_count s - 1\<rparr>"

definition sn_unlink :: "sem_named \<Rightarrow> sem_named" where
  "sn_unlink s = s\<lparr>sn_unlinked := True\<rparr>"

section \<open>System V semaphore arrays\<close>

record sem_undo =
  undo_semid :: int
  undo_semnum :: u16
  undo_adj :: u16
  undo_pid :: u32

record sem_array =
  sa_id :: int
  sa_key :: int
  sa_mode :: u16
  sa_cuid :: u32
  sa_cgid :: u32
  sa_uid :: u32
  sa_gid :: u32
  sa_nsems :: u16
  sa_values :: "int list"
  sa_last_pid :: u32
  sa_otime :: u64
  sa_ctime :: u64
  sa_undo :: "sem_undo list"

record sembuf =
  sem_num :: u16
  sem_op :: u16
  sem_flg :: u16

definition sa_new :: "u64 \<Rightarrow> int \<Rightarrow> int \<Rightarrow> u16 \<Rightarrow> u16 \<Rightarrow> sem_array" where
  "sa_new now i key nsems mode =
     \<lparr>sa_id = i, sa_key = key, sa_mode = mode, sa_cuid = 0, sa_cgid = 0, sa_uid = 0, sa_gid = 0,
      sa_nsems = nsems, sa_values = replicate (unat nsems) 0,
      sa_last_pid = 0, sa_otime = 0, sa_ctime = now, sa_undo = []\<rparr>"

definition sa_set_all :: "u64 \<Rightarrow> u16 list \<Rightarrow> sem_array \<Rightarrow> sem_array" where
  "sa_set_all now vals a =
     a\<lparr>sa_values := fold (\<lambda>(i, v) vs. if i < length vs then vs[i := uint v] else vs)
         (zip [0..<length vals] vals) (sa_values a),
       sa_otime := now\<rparr>"

definition sa_get_all :: "sem_array \<Rightarrow> u16 list" where
  "sa_get_all a = map word_of_int (sa_values a)"

definition sa_set_val :: "u64 \<Rightarrow> u16 \<Rightarrow> int \<Rightarrow> sem_array \<Rightarrow> sem_array" where
  "sa_set_val now n v a =
     (if unat n < length (sa_values a)
      then a\<lparr>sa_values := (sa_values a)[unat n := v], sa_otime := now\<rparr> else a)"

definition sa_get_val :: "u16 \<Rightarrow> sem_array \<Rightarrow> int" where
  "sa_get_val n a = (if unat n < length (sa_values a) then sa_values a ! unat n else - 1)"

text \<open>The two passes of \<open>op\<close>: every operation is checked against the values at entry, then all are applied.\<close>

fun sa_check :: "int list \<Rightarrow> sembuf list \<Rightarrow> sem_error + unit" where
  "sa_check vs [] = Inr ()"
| "sa_check vs (b # bs) =
     (if length vs \<le> unat (sem_num b) then Inl InvalidSemNum
      else let new_val = i32_wrap (vs ! unat (sem_num b) + sint (sem_op b)) in
        if new_val < 0 \<and> sem_flg b AND ucast IPC_NOWAIT \<noteq> 0 then Inl WouldBlock
        else if SEMVMX < new_val then Inl Overflow
        else sa_check vs bs)"

definition sa_apply1 :: "sembuf \<Rightarrow> sem_array \<Rightarrow> sem_array" where
  "sa_apply1 b a =
     (let n = unat (sem_num b); new_val = i32_wrap (sa_values a ! n + sint (sem_op b)) in
      a\<lparr>sa_values := (sa_values a)[n := new_val],
        sa_undo := (if sem_flg b AND SEM_UNDO \<noteq> 0
          then sa_undo a @ [\<lparr>undo_semid = sa_id a, undo_semnum = sem_num b, undo_adj = - sem_op b, undo_pid = 0\<rparr>]
          else sa_undo a)\<rparr>)"

definition sa_op :: "u64 \<Rightarrow> sembuf list \<Rightarrow> sem_array \<Rightarrow> (sem_error + unit) \<times> sem_array" where
  "sa_op now ops a =
     (case sa_check (sa_values a) ops of
        Inl e \<Rightarrow> (Inl e, a)
      | Inr _ \<Rightarrow> (Inr (), (fold sa_apply1 ops a)\<lparr>sa_last_pid := 0, sa_otime := now\<rparr>))"

section \<open>The manager\<close>

record sem_stats =
  ss_named_count :: u32
  ss_sysv_count :: u32
  ss_total_ops :: u64

text \<open>Named semaphores are shared by reference: the table holds indices into the store \<open>sm_named_store\<close>.\<close>

record sem_manager =
  sm_named :: "string \<rightharpoonup> nat"
  sm_named_store :: "sem_named list"
  sm_sysv :: "(int, sem_array) btree"
  sm_next_id :: int
  sm_stats :: sem_stats

definition sm_new :: sem_manager where
  "sm_new = \<lparr>sm_named = Map.empty, sm_named_store = [], sm_sysv = [], sm_next_id = 1,
     sm_stats = \<lparr>ss_named_count = 0, ss_sysv_count = 0, ss_total_ops = 0\<rparr>\<rparr>"

definition sem_open :: "string \<Rightarrow> u32 \<Rightarrow> int \<Rightarrow> sem_manager \<Rightarrow> (sem_error + nat) \<times> sem_manager" where
  "sem_open name oflag v m =
     (case sm_named m name of
        Some i \<Rightarrow>
          if oflag AND IPC_EXCL \<noteq> 0 then (Inl AlreadyExists, m)
          else let s = sm_named_store m ! i in
            (Inr i, m\<lparr>sm_named_store := (sm_named_store m)[i := s\<lparr>sn_open_count := sn_open_count s + 1\<rparr>]\<rparr>)
      | None \<Rightarrow>
          if oflag AND IPC_CREAT = 0 then (Inl NotFound, m)
          else let i = length (sm_named_store m); st = sm_stats m in
            (Inr i, m\<lparr>sm_named_store := sm_named_store m @ [sn_new name v], sm_named := (sm_named m)(name \<mapsto> i),
                      sm_stats := st\<lparr>ss_named_count := ss_named_count st + 1\<rparr>\<rparr>))"

text \<open>
  \<open>sem_close\<close> and \<open>sem_unlink\<close> hold the lock of the table while they run, since the guard made in the
  head of the \<open>if let\<close> lives until its end; where they lock the table again the call never returns.
\<close>

datatype 'r locked = Finishes 'r | Deadlocks

definition sem_close :: "string \<Rightarrow> sem_manager \<Rightarrow> (sem_error + unit) locked \<times> sem_manager" where
  "sem_close name m =
     (case sm_named m name of
        None \<Rightarrow> (Finishes (Inl NotFound), m)
      | Some i \<Rightarrow>
          let s = sn_close (sm_named_store m ! i); m = m\<lparr>sm_named_store := (sm_named_store m)[i := s]\<rparr> in
          if sn_open_count s = 0 \<and> sn_unlinked s then (Deadlocks, m) else (Finishes (Inr ()), m))"

definition sem_unlink :: "string \<Rightarrow> sem_manager \<Rightarrow> (sem_error + unit) locked \<times> sem_manager" where
  "sem_unlink name m =
     (case sm_named m name of
        None \<Rightarrow> (Finishes (Inl NotFound), m)
      | Some i \<Rightarrow>
          let s = sn_unlink (sm_named_store m ! i); m = m\<lparr>sm_named_store := (sm_named_store m)[i := s]\<rparr> in
          if sn_open_count s = 0 then (Deadlocks, m) else (Finishes (Inr ()), m))"

definition semget :: "u64 \<Rightarrow> int \<Rightarrow> u16 \<Rightarrow> u32 \<Rightarrow> sem_manager \<Rightarrow> (sem_error + int) \<times> sem_manager" where
  "semget now key nsems semflg m =
     (case find (\<lambda>(_, a). sa_key a = key \<and> key \<noteq> 0) (sm_sysv m) of
        Some (_, a) \<Rightarrow> if semflg AND IPC_EXCL \<noteq> 0 then (Inl AlreadyExists, m) else (Inr (sa_id a), m)
      | None \<Rightarrow>
          if semflg AND IPC_CREAT = 0 then (Inl NotFound, m)
          else let i = sm_next_id m; a = sa_new now i key nsems (ucast (semflg AND 0x1FF)); st = sm_stats m in
            (Inr i, m\<lparr>sm_next_id := i32_wrap (i + 1), sm_sysv := bt_insert i a (sm_sysv m),
                      sm_stats := st\<lparr>ss_sysv_count := ss_sysv_count st + 1\<rparr>\<rparr>))"

fun u16_pairs :: "u8 list \<Rightarrow> u16 list" where
  "u16_pairs (a # b # bs) = (ucast a + ucast b * 256) # u16_pairs bs"
| "u16_pairs _ = []"

definition read_user_u16_slice :: "(u64 \<Rightarrow> nat \<Rightarrow> u8 list option) \<Rightarrow> u64 \<Rightarrow> nat \<Rightarrow> sem_error + u16 list" where
  "read_user_u16_slice copy_from_user ptr count =
     (if count = 0 then Inr []
      else case copy_from_user ptr (count * 2) of None \<Rightarrow> Inl UserFault | Some raw \<Rightarrow> Inr (u16_pairs raw))"

definition semctl ::
    "u64 \<Rightarrow> (u64 \<Rightarrow> nat \<Rightarrow> u8 list option) \<Rightarrow> int \<Rightarrow> u16 \<Rightarrow> int \<Rightarrow> u64 \<Rightarrow> sem_manager \<Rightarrow> (sem_error + int) \<times> sem_manager" where
  "semctl now copy_from_user semid semnum cmd arg m =
     (case bt_get (sm_sysv m) semid of
        None \<Rightarrow> (Inl NotFound, m)
      | Some a \<Rightarrow>
          let put = (\<lambda>a. m\<lparr>sm_sysv := bt_insert semid a (sm_sysv m)\<rparr>) in
          if cmd = 0 then (Inr 0, m\<lparr>sm_sysv := bt_remove semid (sm_sysv m)\<rparr>)
          else if cmd = 2 then (Inr 0, m)
          else if cmd = 1 then (Inr 0, m)
          else if cmd = 13 then (Inr (int (length (sa_get_all a))), m)
          else if cmd = 14 then
            (case read_user_u16_slice copy_from_user arg (unat (sa_nsems a)) of
               Inl e \<Rightarrow> (Inl e, m) | Inr vals \<Rightarrow> (Inr 0, put (sa_set_all now vals a)))
          else if cmd = 11 then (Inr (sa_get_val semnum a), m)
          else if cmd = 16 then (Inr 0, put (sa_set_val now semnum (i32_wrap (uint arg)) a))
          else if cmd = 12 then (Inr (i32_wrap (uint (sa_last_pid a))), m)
          else if cmd = 15 then (Inr 0, m)
          else if cmd = 17 then (Inr 0, m)
          else (Inl InvalidCommand, m))"

definition semop :: "u64 \<Rightarrow> int \<Rightarrow> sembuf list \<Rightarrow> sem_manager \<Rightarrow> (sem_error + unit) \<times> sem_manager" where
  "semop now semid ops m =
     (case bt_get (sm_sysv m) semid of
        None \<Rightarrow> (Inl NotFound, m)
      | Some a \<Rightarrow>
          let (r, a) = sa_op now ops a; st = sm_stats m in
          (r, m\<lparr>sm_sysv := bt_insert semid a (sm_sysv m), sm_stats := st\<lparr>ss_total_ops := ss_total_ops st + 1\<rparr>\<rparr>))"

definition sys_semget :: "u64 \<Rightarrow> int \<Rightarrow> u16 \<Rightarrow> u32 \<Rightarrow> sem_manager \<Rightarrow> int \<times> sem_manager" where
  "sys_semget now key nsems semflg m =
     (case semget now key nsems semflg m of
        (Inr i, m) \<Rightarrow> (i, m) | (Inl NotFound, m) \<Rightarrow> (- 2, m) | (Inl AlreadyExists, m) \<Rightarrow> (- 17, m) | (Inl _, m) \<Rightarrow> (- 22, m))"

definition sys_semop :: "u64 \<Rightarrow> int \<Rightarrow> sembuf list \<Rightarrow> sem_manager \<Rightarrow> int \<times> sem_manager" where
  "sys_semop now semid ops m =
     (case semop now semid ops m of
        (Inr _, m) \<Rightarrow> (0, m) | (Inl WouldBlock, m) \<Rightarrow> (- 11, m) | (Inl NotFound, m) \<Rightarrow> (- 22, m) | (Inl _, m) \<Rightarrow> (- 5, m))"

definition sys_semctl ::
    "u64 \<Rightarrow> (u64 \<Rightarrow> nat \<Rightarrow> u8 list option) \<Rightarrow> int \<Rightarrow> u16 \<Rightarrow> int \<Rightarrow> u64 \<Rightarrow> sem_manager \<Rightarrow> int \<times> sem_manager" where
  "sys_semctl now copy_from_user semid semnum cmd arg m =
     (case semctl now copy_from_user semid semnum cmd arg m of
        (Inr v, m) \<Rightarrow> (v, m) | (Inl NotFound, m) \<Rightarrow> (- 22, m) | (Inl UserFault, m) \<Rightarrow> (- 14, m) | (Inl _, m) \<Rightarrow> (- 5, m))"

section \<open>Interleavings on one semaphore\<close>

fun su_advance :: "sem_pc \<Rightarrow> sem_unnamed \<Rightarrow> sem_pc \<times> (sem_error + unit) option \<times> sem_unnamed" where
  "su_advance Idle s = (Idle, None, s)"
| "su_advance WaitLoop s = (let (pc, r) = su_wait_load s in (pc, r, s))"
| "su_advance (WaitCas c) s = su_wait_cas c s"
| "su_advance TryLoop s = (let (pc, r) = su_trywait_load s in (pc, r, s))"
| "su_advance (TryCas c) s = su_trywait_cas c s"
| "su_advance PostLoop s = (let (pc, r) = su_post_load s in (pc, r, s))"
| "su_advance (PostCas c) s = su_post_cas c s"

datatype sem_call = CallWait | CallTrywait | CallPost

fun su_call :: "sem_call \<Rightarrow> sem_unnamed \<Rightarrow> sem_pc \<times> sem_unnamed" where
  "su_call CallWait s = su_wait_enter s"
| "su_call CallTrywait s = (TryLoop, s)"
| "su_call CallPost s = (PostLoop, s)"

text \<open>The tasks' program counters, the semaphore, and how many waits and posts have succeeded.\<close>

record sem_sys =
  sys_pcs :: "sem_pc list"
  sys_sem :: sem_unnamed
  sys_acquired :: nat
  sys_posted :: nat

fun in_wait :: "sem_pc \<Rightarrow> bool" where
  "in_wait WaitLoop = True" | "in_wait (WaitCas c) = True" | "in_wait _ = False"

fun in_post :: "sem_pc \<Rightarrow> bool" where
  "in_post PostLoop = True" | "in_post (PostCas c) = True" | "in_post _ = False"

inductive sem_step :: "sem_sys \<Rightarrow> sem_sys \<Rightarrow> bool" where
  call: "i < length (sys_pcs g) \<Longrightarrow> sys_pcs g ! i = Idle \<Longrightarrow> su_call c (sys_sem g) = (pc, s) \<Longrightarrow>
    sem_step g (g\<lparr>sys_pcs := (sys_pcs g)[i := pc], sys_sem := s\<rparr>)"
| advance: "i < length (sys_pcs g) \<Longrightarrow> sys_pcs g ! i \<noteq> Idle \<Longrightarrow>
    su_advance (sys_pcs g ! i) (sys_sem g) = (pc, r, s) \<Longrightarrow>
    sem_step g (g\<lparr>sys_pcs := (sys_pcs g)[i := pc], sys_sem := s,
      sys_acquired := sys_acquired g + (if r = Some (Inr ()) \<and> \<not> in_post (sys_pcs g ! i) then 1 else 0),
      sys_posted := sys_posted g + (if r = Some (Inr ()) \<and> in_post (sys_pcs g ! i) then 1 else 0)\<rparr>)"

definition sem_init :: "nat \<Rightarrow> int \<Rightarrow> sem_sys" where
  "sem_init n v = \<lparr>sys_pcs = replicate n Idle, sys_sem = su_new v False, sys_acquired = 0, sys_posted = 0\<rparr>"

fun pc_ok :: "sem_pc \<Rightarrow> bool" where
  "pc_ok (WaitCas c) \<longleftrightarrow> 0 < c \<and> c \<le> 32767"
| "pc_ok (TryCas c) \<longleftrightarrow> 0 < c \<and> c \<le> 32767"
| "pc_ok (PostCas c) \<longleftrightarrow> 0 \<le> c \<and> c < 32767"
| "pc_ok _ \<longleftrightarrow> True"

definition sem_inv :: "int \<Rightarrow> sem_sys \<Rightarrow> bool" where
  "sem_inv v g \<longleftrightarrow> 0 \<le> su_value (sys_sem g) \<and> su_value (sys_sem g) \<le> 32767 \<and> su_max (sys_sem g) = 32767 \<and>
     su_value (sys_sem g) + int (sys_acquired g) = v + int (sys_posted g) \<and>
     su_waiters (sys_sem g) = of_nat (length (filter in_wait (sys_pcs g))) \<and>
     list_all pc_ok (sys_pcs g)"

lemma filter_update:
  "i < length xs \<Longrightarrow> length (filter P (xs[i := y])) + (if P (xs ! i) then 1 else 0) =
     length (filter P xs) + (if P y then 1 else 0)"
proof (induction xs arbitrary: i)
  case (Cons x xs)
  then show ?case
    using Cons.IH [of "i - 1"] by (cases i) auto
qed simp

lemma waiters_update:
  assumes "i < length pcs"
  shows "(of_nat (length (filter in_wait (pcs[i := pc]))) :: u32) =
    of_nat (length (filter in_wait pcs)) + (if in_wait pc then 1 else 0) - (if in_wait (pcs ! i) then 1 else 0)"
proof -
  have "(of_nat (length (filter in_wait (pcs[i := pc])) + (if in_wait (pcs ! i) then 1 else 0)) :: u32) =
      of_nat (length (filter in_wait pcs) + (if in_wait pc then 1 else 0))"
    using filter_update [OF assms, of in_wait pc] by (rule arg_cong)
  then show ?thesis by (simp add: algebra_simps split: if_splits)
qed

text \<open>What one step of one task does, in terms of the invariant's parts.\<close>

lemma su_call_ok:
  assumes "su_call c s = (pc, s')"
  shows "pc_ok pc \<and> su_value s' = su_value s \<and> su_max s' = su_max s \<and>
    su_waiters s' = su_waiters s + (if in_wait pc then 1 else 0)"
  using assms by (cases c) (auto simp: su_wait_enter_def)

lemma su_advance_ok:
  assumes "su_advance pc s = (pc', r, s')" "pc_ok pc" "pc \<noteq> Idle"
    and "0 \<le> su_value s" "su_value s \<le> 32767" "su_max s = 32767"
  shows "pc_ok pc' \<and> 0 \<le> su_value s' \<and> su_value s' \<le> 32767 \<and> su_max s' = 32767 \<and>
    su_value s' = su_value s + (if r = Some (Inr ()) then (if in_post pc then 1 else - 1) else 0) \<and>
    su_waiters s' = su_waiters s + (if in_wait pc' then 1 else 0) - (if in_wait pc then 1 else 0)"
  using assms
  by (cases pc) (auto simp: su_wait_load_def su_wait_cas_def su_trywait_load_def su_trywait_cas_def
      su_post_load_def su_post_cas_def Let_def i32_wrap_id split: if_splits)

lemma list_all_update: "list_all P xs \<Longrightarrow> P y \<Longrightarrow> list_all P (xs[i := y])"
  by (auto simp: list_all_iff dest!: set_updateD)

lemma sem_step_inv [echos_inv]: "sem_step g g' \<Longrightarrow> sem_inv v g \<Longrightarrow> sem_inv v g'"
proof (induction rule: sem_step.induct)
  case (call i g c pc s)
  from su_call_ok [OF call.hyps(3)] call show ?case
    by (auto simp: sem_inv_def waiters_update list_all_update)
next
  case (advance i g pc r s)
  let ?pc = "sys_pcs g ! i"
  have "pc_ok ?pc" using advance by (auto simp: sem_inv_def list_all_length)
  from su_advance_ok [OF advance.hyps(3) this advance.hyps(2)] advance.prems
  have ok: "pc_ok pc" "0 \<le> su_value s" "su_value s \<le> 32767" "su_max s = 32767"
    "su_value s = su_value (sys_sem g) + (if r = Some (Inr ()) then (if in_post ?pc then 1 else - 1) else 0)"
    "su_waiters s = su_waiters (sys_sem g) + (if in_wait pc then 1 else 0) - (if in_wait ?pc then 1 else 0)"
    by (auto simp: sem_inv_def)
  with advance.prems advance.hyps(1) show ?case
    by (auto simp: sem_inv_def waiters_update list_all_update)
qed

lemma sem_init_inv: "0 \<le> v \<Longrightarrow> v \<le> 32767 \<Longrightarrow> sem_inv v (sem_init n v)"
  by (auto simp: sem_inv_def sem_init_def su_new_def list_all_iff filter_empty_conv)

section \<open>Operations on arrays\<close>

lemma apply1_values [simp]:
  "sa_values (sa_apply1 b a) = (sa_values a)[unat (sem_num b) := i32_wrap (sa_values a ! unat (sem_num b) + sint (sem_op b))]"
  by (simp add: sa_apply1_def Let_def)

lemma length_apply [simp]: "length (sa_values (fold sa_apply1 ops a)) = length (sa_values a)"
  by (induction ops arbitrary: a) simp_all

lemma apply_other:
  "k \<notin> (\<lambda>b. unat (sem_num b)) ` set ops \<Longrightarrow> sa_values (fold sa_apply1 ops a) ! k = sa_values a ! k"
  by (induction ops arbitrary: a) auto

text \<open>With one operation per semaphore the second pass stores what the first pass has checked.\<close>

lemma apply_distinct:
  assumes "distinct (map sem_num ops)" "b \<in> set ops" "unat (sem_num b) < length (sa_values a)"
  shows "sa_values (fold sa_apply1 ops a) ! unat (sem_num b) =
    i32_wrap (sa_values a ! unat (sem_num b) + sint (sem_op b))"
  using assms
proof (induction ops arbitrary: a)
  case (Cons c ops)
  show ?case
  proof (cases "b = c")
    case True
    with Cons.prems(1) have "unat (sem_num b) \<notin> (\<lambda>b. unat (sem_num b)) ` set ops"
      by (auto simp: word_unat_eq_iff)
    with True Cons.prems(3) show ?thesis by (simp add: apply_other)
  next
    case False
    with Cons.prems have "b \<in> set ops" by simp
    with Cons.prems(1) have "unat (sem_num c) \<noteq> unat (sem_num b)"
      by (auto simp: word_unat_eq_iff)
    with Cons.IH [of "sa_apply1 c a"] Cons.prems \<open>b \<in> set ops\<close> show ?thesis by simp
  qed
qed simp

lemma sa_check_Inr:
  "sa_check vs ops = Inr () \<longleftrightarrow> (\<forall>b \<in> set ops. unat (sem_num b) < length vs \<and>
     (let n = i32_wrap (vs ! unat (sem_num b) + sint (sem_op b)) in
      n \<le> SEMVMX \<and> (n < 0 \<longrightarrow> sem_flg b AND ucast IPC_NOWAIT = 0)))"
  by (induction ops) (auto simp: Let_def)

lemma checked_exact:
  assumes "\<forall>v \<in> set vs. 0 \<le> v \<and> v \<le> SEMVMX" and "\<forall>b \<in> set ops. sem_flg b AND ucast IPC_NOWAIT \<noteq> 0"
    and "sa_check vs ops = Inr ()" and "b \<in> set ops"
  defines "n \<equiv> vs ! unat (sem_num b) + sint (sem_op b)"
  shows "unat (sem_num b) < length vs \<and> i32_wrap n = n \<and> 0 \<le> n \<and> n \<le> SEMVMX"
proof -
  have k: "unat (sem_num b) < length vs" and c: "i32_wrap n \<le> SEMVMX" "\<not> i32_wrap n < 0"
    using assms(2-4) sa_check_Inr [of vs ops] by (auto simp: n_def Let_def)
  have "0 \<le> vs ! unat (sem_num b) \<and> vs ! unat (sem_num b) \<le> SEMVMX"
    using assms(1) nth_mem [OF k] by blast
  moreover have "- 32768 \<le> sint (sem_op b)" "sint (sem_op b) < 32768"
    using sint_ge [of "sem_op b"] sint_lt [of "sem_op b"] by simp_all
  ultimately have "i32_wrap n = n"
    by (intro i32_wrap_id) (simp_all add: n_def)
  with k c show ?thesis by simp
qed

section \<open>Properties\<close>

text \<open>
  C11. A semaphore is safe under every interleaving: whatever the tasks call and however their loads
  and compare-and-swaps interleave, the value stays between zero and \<open>SEMVMX\<close> and is the initial value
  plus the successful posts minus the successful waits, so no more waits succeed than there were
  units; the waiter count is the number of tasks inside \<open>wait\<close>.
\<close>

theorem sem_interleaving_safe:
  assumes "0 \<le> v" "v \<le> 32767" and "sem_step\<^sup>*\<^sup>* (sem_init n v) g"
  shows "0 \<le> su_value (sys_sem g) \<and> su_value (sys_sem g) \<le> 32767 \<and>
    su_value (sys_sem g) = v + int (sys_posted g) - int (sys_acquired g) \<and>
    su_waiters (sys_sem g) = of_nat (length (filter in_wait (sys_pcs g)))"
proof -
  have "sem_inv v g"
    using assms(3) by (induction rule: rtranclp_induct) (use sem_init_inv [OF assms(1,2)] sem_step_inv in auto)
  then show ?thesis by (auto simp: sem_inv_def)
qed

theorem sem_interleaving_safe_witness:
  "let g = \<lparr>sys_pcs = [WaitLoop, Idle], sys_sem = \<lparr>su_value = 1, su_max = SEMVMX, su_waiters = 1, su_pshared = False\<rparr>,
     sys_acquired = 0, sys_posted = 0\<rparr>
   in su_value (sys_sem g) = 1 + int (sys_posted g) - int (sys_acquired g)"
proof -
  let ?g = "\<lparr>sys_pcs = [WaitLoop, Idle], sys_sem = \<lparr>su_value = 1, su_max = SEMVMX, su_waiters = 1, su_pshared = False\<rparr>,
     sys_acquired = 0, sys_posted = 0\<rparr>"
  have "sem_step (sem_init 2 1) ?g"
    using sem_step.call [of 0 "sem_init 2 1" CallWait WaitLoop "(su_new 1 False)\<lparr>su_waiters := 1\<rparr>"]
    by (simp add: sem_init_def su_wait_enter_def su_new_def numeral_2_eq_2)
  then have "sem_step\<^sup>*\<^sup>* (sem_init 2 1) ?g" by simp
  from sem_interleaving_safe [OF _ _ this] show ?thesis by (simp add: Let_def)
qed

text \<open>
  C31. An operation on an array is all or nothing: if it fails, the array is unchanged; if it
  succeeds, with at most one entry per semaphore and every entry non-blocking, each named semaphore
  has changed by exactly its amount, the others are unchanged, and all values are still between zero
  and \<open>SEMVMX\<close>.
\<close>

theorem semop_all_or_nothing:
  assumes "\<forall>v \<in> set (sa_values a). 0 \<le> v \<and> v \<le> SEMVMX" and "distinct (map sem_num ops)"
    and "\<forall>b \<in> set ops. sem_flg b AND ucast IPC_NOWAIT \<noteq> 0" and "sa_op now ops a = (r, a')"
  shows "case r of
      Inl e \<Rightarrow> a' = a
    | Inr _ \<Rightarrow> (\<forall>b \<in> set ops. sa_get_val (sem_num b) a' = sa_get_val (sem_num b) a + sint (sem_op b)) \<and>
        (\<forall>n. n \<notin> sem_num ` set ops \<longrightarrow> sa_get_val n a' = sa_get_val n a) \<and>
        (\<forall>v \<in> set (sa_values a'). 0 \<le> v \<and> v \<le> SEMVMX)"
proof (cases "sa_check (sa_values a) ops")
  case (Inl e)
  with assms(4) have "r = Inl e" "a' = a" by (simp_all add: sa_op_def)
  then show ?thesis by simp
next
  case (Inr u)
  let ?vs = "sa_values a" and ?ws = "sa_values (fold sa_apply1 ops a)"
  have a': "sa_values a' = ?ws" "r = Inr ()"
    using assms(4) Inr by (auto simp: sa_op_def)
  have "sa_check ?vs ops = Inr ()" using Inr by simp
  note ok = checked_exact [OF assms(1,3) this]
  have hit: "?ws ! unat (sem_num b) = ?vs ! unat (sem_num b) + sint (sem_op b)" if "b \<in> set ops" for b
    using apply_distinct [OF assms(2) that] ok [OF that] by simp
  have miss: "?ws ! k = ?vs ! k" if "k \<notin> (\<lambda>b. unat (sem_num b)) ` set ops" for k
    using that by (rule apply_other)
  have "0 \<le> ?ws ! k \<and> ?ws ! k \<le> SEMVMX" if "k < length ?vs" for k
  proof (cases "k \<in> (\<lambda>b. unat (sem_num b)) ` set ops")
    case True
    then obtain b where "b \<in> set ops" "k = unat (sem_num b)" by blast
    with hit ok show ?thesis by simp
  next
    case False
    with miss that assms(1) show ?thesis by simp
  qed
  then have "\<forall>v \<in> set ?ws. 0 \<le> v \<and> v \<le> SEMVMX"
    by (auto simp: in_set_conv_nth)
  moreover have "\<forall>b \<in> set ops. sa_get_val (sem_num b) a' = sa_get_val (sem_num b) a + sint (sem_op b)"
    using hit ok a' by (simp add: sa_get_val_def)
  moreover have "unat n \<notin> (\<lambda>b. unat (sem_num b)) ` set ops" if "n \<notin> sem_num ` set ops" for n
    using that by (auto simp: word_unat_eq_iff [symmetric])
  then have "\<forall>n. n \<notin> sem_num ` set ops \<longrightarrow> sa_get_val n a' = sa_get_val n a"
    using miss a' by (simp add: sa_get_val_def)
  ultimately show ?thesis
    using a' by simp
qed

theorem semop_all_or_nothing_witness:
  "let a = (sa_new 0 1 5 2 0)\<lparr>sa_values := [3, 4]\<rparr>; b = \<lparr>sem_num = 1, sem_op = - 2, sem_flg = 0x800\<rparr>
   in sa_get_val 1 (snd (sa_op 9 [b] a)) = 2 \<and> sa_get_val 0 (snd (sa_op 9 [b] a)) = 3"
proof -
  let ?a = "(sa_new 0 1 5 2 0)\<lparr>sa_values := [3, 4]\<rparr>" and ?b = "\<lparr>sem_num = 1, sem_op = - 2, sem_flg = 0x800\<rparr>"
  have s: "sint (- 2 :: u16) = - 2" by simp
  have r: "sa_op 9 [?b] ?a = (Inr (), snd (sa_op 9 [?b] ?a))"
    by (simp add: sa_op_def s i32_wrap_id Let_def)
  have v: "\<forall>v \<in> set (sa_values ?a). 0 \<le> v \<and> v \<le> SEMVMX" by simp
  have "distinct (map sem_num [?b])" "\<forall>b \<in> set [?b]. sem_flg b AND ucast IPC_NOWAIT \<noteq> 0"
    by simp_all
  from semop_all_or_nothing [OF v this r]
  have "sa_get_val 1 (snd (sa_op 9 [?b] ?a)) = sa_get_val 1 ?a + sint (- 2 :: u16)"
    "sa_get_val 0 (snd (sa_op 9 [?b] ?a)) = sa_get_val 0 ?a" by simp_all
  moreover have "sa_get_val 1 ?a = 4" "sa_get_val 0 ?a = 3" by (simp_all add: sa_get_val_def)
  ultimately show ?thesis
    unfolding Let_def s by simp
qed

text \<open>
  A blocking decrement does not block: an operation without \<open>IPC_NOWAIT\<close> that takes more than the
  semaphore holds succeeds at once and leaves the value negative.
\<close>

lemma semop_goes_negative:
  assumes "unat n < length (sa_values a)" "0 \<le> sa_values a ! unat n" "sa_values a ! unat n < 32767"
  shows "let b = \<lparr>sem_num = n, sem_op = word_of_int (- sa_values a ! unat n - 1), sem_flg = 0\<rparr>; r = sa_op now [b] a
    in fst r = Inr () \<and> sa_get_val n (snd r) = - 1"
proof -
  have "sint (word_of_int (- sa_values a ! unat n - 1) :: u16) = - sa_values a ! unat n - 1"
    unfolding signed_of_int of_int_eq_id id_apply
    by (rule signed_take_bit_int_eq_self) (use assms(2,3) in simp_all)
  then show ?thesis
    using assms(1) by (simp add: sa_op_def sa_get_val_def i32_wrap_id Let_def)
qed

text \<open>
  The usual life of a named semaphore hangs the kernel: after creating, unlinking and closing it
  once, the close locks the table of names that it already holds and never returns.
\<close>

lemma sem_close_after_unlink_deadlocks:
  assumes "sm_named m name = None" and "oflag AND IPC_CREAT \<noteq> 0"
  shows "let m1 = snd (sem_open name oflag v m); (r2, m2) = sem_unlink name m1
    in r2 = Finishes (Inr ()) \<and> fst (sem_close name m2) = Deadlocks"
  using assms by (simp add: sem_open_def sem_unlink_def sem_close_def sn_new_def sn_unlink_def sn_close_def Let_def)

text \<open>
  C40. The loops end for a task that runs undisturbed: from any point of any of the three operations,
  however stale the value it has loaded, a task that takes three steps in a row has returned,
  provided that a task inside \<open>wait\<close> finds the semaphore positive.
\<close>

fun su_solo :: "nat \<Rightarrow> sem_pc \<Rightarrow> sem_unnamed \<Rightarrow> sem_pc \<times> sem_unnamed" where
  "su_solo 0 pc s = (pc, s)"
| "su_solo (Suc n) pc s = (let (pc, r, s) = su_advance pc s in su_solo n pc s)"

theorem sem_solo_terminates:
  assumes "in_wait pc \<longrightarrow> 0 < su_value s"
  shows "fst (su_solo 3 pc s) = Idle"
  using assms
  by (cases pc) (auto simp: numeral_3_eq_3 su_wait_load_def su_wait_cas_def su_trywait_load_def su_trywait_cas_def
      su_post_load_def su_post_cas_def Let_def)

theorem sem_solo_terminates_witness:
  "0 < su_value (su_new 2 False) \<and> fst (su_solo 3 (WaitCas 7) (su_new 2 False)) = Idle"
  using sem_solo_terminates [of "WaitCas 7" "su_new 2 False"] by (simp add: su_new_def)

end
