(* ===== verification/Msgq.thy ===== *)
theory Msgq
  imports EchOS_Prelude "HOL-Library.Multiset"
begin

text \<open>
  Message queues, after \<open>src/src/posix/msgq.rs\<close>: the System V queue with its type-selective receive, the
  POSIX queue with priorities, the manager of both and the system calls.  The manager's lock is held
  during a System V send or receive, so each is one step; a POSIX operation is modelled as one step
  too.  The tick counter is an argument.
\<close>

section \<open>System V queues\<close>

abbreviation MSG_IPC_CREAT :: u32 where "MSG_IPC_CREAT \<equiv> 0x0200"
abbreviation MSG_IPC_EXCL :: u32 where "MSG_IPC_EXCL \<equiv> 0x0400"
abbreviation MSGMAX :: nat where "MSGMAX \<equiv> 8192"
abbreviation MSGMNB :: nat where "MSGMNB \<equiv> 16384"
abbreviation MSGTQL :: nat where "MSGTQL \<equiv> 256"

datatype msg_error = MNotFound | MAlreadyExists | MWouldBlock | MessageTooLong | MInvalidCommand | MPermissionDenied

record sysv_message =
  mtype :: int
  mdata :: "u8 list"

record sysv_queue =
  sq_id :: int
  sq_key :: int
  sq_mode :: u16
  sq_messages :: "sysv_message list"
  sq_msg_bytes_max :: nat
  sq_current_bytes :: u64
  sq_msg_max :: nat
  sq_current_msgs :: u32
  sq_lspid :: u32
  sq_lrpid :: u32
  sq_stime :: u64
  sq_rtime :: u64
  sq_ctime :: u64
  sq_uid :: u32
  sq_gid :: u32

definition sq_new :: "u64 \<Rightarrow> int \<Rightarrow> int \<Rightarrow> u16 \<Rightarrow> sysv_queue" where
  "sq_new now i key mode =
     \<lparr>sq_id = i, sq_key = key, sq_mode = mode, sq_messages = [], sq_msg_bytes_max = MSGMNB,
      sq_current_bytes = 0, sq_msg_max = MSGTQL, sq_current_msgs = 0, sq_lspid = 0, sq_lrpid = 0,
      sq_stime = 0, sq_rtime = 0, sq_ctime = now, sq_uid = 0, sq_gid = 0\<rparr>"

text \<open>Both arms of the full-queue branch, with and without \<open>IPC_NOWAIT\<close>, return the same error.\<close>

definition sq_send :: "u64 \<Rightarrow> sysv_message \<Rightarrow> sysv_queue \<Rightarrow> (msg_error + unit) \<times> sysv_queue" where
  "sq_send now msg q =
     (if MSGMAX < length (mdata msg) then (Inl MessageTooLong, q)
      else if of_nat (sq_msg_bytes_max q) < sq_current_bytes q + of_nat (length (mdata msg)) then (Inl MWouldBlock, q)
      else (Inr (), q\<lparr>sq_messages := sq_messages q @ [msg],
              sq_current_bytes := sq_current_bytes q + of_nat (length (mdata msg)),
              sq_current_msgs := sq_current_msgs q + 1, sq_stime := now, sq_lspid := 0\<rparr>))"

definition sq_select :: "int \<Rightarrow> sysv_message list \<Rightarrow> nat option" where
  "sq_select mt ms =
     (if mt = 0 then (if ms = [] then None else Some 0)
      else if 0 < mt then position (\<lambda>m. mtype m = mt) ms
      else let abs_type = (- mt) mod 2 ^ 64 in position (\<lambda>m. mtype m mod 2 ^ 64 \<le> abs_type) ms)"

definition sq_recv :: "u64 \<Rightarrow> int \<Rightarrow> sysv_queue \<Rightarrow> (msg_error + sysv_message) \<times> sysv_queue" where
  "sq_recv now mt q =
     (case sq_select mt (sq_messages q) of
        None \<Rightarrow> (Inl MWouldBlock, q)
      | Some idx \<Rightarrow>
          let msg = sq_messages q ! idx in
          (Inr msg, q\<lparr>sq_messages := vec_remove idx (sq_messages q),
             sq_current_bytes := sq_current_bytes q - of_nat (length (mdata msg)),
             sq_current_msgs := sq_current_msgs q - 1, sq_rtime := now, sq_lrpid := 0\<rparr>))"

record msq_stats =
  msg_qbytes :: u64
  msg_qnum :: u64
  msg_lspid :: u32
  msg_lrpid :: u32
  msg_stime :: u64
  msg_rtime :: u64
  msg_ctime :: u64

definition sq_get_stats :: "sysv_queue \<Rightarrow> msq_stats" where
  "sq_get_stats q = \<lparr>msg_qbytes = of_nat (sq_msg_bytes_max q), msg_qnum = ucast (sq_current_msgs q),
     msg_lspid = sq_lspid q, msg_lrpid = sq_lrpid q, msg_stime = sq_stime q, msg_rtime = sq_rtime q,
     msg_ctime = sq_ctime q\<rparr>"

section \<open>POSIX queues\<close>

record posix_message =
  pm_priority :: u32
  pm_data :: "u8 list"

record notify_info =
  n_pid :: u32
  n_sig :: u32

record posix_queue =
  pq_name :: string
  pq_messages :: "posix_message list"
  pq_maxmsg :: u32
  pq_msgsize :: u32
  pq_curmsgs :: u32
  pq_flags :: u32
  pq_nonblocking :: bool
  pq_ref_count :: u32
  pq_notify :: "notify_info option"

definition pq_new :: "string \<Rightarrow> u32 \<Rightarrow> u32 \<Rightarrow> posix_queue" where
  "pq_new name maxmsg msgsize =
     \<lparr>pq_name = name, pq_messages = [], pq_maxmsg = maxmsg, pq_msgsize = msgsize, pq_curmsgs = 0,
      pq_flags = 0, pq_nonblocking = False, pq_ref_count = 1, pq_notify = None\<rparr>"

text \<open>\<^verbatim>\<open>Vec::insert(pos, x)\<close> for a position in range; the notification only writes to the log.\<close>

definition vec_insert :: "nat \<Rightarrow> 'a \<Rightarrow> 'a list \<Rightarrow> 'a list" where
  "vec_insert i x xs = take i xs @ x # drop i xs"

definition pq_send :: "posix_message \<Rightarrow> posix_queue \<Rightarrow> (msg_error + unit) \<times> posix_queue" where
  "pq_send msg q =
     (if unat (pq_msgsize q) < length (pm_data msg) then (Inl MessageTooLong, q)
      else if pq_maxmsg q \<le> pq_curmsgs q then (Inl MWouldBlock, q)
      else
        let ms = pq_messages q;
            pos = (case position (\<lambda>m. pm_priority m < pm_priority msg) ms of Some p \<Rightarrow> p | None \<Rightarrow> length ms) in
        (Inr (), q\<lparr>pq_messages := vec_insert pos msg ms, pq_curmsgs := pq_curmsgs q + 1\<rparr>))"

definition pq_recv :: "posix_queue \<Rightarrow> (msg_error + posix_message) \<times> posix_queue" where
  "pq_recv q =
     (if pq_curmsgs q = 0 then (Inl MWouldBlock, q)
      else if pq_messages q = [] then (Inl MWouldBlock, q)
      else (Inr (last (pq_messages q)),
            q\<lparr>pq_messages := butlast (pq_messages q), pq_curmsgs := pq_curmsgs q - 1\<rparr>))"

record mq_attr =
  mqa_flags :: u32
  mqa_maxmsg :: u32
  mqa_msgsize :: u32
  mqa_curmsgs :: u32

definition pq_get_attr :: "posix_queue \<Rightarrow> mq_attr" where
  "pq_get_attr q = \<lparr>mqa_flags = pq_flags q, mqa_maxmsg = pq_maxmsg q, mqa_msgsize = pq_msgsize q,
     mqa_curmsgs = pq_curmsgs q\<rparr>"

abbreviation MQ_O_NONBLOCK :: u32 where "MQ_O_NONBLOCK \<equiv> 0x800"

definition pq_set_attr :: "u32 \<Rightarrow> posix_queue \<Rightarrow> posix_queue" where
  "pq_set_attr flags q = q\<lparr>pq_flags := flags, pq_nonblocking := (flags AND MQ_O_NONBLOCK \<noteq> 0)\<rparr>"

section \<open>The manager\<close>

record msg_stats =
  ms_sysv_queues :: u32
  ms_posix_queues :: u32
  ms_messages_sent :: u64
  ms_messages_received :: u64

record msg_manager =
  mm_sysv :: "(int, sysv_queue) btree"
  mm_posix :: "string \<rightharpoonup> nat"
  mm_posix_store :: "posix_queue list"
  mm_next_sysv_id :: int
  mm_stats :: msg_stats

definition mm_new :: msg_manager where
  "mm_new = \<lparr>mm_sysv = [], mm_posix = Map.empty, mm_posix_store = [], mm_next_sysv_id = 1,
     mm_stats = \<lparr>ms_sysv_queues = 0, ms_posix_queues = 0, ms_messages_sent = 0, ms_messages_received = 0\<rparr>\<rparr>"

definition msgget :: "u64 \<Rightarrow> int \<Rightarrow> u32 \<Rightarrow> msg_manager \<Rightarrow> (msg_error + int) \<times> msg_manager" where
  "msgget now key msgflg m =
     (case find (\<lambda>(_, q). sq_key q = key \<and> key \<noteq> 0) (mm_sysv m) of
        Some (_, q) \<Rightarrow> if msgflg AND MSG_IPC_EXCL \<noteq> 0 then (Inl MAlreadyExists, m) else (Inr (sq_id q), m)
      | None \<Rightarrow>
          if msgflg AND MSG_IPC_CREAT = 0 then (Inl MNotFound, m)
          else let i = mm_next_sysv_id m; q = sq_new now i key (ucast (msgflg AND 0x1FF)); st = mm_stats m in
            (Inr i, m\<lparr>mm_next_sysv_id := i32_wrap (i + 1), mm_sysv := bt_insert i q (mm_sysv m),
                      mm_stats := st\<lparr>ms_sysv_queues := ms_sysv_queues st + 1\<rparr>\<rparr>))"

definition msgctl :: "int \<Rightarrow> int \<Rightarrow> msg_manager \<Rightarrow> (msg_error + msq_stats) \<times> msg_manager" where
  "msgctl msqid cmd m =
     (if cmd = 0 then
        (Inr \<lparr>msg_qbytes = 0, msg_qnum = 0, msg_lspid = 0, msg_lrpid = 0, msg_stime = 0, msg_rtime = 0, msg_ctime = 0\<rparr>,
         m\<lparr>mm_sysv := bt_remove msqid (mm_sysv m)\<rparr>)
      else if cmd = 2 then
        (case bt_get (mm_sysv m) msqid of None \<Rightarrow> (Inl MNotFound, m) | Some q \<Rightarrow> (Inr (sq_get_stats q), m))
      else (Inl MInvalidCommand, m))"

definition msgsnd :: "u64 \<Rightarrow> int \<Rightarrow> sysv_message \<Rightarrow> msg_manager \<Rightarrow> (msg_error + unit) \<times> msg_manager" where
  "msgsnd now msqid msg m =
     (case bt_get (mm_sysv m) msqid of
        None \<Rightarrow> (Inl MNotFound, m)
      | Some q \<Rightarrow> let (r, q) = sq_send now msg q; st = mm_stats m in
          (r, m\<lparr>mm_sysv := bt_insert msqid q (mm_sysv m),
                mm_stats := st\<lparr>ms_messages_sent := ms_messages_sent st + 1\<rparr>\<rparr>))"

definition msgrcv :: "u64 \<Rightarrow> int \<Rightarrow> int \<Rightarrow> msg_manager \<Rightarrow> (msg_error + sysv_message) \<times> msg_manager" where
  "msgrcv now msqid mt m =
     (case bt_get (mm_sysv m) msqid of
        None \<Rightarrow> (Inl MNotFound, m)
      | Some q \<Rightarrow> let (r, q) = sq_recv now mt q; st = mm_stats m in
          (r, m\<lparr>mm_sysv := bt_insert msqid q (mm_sysv m),
                mm_stats := st\<lparr>ms_messages_received := ms_messages_received st + 1\<rparr>\<rparr>))"

definition mq_open :: "string \<Rightarrow> u32 \<Rightarrow> mq_attr option \<Rightarrow> msg_manager \<Rightarrow> (msg_error + nat) \<times> msg_manager" where
  "mq_open name oflag attr m =
     (case mm_posix m name of
        Some i \<Rightarrow>
          if oflag AND MSG_IPC_EXCL \<noteq> 0 then (Inl MAlreadyExists, m)
          else let q = mm_posix_store m ! i in
            (Inr i, m\<lparr>mm_posix_store := (mm_posix_store m)[i := q\<lparr>pq_ref_count := pq_ref_count q + 1\<rparr>]\<rparr>)
      | None \<Rightarrow>
          if oflag AND MSG_IPC_CREAT = 0 then (Inl MNotFound, m)
          else let (maxmsg, msgsize) = (case attr of Some a \<Rightarrow> (mqa_maxmsg a, mqa_msgsize a) | None \<Rightarrow> (10, 8192));
                   i = length (mm_posix_store m); st = mm_stats m in
            (Inr i, m\<lparr>mm_posix_store := mm_posix_store m @ [pq_new name maxmsg msgsize],
                      mm_posix := (mm_posix m)(name \<mapsto> i),
                      mm_stats := st\<lparr>ms_posix_queues := ms_posix_queues st + 1\<rparr>\<rparr>))"

definition mq_close :: "string \<Rightarrow> msg_manager \<Rightarrow> (msg_error + unit) \<times> msg_manager" where
  "mq_close name m =
     (case mm_posix m name of
        None \<Rightarrow> (Inl MNotFound, m)
      | Some i \<Rightarrow> let q = mm_posix_store m ! i in
          (Inr (), m\<lparr>mm_posix_store := (mm_posix_store m)[i := q\<lparr>pq_ref_count := pq_ref_count q - 1\<rparr>]\<rparr>))"

definition mq_unlink :: "string \<Rightarrow> msg_manager \<Rightarrow> (msg_error + unit) \<times> msg_manager" where
  "mq_unlink name m = (Inr (), m\<lparr>mm_posix := (mm_posix m)(name := None)\<rparr>)"

definition sys_msgget :: "u64 \<Rightarrow> int \<Rightarrow> u32 \<Rightarrow> msg_manager \<Rightarrow> int \<times> msg_manager" where
  "sys_msgget now key msgflg m =
     (case msgget now key msgflg m of
        (Inr i, m) \<Rightarrow> (i, m) | (Inl MNotFound, m) \<Rightarrow> (- 2, m) | (Inl MAlreadyExists, m) \<Rightarrow> (- 17, m) | (Inl _, m) \<Rightarrow> (- 22, m))"

definition sys_msgsnd :: "u64 \<Rightarrow> int \<Rightarrow> int \<Rightarrow> u8 list \<Rightarrow> msg_manager \<Rightarrow> int \<times> msg_manager" where
  "sys_msgsnd now msqid mt data m =
     (case msgsnd now msqid \<lparr>mtype = mt, mdata = data\<rparr> m of
        (Inr _, m) \<Rightarrow> (0, m) | (Inl MWouldBlock, m) \<Rightarrow> (- 11, m) | (Inl _, m) \<Rightarrow> (- 22, m))"

text \<open>The result and the bytes copied to the front of a buffer of \<open>n\<close> bytes.\<close>

definition sys_msgrcv :: "u64 \<Rightarrow> int \<Rightarrow> int \<Rightarrow> nat \<Rightarrow> msg_manager \<Rightarrow> int \<times> u8 list \<times> msg_manager" where
  "sys_msgrcv now msqid mt n m =
     (case msgrcv now msqid mt m of
        (Inr msg, m) \<Rightarrow> let len = min (length (mdata msg)) n in (int len, take len (mdata msg), m)
      | (Inl MWouldBlock, m) \<Rightarrow> (- 11, [], m)
      | (Inl _, m) \<Rightarrow> (- 22, [], m))"

section \<open>Runs on a System V queue\<close>

datatype sq_op = SSend u64 sysv_message | SRecv u64 int

fun sq_run :: "sq_op list \<Rightarrow> sysv_queue \<Rightarrow> sysv_message list \<times> sysv_message list \<times> sysv_queue" where
  "sq_run [] q = ([], [], q)"
| "sq_run (SSend now msg # ops) q =
     (let (r, q) = sq_send now msg q; (ins, outs, t) = sq_run ops q in
      (if r = Inr () then msg # ins else ins, outs, t))"
| "sq_run (SRecv now mt # ops) q =
     (let (r, q) = sq_recv now mt q; (ins, outs, t) = sq_run ops q in
      (ins, case r of Inr m \<Rightarrow> m # outs | Inl _ \<Rightarrow> outs, t))"

definition of_type :: "int \<Rightarrow> sysv_message list \<Rightarrow> sysv_message list" where
  "of_type k ms = filter (\<lambda>m. mtype m = k) ms"

lemma of_type_simps [simp]: "of_type k [] = []"
  "of_type k (m # ms) = (if mtype m = k then m # of_type k ms else of_type k ms)"
  "of_type k (as @ bs) = of_type k as @ of_type k bs"
  by (simp_all add: of_type_def)

text \<open>
  Whatever the request, the message chosen is the oldest of its type: the choice only looks at types
  and takes the first match.
\<close>

lemma position_oldest:
  assumes "position P ms = Some i" and "\<And>a b. mtype a = mtype b \<Longrightarrow> P a = P b"
  shows "of_type k ms = (if mtype (ms ! i) = k then [ms ! i] else []) @ of_type k (vec_remove i ms)"
proof -
  note p = position_SomeD [OF assms(1)]
  then have split: "ms = take i ms @ ms ! i # drop (Suc i) ms"
    by (simp add: id_take_nth_drop)
  have "of_type (mtype (ms ! i)) (take i ms) = []"
    unfolding of_type_def filter_empty_conv
  proof
    fix x assume "x \<in> set (take i ms)"
    then obtain j where "j < i" "x = ms ! j" by (auto simp: in_set_conv_nth)
    with p assms(2) show "mtype x \<noteq> mtype (ms ! i)" by blast
  qed
  moreover have "of_type k ms = of_type k (take i ms) @ of_type k [ms ! i] @ of_type k (drop (Suc i) ms)"
    by (subst split) simp
  ultimately show ?thesis by (auto simp: vec_remove_def)
qed

lemma select_oldest:
  assumes "sq_select mt ms = Some i"
  shows "i < length ms"
    and "of_type k ms = (if mtype (ms ! i) = k then [ms ! i] else []) @ of_type k (vec_remove i ms)"
proof -
  obtain P where P: "position P ms = Some i" "\<And>a b. mtype a = mtype b \<Longrightarrow> P a = P b"
  proof (cases "mt = 0")
    case True
    with assms have "position (\<lambda>m. True) ms = Some i"
      by (cases ms) (auto simp: sq_select_def split: if_splits)
    then show ?thesis by (rule that) simp
  next
    case False
    with assms show ?thesis
      by (auto simp: sq_select_def Let_def split: if_splits intro: that)
  qed
  show "i < length ms" using position_SomeD [OF P(1)] by simp
  show "of_type k ms = (if mtype (ms ! i) = k then [ms ! i] else []) @ of_type k (vec_remove i ms)"
    using P by (rule position_oldest)
qed

definition bytes :: "sysv_message list \<Rightarrow> nat" where
  "bytes ms = sum_list (map (\<lambda>m. length (mdata m)) ms)"

definition sq_inv :: "sysv_queue \<Rightarrow> bool" where
  "sq_inv q \<longleftrightarrow> sq_msg_bytes_max q = 16384 \<and> bytes (sq_messages q) \<le> 16384 \<and>
     sq_current_bytes q = of_nat (bytes (sq_messages q)) \<and> sq_current_msgs q = of_nat (length (sq_messages q))"

lemma bytes_remove: "i < length ms \<Longrightarrow> bytes (vec_remove i ms) + length (mdata (ms ! i)) = bytes ms"
  by (subst (3) id_take_nth_drop [of i ms]) (simp_all add: bytes_def vec_remove_def)

lemma sq_send_spec:
  assumes inv: "sq_inv q" and s: "sq_send now msg q = (r, q')"
  shows "sq_inv q' \<and> sq_messages q' = (if r = Inr () then sq_messages q @ [msg] else sq_messages q) \<and>
    (r = Inr () \<longleftrightarrow> length (mdata msg) \<le> 8192 \<and> bytes (sq_messages q) + length (mdata msg) \<le> 16384)"
proof (cases "length (mdata msg) \<le> 8192")
  case False
  with s inv show ?thesis by (auto simp: sq_send_def)
next
  case True
  let ?n = "bytes (sq_messages q) + length (mdata msg)"
  have cur: "sq_current_bytes q + of_nat (length (mdata msg)) = of_nat ?n"
    using inv by (simp add: sq_inv_def)
  have "unat (of_nat ?n :: u64) = ?n"
    by (rule unat_of_nat_small) (use inv True in \<open>simp add: sq_inv_def\<close>)
  then have full: "of_nat (sq_msg_bytes_max q) < sq_current_bytes q + of_nat (length (mdata msg)) \<longleftrightarrow> 16384 < ?n"
    unfolding cur word_less_nat_alt using inv by (simp add: sq_inv_def)
  show ?thesis
    using s inv True by (auto simp: sq_send_def full sq_inv_def bytes_def split: if_splits)
qed

lemma sq_recv_spec:
  assumes inv: "sq_inv q" and s: "sq_recv now mt q = (r, q')"
  shows "sq_inv q' \<and> (case r of
      Inl e \<Rightarrow> e = MWouldBlock \<and> sq_messages q' = sq_messages q
    | Inr m \<Rightarrow> \<forall>k. of_type k (sq_messages q) = (if mtype m = k then [m] else []) @ of_type k (sq_messages q'))"
proof (cases "sq_select mt (sq_messages q)")
  case None
  with s inv show ?thesis by (auto simp: sq_recv_def)
next
  case (Some i)
  let ?ms = "sq_messages q" and ?m = "sq_messages q ! i"
  have i: "i < length ?ms" using select_oldest(1) [OF Some] .
  have b: "bytes (vec_remove i ?ms) + length (mdata ?m) = bytes ?ms" using i by (rule bytes_remove)
  then have "(of_nat (bytes ?ms) :: u64) = of_nat (bytes (vec_remove i ?ms)) + of_nat (length (mdata ?m))"
    by (simp flip: of_nat_add)
  moreover have "length ?ms = Suc (length (vec_remove i ?ms))"
    using i by simp
  then have "(of_nat (length ?ms) :: u32) = of_nat (length (vec_remove i ?ms)) + 1"
    by (simp only: of_nat_Suc add.commute)
  ultimately have "sq_inv (q\<lparr>sq_messages := vec_remove i ?ms,
      sq_current_bytes := sq_current_bytes q - of_nat (length (mdata ?m)),
      sq_current_msgs := sq_current_msgs q - 1, sq_rtime := now, sq_lrpid := 0\<rparr>)"
    using inv b by (simp add: sq_inv_def)
  with s Some select_oldest(2) [OF Some] show ?thesis
    by (auto simp: sq_recv_def Let_def)
qed

lemma sq_run_exact:
  assumes "sq_inv q" and "sq_run ops q = (ins, outs, t)"
  shows "sq_inv t \<and> of_type k (sq_messages q) @ of_type k ins = of_type k outs @ of_type k (sq_messages t)"
  using assms
proof (induction ops arbitrary: q ins outs)
  case (Cons a ops)
  show ?case
  proof (cases a)
    case (SSend now msg)
    obtain r q' where s: "sq_send now msg q = (r, q')" by fastforce
    obtain ins' where run: "sq_run ops q' = (ins', outs, t)" and ins: "ins = (if r = Inr () then msg # ins' else ins')"
      using Cons.prems(2) SSend s by (auto split: prod.splits)
    note spec = sq_send_spec [OF Cons.prems(1) s]
    then have "sq_inv q'" by blast
    from Cons.IH [OF this run] spec ins show ?thesis by (auto split: if_splits)
  next
    case (SRecv now mt)
    obtain r q' where s: "sq_recv now mt q = (r, q')" by fastforce
    obtain outs' where run: "sq_run ops q' = (ins, outs', t)"
      and outs: "outs = (case r of Inr m \<Rightarrow> m # outs' | Inl _ \<Rightarrow> outs')"
      using Cons.prems(2) SRecv s by (auto split: prod.splits)
    note spec = sq_recv_spec [OF Cons.prems(1) s]
    then have "sq_inv q'" by blast
    from Cons.IH [OF this run] spec outs show ?thesis by (auto split: sum.splits)
  qed
qed simp

section \<open>Runs on a POSIX queue\<close>

datatype pq_op = PQSend posix_message | PQRecv | PQSetAttr u32

fun pq_run :: "pq_op list \<Rightarrow> posix_queue \<Rightarrow> posix_message list \<times> posix_message list \<times> posix_queue" where
  "pq_run [] q = ([], [], q)"
| "pq_run (PQSend msg # ops) q =
     (let (r, q) = pq_send msg q; (ins, outs, t) = pq_run ops q in
      (if r = Inr () then msg # ins else ins, outs, t))"
| "pq_run (PQRecv # ops) q =
     (let (r, q) = pq_recv q; (ins, outs, t) = pq_run ops q in
      (ins, case r of Inr m \<Rightarrow> m # outs | Inl _ \<Rightarrow> outs, t))"
| "pq_run (PQSetAttr f # ops) q = pq_run ops (pq_set_attr f q)"

definition pq_inv :: "posix_queue \<Rightarrow> bool" where
  "pq_inv q \<longleftrightarrow> sorted_wrt (\<lambda>a b. pm_priority b \<le> pm_priority a) (pq_messages q) \<and>
     length (pq_messages q) = unat (pq_curmsgs q) \<and> pq_curmsgs q \<le> pq_maxmsg q"

lemma insert_by_priority:
  fixes msg :: posix_message
  assumes "sorted_wrt (\<lambda>a b. pm_priority b \<le> pm_priority a) ms"
  defines "pos \<equiv> (case position (\<lambda>m. pm_priority m < pm_priority msg) ms of Some p \<Rightarrow> p | None \<Rightarrow> length ms)"
  shows "sorted_wrt (\<lambda>a b. pm_priority b \<le> pm_priority a) (vec_insert pos msg ms)"
    and "mset (vec_insert pos msg ms) = add_mset msg (mset ms)"
    and "length (vec_insert pos msg ms) = Suc (length ms)"
proof -
  let ?le = "\<lambda>a b. pm_priority b \<le> pm_priority a"
  have ms: "ms = take pos ms @ drop pos ms" by simp
  then have s: "sorted_wrt ?le (take pos ms)" "sorted_wrt ?le (drop pos ms)"
    "\<forall>x \<in> set (take pos ms). \<forall>y \<in> set (drop pos ms). ?le x y"
    using assms(1) sorted_wrt_append [of ?le "take pos ms" "drop pos ms"] by simp_all
  have before: "?le x msg" if "x \<in> set (take pos ms)" for x
  proof (cases "position (\<lambda>m. pm_priority m < pm_priority msg) ms")
    case None
    with that show ?thesis by (auto simp: position_None_iff not_less dest: in_set_takeD)
  next
    case (Some p)
    with that have "pos = p" by (simp add: pos_def)
    with that obtain j where "j < p" "x = ms ! j" by (auto simp: in_set_conv_nth)
    with position_SomeD [OF Some] show ?thesis by (auto simp: not_less)
  qed
  have after: "?le msg y" if "y \<in> set (drop pos ms)" for y
  proof (cases "position (\<lambda>m. pm_priority m < pm_priority msg) ms")
    case None
    with that show ?thesis by (simp add: pos_def)
  next
    case (Some p)
    then have p: "pos = p" "p < length ms" "pm_priority (ms ! p) < pm_priority msg"
      using position_SomeD [OF Some] by (simp_all add: pos_def)
    then have "drop pos ms = ms ! p # drop (Suc p) ms" by (simp add: Cons_nth_drop_Suc)
    with that s(2) have "pm_priority y \<le> pm_priority (ms ! p)" by auto
    with p show ?thesis by simp
  qed
  show "sorted_wrt ?le (vec_insert pos msg ms)"
    using s before after by (auto simp: vec_insert_def sorted_wrt_append)
  show "mset (vec_insert pos msg ms) = add_mset msg (mset ms)"
    using mset_append [of "take pos ms" "drop pos ms"] by (simp add: vec_insert_def del: mset_append)
      (simp add: union_mset_add_mset_right)
  show "length (vec_insert pos msg ms) = Suc (length ms)"
    by (simp add: vec_insert_def pos_def)
qed

lemma pq_send_spec:
  assumes inv: "pq_inv q" and s: "pq_send msg q = (r, q')"
  shows "pq_inv q' \<and> pq_maxmsg q' = pq_maxmsg q \<and>
    mset (pq_messages q') = (if r = Inr () then {#msg#} else {#}) + mset (pq_messages q)"
proof (cases "r = Inr ()")
  case False
  with s inv show ?thesis by (auto simp: pq_send_def Let_def split: if_splits)
next
  case True
  have room: "pq_curmsgs q < pq_maxmsg q"
    using s True by (auto simp: pq_send_def not_le split: if_splits)
  then have "pq_curmsgs q \<noteq> - 1" using word_order.extremum_strict by auto
  then have inc: "unat (pq_curmsgs q + 1) = Suc (unat (pq_curmsgs q))" by (rule unat_inc)
  have "pq_curmsgs q + 1 \<le> pq_maxmsg q"
    using room inc by (simp add: word_le_nat_alt word_less_nat_alt)
  then show ?thesis
    using s True inv inc insert_by_priority [of "pq_messages q" msg]
    by (auto simp: pq_send_def pq_inv_def Let_def split: if_splits)
qed

lemma pq_recv_spec:
  assumes inv: "pq_inv q" and s: "pq_recv q = (r, q')"
  shows "pq_inv q' \<and> pq_maxmsg q' = pq_maxmsg q \<and> (case r of
      Inl e \<Rightarrow> e = MWouldBlock \<and> pq_messages q = [] \<and> q' = q
    | Inr m \<Rightarrow> pq_messages q = pq_messages q' @ [m] \<and> (\<forall>x \<in> set (pq_messages q). pm_priority m \<le> pm_priority x))"
proof (cases "pq_messages q" rule: rev_cases)
  case Nil
  with s inv show ?thesis by (auto simp: pq_recv_def pq_inv_def split: if_splits)
next
  case (snoc ms m)
  then have n: "pq_curmsgs q \<noteq> 0" using inv by (auto simp: pq_inv_def)
  then have "Suc (unat (pq_curmsgs q - 1)) = unat (pq_curmsgs q)" by (rule unat_dec)
  moreover from this have "pq_curmsgs q - 1 \<le> pq_maxmsg q"
    using inv by (simp add: pq_inv_def word_le_nat_alt)
  ultimately show ?thesis
    using s snoc n inv by (auto simp: pq_recv_def pq_inv_def sorted_wrt_append)
qed

lemma pq_run_exact:
  assumes "pq_inv q" and "pq_run ops q = (ins, outs, t)"
  shows "pq_inv t \<and> pq_maxmsg t = pq_maxmsg q \<and>
    mset (pq_messages q) + mset ins = mset outs + mset (pq_messages t)"
  using assms
proof (induction ops arbitrary: q ins outs)
  case (Cons a ops)
  show ?case
  proof (cases a)
    case (PQSend msg)
    obtain r q' where s: "pq_send msg q = (r, q')" by fastforce
    obtain ins' where run: "pq_run ops q' = (ins', outs, t)" and ins: "ins = (if r = Inr () then msg # ins' else ins')"
      using Cons.prems(2) PQSend s by (auto split: prod.splits)
    note spec = pq_send_spec [OF Cons.prems(1) s]
    then have "pq_inv q'" by blast
    from Cons.IH [OF this run] spec ins show ?thesis by (auto split: if_splits)
  next
    case PQRecv
    obtain r q' where s: "pq_recv q = (r, q')" by fastforce
    obtain outs' where run: "pq_run ops q' = (ins, outs', t)"
      and outs: "outs = (case r of Inr m \<Rightarrow> m # outs' | Inl _ \<Rightarrow> outs')"
      using Cons.prems(2) PQRecv s by (auto split: prod.splits)
    note spec = pq_recv_spec [OF Cons.prems(1) s]
    then have "pq_inv q'" by blast
    from Cons.IH [OF this run] spec outs show ?thesis by (auto split: sum.splits)
  next
    case (PQSetAttr f)
    then have "pq_run ops (pq_set_attr f q) = (ins, outs, t)" using Cons.prems(2) by simp
    moreover have "pq_inv (pq_set_attr f q)" using Cons.prems(1) by (simp add: pq_inv_def pq_set_attr_def)
    ultimately show ?thesis using Cons.IH [of "pq_set_attr f q"] by (simp add: pq_set_attr_def)
  qed
qed simp

section \<open>Properties\<close>

text \<open>
  C33. A System V queue loses and reorders nothing within a type: after any sequence of sends and
  type-selective receives, the accepted messages of each type are the received ones, in order,
  followed by those still queued; the byte and message counters are exact, and the queued bytes
  never exceed 16384.
\<close>

theorem msgq_fifo_per_type:
  "case sq_run ops (sq_new now i key mode) of (sent, received, q) \<Rightarrow>
     of_type k sent = of_type k received @ of_type k (sq_messages q) \<and>
     bytes (sq_messages q) \<le> 16384 \<and> sq_current_bytes q = of_nat (bytes (sq_messages q)) \<and>
     sq_current_msgs q = of_nat (length (sq_messages q))"
proof -
  obtain ins outs q where run: "sq_run ops (sq_new now i key mode) = (ins, outs, q)"
    using prod_cases3 by blast
  have "sq_inv (sq_new now i key mode)"
    by (simp add: sq_inv_def sq_new_def bytes_def)
  from sq_run_exact [OF this run, of k] show ?thesis
    unfolding run prod.case sq_inv_def by (simp add: sq_new_def)
qed

text \<open>
  A POSIX queue keeps every message and its bound, but serves the lowest priority first: after
  any sequence of operations the accepted messages are the received and the queued ones, at most
  \<open>maxmsg\<close> are queued and the count is exact; a receive fails only on an empty queue and otherwise
  returns a message whose priority is the least of all queued ones.
\<close>

lemma posix_mq_serves_lowest:
  "case pq_run ops (pq_new name maxmsg msgsize) of (sent, received, q) \<Rightarrow>
     mset sent = mset received + mset (pq_messages q) \<and>
     length (pq_messages q) = unat (pq_curmsgs q) \<and> length (pq_messages q) \<le> unat maxmsg \<and>
     (case fst (pq_recv q) of
        Inl e \<Rightarrow> e = MWouldBlock \<and> pq_messages q = []
      | Inr m \<Rightarrow> m \<in> set (pq_messages q) \<and> pm_priority m = Min (pm_priority ` set (pq_messages q)))"
proof -
  obtain ins outs q where run: "pq_run ops (pq_new name maxmsg msgsize) = (ins, outs, q)"
    using prod_cases3 by blast
  have "pq_inv (pq_new name maxmsg msgsize)"
    by (simp add: pq_inv_def pq_new_def)
  from pq_run_exact [OF this run]
  have inv: "pq_inv q" and m: "pq_maxmsg q = maxmsg" "mset ins = mset outs + mset (pq_messages q)"
    by (simp_all add: pq_new_def)
  obtain r q' where r: "pq_recv q = (r, q')" by fastforce
  have "length (pq_messages q) \<le> unat maxmsg"
    using inv m(1) by (simp add: pq_inv_def word_le_nat_alt)
  moreover have "fst (pq_recv q) = r" "length (pq_messages q) = unat (pq_curmsgs q)"
    using r inv by (simp_all add: pq_inv_def)
  moreover have "case r of
      Inl e \<Rightarrow> e = MWouldBlock \<and> pq_messages q = []
    | Inr m \<Rightarrow> m \<in> set (pq_messages q) \<and> pm_priority m = Min (pm_priority ` set (pq_messages q))"
    using pq_recv_spec [OF inv r] by (auto split: sum.splits intro!: Min_eqI [symmetric])
  ultimately show ?thesis
    unfolding run prod.case using m by simp
qed

end
