(* ===== verification/Timing_Wheel.thy ===== *)
theory Timing_Wheel
  imports EchOS_Prelude "HOL-Library.Multiset"
begin

text \<open>
  The hierarchical timing wheel of \<open>src/src/task/timer.rs\<close>, which holds the sleeping tasks: four wheels
  of 256 buckets each.  The wheels are a function of the level and the bucket index, which the code
  keeps below 4 and 256.  Of a task only its identity and state matter.  The tick counter is a
  natural number: a 64-bit counter of milliseconds does not wrap.
\<close>

section \<open>Model\<close>

definition WHEEL_SIZE :: nat where "WHEEL_SIZE = 256"

datatype task_state = TReady | TRunning | TBlocked | TSleeping nat | TTerminated | TStopped | TZombie

record wheel_task =
  wt_id :: u64
  wt_state :: task_state

record timing_wheel =
  tw_wheels :: "nat \<Rightarrow> nat \<Rightarrow> wheel_task list"
  tw_current :: nat

definition tw_new :: timing_wheel where
  "tw_new = \<lparr>tw_wheels = (\<lambda>l i. []), tw_current = 0\<rparr>"

definition tw_push_back :: "nat \<Rightarrow> nat \<Rightarrow> wheel_task \<Rightarrow> timing_wheel \<Rightarrow> timing_wheel" where
  "tw_push_back l i t w = w\<lparr>tw_wheels := (tw_wheels w)(l := (tw_wheels w l)(i := tw_wheels w l i @ [t]))\<rparr>"

definition tw_clear :: "nat \<Rightarrow> nat \<Rightarrow> timing_wheel \<Rightarrow> timing_wheel" where
  "tw_clear l i w = w\<lparr>tw_wheels := (tw_wheels w)(l := (tw_wheels w l)(i := []))\<rparr>"

definition tw_schedule :: "wheel_task \<Rightarrow> nat \<Rightarrow> timing_wheel \<Rightarrow> timing_wheel" where
  "tw_schedule task wake_tick w =
     (let task = task\<lparr>wt_state := TSleeping wake_tick\<rparr> in
      if wake_tick \<le> tw_current w then tw_push_back 0 ((tw_current w + 1) mod WHEEL_SIZE) task w
      else
        let diff = wake_tick - tw_current w in
        if diff < WHEEL_SIZE then tw_push_back 0 (wake_tick mod WHEEL_SIZE) task w
        else if diff < WHEEL_SIZE ^ 2 then tw_push_back 1 (wake_tick div WHEEL_SIZE mod WHEEL_SIZE) task w
        else if diff < WHEEL_SIZE ^ 3 then tw_push_back 2 (wake_tick div WHEEL_SIZE ^ 2 mod WHEEL_SIZE) task w
        else tw_push_back 3 (wake_tick div WHEEL_SIZE ^ 3 mod WHEEL_SIZE) task w)"

definition tw_reschedule :: "nat \<Rightarrow> wheel_task \<Rightarrow> timing_wheel \<Rightarrow> timing_wheel" where
  "tw_reschedule tick task w =
     (case wt_state task of TSleeping wake_tick \<Rightarrow> tw_schedule task wake_tick w | _ \<Rightarrow> tw_schedule task tick w)"

definition tw_cascade :: "nat \<Rightarrow> nat \<Rightarrow> timing_wheel \<Rightarrow> timing_wheel" where
  "tw_cascade level tick w =
     (let idx = tick div WHEEL_SIZE ^ level mod WHEEL_SIZE in
      fold (tw_reschedule tick) (tw_wheels w level idx) (tw_clear level idx w))"

definition tw_tick :: "timing_wheel \<Rightarrow> wheel_task list \<times> timing_wheel" where
  "tw_tick w =
     (let current = tw_current w;
          w = w\<lparr>tw_current := current + 1\<rparr>;
          idx = current mod WHEEL_SIZE;
          woken_tasks = tw_wheels w 0 idx;
          w = tw_clear 0 idx w;
          w = (if (current + 1) mod WHEEL_SIZE = 0 then tw_cascade 1 (current + 1) w else w);
          w = (if (current + 1) mod WHEEL_SIZE ^ 2 = 0 then tw_cascade 2 (current + 1) w else w);
          w = (if (current + 1) mod WHEEL_SIZE ^ 3 = 0 then tw_cascade 3 (current + 1) w else w) in
      (woken_tasks, w))"

section \<open>When a task is due\<close>

text \<open>
  \<open>late w\<close> is the tick at which a task that has been on a higher wheel is returned: the cascade that
  moves it down runs at its own wake tick if that is a multiple of 256, and then finds it in the past.
\<close>

definition late :: "nat \<Rightarrow> nat" where
  "late w = (if w mod 256 = 0 then w + 1 else w)"

definition due :: "nat \<Rightarrow> nat \<Rightarrow> nat" where
  "due c w = (if w \<le> c then c + 1 else if w - c < 256 then w else late w)"

fun wake_of :: "task_state \<Rightarrow> nat" where
  "wake_of (TSleeping w) = w" | "wake_of _ = 0"

text \<open>The tick at which a task in bucket \<open>i\<close> of wheel \<open>l\<close> is returned, at time \<open>c\<close>.\<close>

definition entry_due :: "nat \<Rightarrow> nat \<Rightarrow> nat \<Rightarrow> wheel_task \<Rightarrow> nat" where
  "entry_due c l i t = (if l = 0 then c + (i + 256 - c mod 256) mod 256 else late (wake_of (wt_state t)))"

definition slots :: "(nat \<times> nat) set" where
  "slots = {..<4} \<times> {..<256}"

definition entries :: "nat \<Rightarrow> timing_wheel \<Rightarrow> nat \<times> nat \<Rightarrow> (u64 \<times> nat) multiset" where
  "entries c w p = image_mset (\<lambda>t. (wt_id t, entry_due c (fst p) (snd p) t)) (mset (tw_wheels w (fst p) (snd p)))"

definition pending :: "nat \<Rightarrow> timing_wheel \<Rightarrow> (u64 \<times> nat) multiset" where
  "pending c w = (\<Sum>p \<in> slots. entries c w p)"

lemma finite_slots [simp]: "finite slots"
  by (simp add: slots_def)

lemma in_slots [simp]: "(l, i) \<in> slots \<longleftrightarrow> l < 4 \<and> i < 256"
  by (simp add: slots_def)

lemma pending_split: "(l, i) \<in> slots \<Longrightarrow> pending c w = entries c w (l, i) + (\<Sum>p \<in> slots - {(l, i)}. entries c w p)"
  unfolding pending_def by (rule sum.remove) simp_all

lemma entries_other:
  "p \<noteq> (l, i) \<Longrightarrow> entries c (tw_push_back l i t w) p = entries c w p"
  "p \<noteq> (l, i) \<Longrightarrow> entries c (tw_clear l i w) p = entries c w p"
  by (cases p; auto simp: entries_def tw_push_back_def tw_clear_def)+

lemma pending_push:
  assumes "(l, i) \<in> slots"
  shows "pending c (tw_push_back l i t w) = add_mset (wt_id t, entry_due c l i t) (pending c w)"
proof -
  have "entries c (tw_push_back l i t w) (l, i) = add_mset (wt_id t, entry_due c l i t) (entries c w (l, i))"
    by (simp add: entries_def tw_push_back_def)
  moreover have "(\<Sum>p \<in> slots - {(l, i)}. entries c (tw_push_back l i t w) p) = (\<Sum>p \<in> slots - {(l, i)}. entries c w p)"
    by (rule sum.cong) (auto simp: entries_other)
  ultimately show ?thesis
    using assms by (simp add: pending_split [OF assms])
qed

lemma pending_clear:
  assumes "(l, i) \<in> slots"
  shows "pending c w = entries c w (l, i) + pending c (tw_clear l i w)"
proof -
  have "entries c (tw_clear l i w) (l, i) = {#}"
    by (simp add: entries_def tw_clear_def)
  moreover have "(\<Sum>p \<in> slots - {(l, i)}. entries c (tw_clear l i w) p) = (\<Sum>p \<in> slots - {(l, i)}. entries c w p)"
    by (rule sum.cong) (auto simp: entries_other)
  ultimately show ?thesis
    using assms by (simp add: pending_split [OF assms])
qed

lemma entry_due_level0:
  assumes "c \<le> d" "d < c + 256"
  shows "entry_due c 0 (d mod 256) t = d"
proof -
  obtain k where k: "d = c + k" "k < 256" using assms by (metis le_Suc_ex nat_add_left_cancel_less)
  let ?r = "c mod 256"
  have r: "?r < 256" by simp
  have "(c + k) mod 256 = (?r + k) mod 256" by (simp add: mod_add_left_eq)
  also have "\<dots> = (if ?r + k < 256 then ?r + k else ?r + k - 256)"
    using r k(2) by (simp add: le_mod_geq)
  finally have "((c + k) mod 256 + 256 - ?r) mod 256 = k"
    using r k(2) by (cases "?r + k < 256") simp_all
  with k(1) show ?thesis by (simp add: entry_due_def)
qed

section \<open>Well-formed wheels\<close>

text \<open>
  \<open>entry_ok k\<close> for a task on a higher wheel: its bucket is the one for its wake tick, and the bucket's
  turn is still to come (\<open>k = 1\<close>) or is the present one at the earliest (\<open>k = 0\<close>).
\<close>

definition entry_ok :: "nat \<Rightarrow> nat \<Rightarrow> nat \<Rightarrow> nat \<Rightarrow> wheel_task \<Rightarrow> bool" where
  "entry_ok k l c i t \<longleftrightarrow> (let w = wake_of (wt_state t) in wt_state t = TSleeping w \<and>
     i = w div 256 ^ l mod 256 \<and> c div 256 ^ l + k \<le> w div 256 ^ l \<and>
     (l < 3 \<longrightarrow> w div 256 ^ l \<le> c div 256 ^ l + 255 + k))"

definition wheel_ok :: "(nat \<Rightarrow> nat) \<Rightarrow> nat \<Rightarrow> timing_wheel \<Rightarrow> bool" where
  "wheel_ok f c w \<longleftrightarrow> tw_current w = c \<and>
     (\<forall>l \<in> {1, 2, 3}. \<forall>i. \<forall>t \<in> set (tw_wheels w l i). entry_ok (f l) l c i t)"

lemma wheel_ok_push0: "wheel_ok f c w \<Longrightarrow> wheel_ok f c (tw_push_back 0 i t w)"
  by (simp add: wheel_ok_def tw_push_back_def)

lemma wheel_ok_push:
  "wheel_ok f c w \<Longrightarrow> l \<in> {1, 2, 3} \<Longrightarrow> entry_ok (f l) l c i t \<Longrightarrow> wheel_ok f c (tw_push_back l i t w)"
  by (auto simp: wheel_ok_def tw_push_back_def)

lemma div_grows:
  fixes c w B :: nat
  assumes "0 < B" "B \<le> w - c" "c < w"
  shows "c div B + 1 \<le> w div B"
proof -
  have "c + B \<le> w" using assms by simp
  then have "(c + B) div B \<le> w div B" by (rule div_le_mono)
  moreover have "(c + B) div B = c div B + 1" using assms(1) by (intro div_add_self2) simp
  ultimately show ?thesis by simp
qed

lemma div_bounded:
  fixes c w B :: nat
  assumes "0 < B" "w - c < 256 * B" "c < w"
  shows "w div B \<le> c div B + 256"
proof -
  have "w \<le> c + B * 256" using assms by simp
  then have "w div B \<le> (c + B * 256) div B" by (rule div_le_mono)
  with assms(1) show ?thesis by simp
qed

lemma schedule_ok:
  assumes ok: "wheel_ok f c w"
    and f: "wk - c < 256 \<or> (wk - c < 65536 \<and> f 1 = 1) \<or> (wk - c < 16777216 \<and> f 1 = 1 \<and> f 2 = 1) \<or>
      (f 1 = 1 \<and> f 2 = 1 \<and> f 3 = 1)"
  shows "wheel_ok f c (tw_schedule t wk w) \<and>
    pending c (tw_schedule t wk w) = add_mset (wt_id t, due c wk) (pending c w)"
proof -
  let ?t = "t\<lparr>wt_state := TSleeping wk\<rparr>"
  have c: "tw_current w = c" using ok by (simp add: wheel_ok_def)
  consider (past) "wk \<le> c" | (l0) "c < wk" "wk - c < 256" | (l1) "c < wk" "256 \<le> wk - c" "wk - c < 65536"
    | (l2) "c < wk" "65536 \<le> wk - c" "wk - c < 16777216" | (l3) "c < wk" "16777216 \<le> wk - c"
    by linarith
  then show ?thesis
  proof cases
    case past
    then show ?thesis
      using ok entry_due_level0 [of c "c + 1" ?t]
      by (simp add: tw_schedule_def c WHEEL_SIZE_def wheel_ok_push0 pending_push due_def Let_def)
  next
    case l0
    then show ?thesis
      using ok entry_due_level0 [of c wk ?t]
      by (simp add: tw_schedule_def c WHEEL_SIZE_def wheel_ok_push0 pending_push due_def Let_def)
  next
    case l1
    then have f1: "f 1 = 1" using f by auto
    from l1 have "entry_ok (f 1) 1 c (wk div 256 mod 256) ?t"
      using f1 div_grows [of 256 wk c] div_bounded [of 256 wk c] by (simp add: entry_ok_def Let_def)
    with l1 ok show ?thesis
      by (simp add: tw_schedule_def c WHEEL_SIZE_def wheel_ok_push pending_push due_def entry_due_def Let_def)
  next
    case l2
    then have f2: "f 2 = 1" using f by auto
    from l2 have "entry_ok (f 2) 2 c (wk div 65536 mod 256) ?t"
      using f2 div_grows [of 65536 wk c] div_bounded [of 65536 wk c] by (simp add: entry_ok_def Let_def)
    with l2 ok show ?thesis
      by (simp add: tw_schedule_def c WHEEL_SIZE_def wheel_ok_push pending_push due_def entry_due_def Let_def)
  next
    case l3
    then have f3: "f 3 = 1" using f by auto
    from l3 have "entry_ok (f 3) 3 c (wk div 16777216 mod 256) ?t"
      using f3 div_grows [of 16777216 wk c] by (simp add: entry_ok_def Let_def)
    with l3 ok show ?thesis
      by (simp add: tw_schedule_def c WHEEL_SIZE_def wheel_ok_push pending_push due_def entry_due_def Let_def)
  qed
qed

section \<open>Cascading\<close>

definition movable :: "(nat \<Rightarrow> nat) \<Rightarrow> nat \<Rightarrow> wheel_task \<Rightarrow> bool" where
  "movable f c t \<longleftrightarrow> (let w = wake_of (wt_state t) in wt_state t = TSleeping w \<and> due c w = late w \<and>
     (w - c < 256 \<or> (w - c < 65536 \<and> f 1 = 1) \<or> (w - c < 16777216 \<and> f 1 = 1 \<and> f 2 = 1) \<or>
      (f 1 = 1 \<and> f 2 = 1 \<and> f 3 = 1)))"

lemma reschedule_all:
  assumes "wheel_ok f c w" and "\<forall>t \<in> set ts. movable f c t"
  shows "wheel_ok f c (fold (tw_reschedule c) ts w) \<and>
    pending c (fold (tw_reschedule c) ts w) =
      image_mset (\<lambda>t. (wt_id t, late (wake_of (wt_state t)))) (mset ts) + pending c w"
  using assms
proof (induction ts arbitrary: w)
  case (Cons t ts)
  let ?w = "wake_of (wt_state t)"
  from Cons.prems(2) have t: "wt_state t = TSleeping ?w" "due c ?w = late ?w"
    and f: "?w - c < 256 \<or> (?w - c < 65536 \<and> f 1 = 1) \<or> (?w - c < 16777216 \<and> f 1 = 1 \<and> f 2 = 1) \<or>
      (f 1 = 1 \<and> f 2 = 1 \<and> f 3 = 1)"
    by (simp_all add: movable_def Let_def)
  have r: "tw_reschedule c t w = tw_schedule t ?w w"
    unfolding tw_reschedule_def by (subst t(1)) simp
  note s = schedule_ok [OF Cons.prems(1) f, of t]
  from Cons.IH [of "tw_schedule t ?w w"] s Cons.prems(2) t(2) r show ?case by simp
qed simp

lemma base_le:
  fixes c w B :: nat
  assumes "c mod B = 0" "c div B \<le> w div B"
  shows "c \<le> w"
proof -
  have "c = B * (c div B)" using assms(1) mult_div_mod_eq [of B c] by simp
  also have "\<dots> \<le> B * (w div B)" using assms(2) by simp
  also have "\<dots> \<le> w" by simp
  finally show ?thesis .
qed

lemma same_block:
  fixes c w B :: nat
  assumes "0 < B" "c mod B = 0" "w div B = c div B"
  shows "w - c < B"
proof -
  have "c = B * (c div B)" using assms(2) mult_div_mod_eq [of B c] by simp
  moreover have "w = B * (w div B) + w mod B" by simp
  ultimately have "w - c = w mod B" using assms(3) by (metis add_diff_cancel_left')
  with assms(1) show ?thesis by simp
qed

lemma due_late:
  assumes "c mod 256 = 0" "c \<le> w"
  shows "due c w = late w"
proof -
  obtain k where k: "w = c + k" using assms(2) le_Suc_ex by blast
  have "w mod 256 = k mod 256" using assms(1) by (simp add: k mod_add_left_eq [symmetric])
  with k assms show ?thesis by (auto simp: due_def late_def)
qed

lemma same_turn:
  fixes x y :: nat
  assumes "x mod 256 = y mod 256" "x \<le> y" "y \<le> x + 255"
  shows "y = x"
proof -
  have "256 dvd y - x" using mod_eq_dvd_iff_nat [of x y 256] assms(1,2) by simp
  moreover have "y - x < 256" using assms(3) by simp
  ultimately have "y - x = 0" using nat_dvd_not_less by blast
  with assms(2) show ?thesis by simp
qed

lemma cascade_movable:
  assumes l: "l \<in> {1, 2, 3}" and b: "c mod 256 ^ l = 0" and f: "\<forall>m \<in> {1, 2, 3}. m < l \<longrightarrow> f m = 1"
    and t: "entry_ok 0 l c (c div 256 ^ l mod 256) t"
  shows "movable (f(l := 1)) c t"
proof -
  let ?w = "wake_of (wt_state t)" and ?B = "256 ^ l :: nat"
  have s: "wt_state t = TSleeping ?w" and m: "c div ?B mod 256 = ?w div ?B mod 256" "c div ?B \<le> ?w div ?B"
    "l < 3 \<longrightarrow> ?w div ?B \<le> c div ?B + 255"
    using t by (simp_all add: entry_ok_def Let_def)
  have "256 dvd c"
    using b l by (auto simp: dvd_eq_mod_eq_0 [symmetric] intro: dvd_trans [of 256 "256 ^ l"])
  then have d: "due c ?w = late ?w"
    using base_le [OF b m(2)] by (intro due_late) (simp_all add: dvd_eq_mod_eq_0)
  have "?w - c < ?B" if "l < 3"
    using same_turn [OF m(1,2)] m(3) that same_block [OF _ b] by simp
  then show ?thesis
    using l f s d by (auto simp: movable_def Let_def)
qed

lemma cascade_ok:
  assumes ok: "wheel_ok f c w" and l: "l \<in> {1, 2, 3}" and f0: "f l = 0" and b: "c mod 256 ^ l = 0"
    and f: "\<forall>m \<in> {1, 2, 3}. m < l \<longrightarrow> f m = 1"
  shows "wheel_ok (f(l := 1)) c (tw_cascade l c w) \<and> pending c (tw_cascade l c w) = pending c w"
proof -
  let ?i = "c div 256 ^ l mod 256" and ?f = "f(l := 1)"
  let ?ts = "tw_wheels w l ?i"
  have e: "entry_ok 0 l c i t" if "t \<in> set (tw_wheels w l i)" for i t
    using ok l f0 that by (metis wheel_ok_def)
  have strict: "entry_ok 1 l c i t" if "t \<in> set (tw_wheels w l i)" "i \<noteq> ?i" for i t
  proof -
    let ?w = "wake_of (wt_state t)"
    have o: "wt_state t = TSleeping ?w" "i = ?w div 256 ^ l mod 256" "c div 256 ^ l \<le> ?w div 256 ^ l"
      "l < 3 \<longrightarrow> ?w div 256 ^ l \<le> c div 256 ^ l + 255"
      using e [OF that(1)] unfolding entry_ok_def Let_def by simp_all
    then have "c div 256 ^ l \<noteq> ?w div 256 ^ l" using that(2) by metis
    with o show ?thesis unfolding entry_ok_def Let_def by linarith
  qed
  have clear: "wheel_ok ?f c (tw_clear l ?i w)"
    using ok strict by (auto simp: wheel_ok_def tw_clear_def)
  have "\<forall>t \<in> set ?ts. movable ?f c t"
    using cascade_movable [OF l b f] e by blast
  note r = reschedule_all [OF clear this]
  have "entries c w (l, ?i) = image_mset (\<lambda>t. (wt_id t, late (wake_of (wt_state t)))) (mset ?ts)"
    using l by (auto simp: entries_def entry_due_def)
  moreover have "pending c w = entries c w (l, ?i) + pending c (tw_clear l ?i w)"
    using l by (intro pending_clear) auto
  ultimately show ?thesis
    using r by (simp add: tw_cascade_def WHEEL_SIZE_def Let_def)
qed

section \<open>One tick\<close>

definition turn :: "nat \<Rightarrow> nat \<Rightarrow> nat" where
  "turn c l = (if c mod 256 ^ l = 0 then 0 else 1)"

lemma entry_ok_next:
  assumes "entry_ok 1 l c i t"
  shows "entry_ok (turn (Suc c) l) l (Suc c) i t"
proof -
  have "Suc c div 256 ^ l = (if Suc c mod 256 ^ l = 0 then Suc (c div 256 ^ l) else c div 256 ^ l)"
    by (rule div_Suc)
  with assms show ?thesis
    by (cases "Suc c mod 256 ^ l = 0") (simp_all add: entry_ok_def turn_def Let_def)
qed

text \<open>A level whose turn it is is cascaded; afterwards it is as the others are.\<close>

lemma cascade_if:
  assumes ok: "wheel_ok f c w" and l: "l \<in> {1, 2, 3}" and fl: "f l = turn c l"
    and f: "\<forall>m \<in> {1, 2, 3}. m < l \<longrightarrow> f m = 1"
  defines "w' \<equiv> if c mod WHEEL_SIZE ^ l = 0 then tw_cascade l c w else w"
  shows "wheel_ok (f(l := 1)) c w'" and "pending c w' = pending c w"
proof -
  have "wheel_ok (f(l := 1)) c w' \<and> pending c w' = pending c w"
  proof (cases "c mod 256 ^ l = 0")
    case True
    then have "f l = 0" using fl by (simp add: turn_def)
    from cascade_ok [OF ok l this True f] True show ?thesis by (simp add: w'_def WHEEL_SIZE_def)
  next
    case False
    then have "f(l := 1) = f" using fl by (simp add: turn_def fun_upd_idem)
    with False ok show ?thesis by (simp add: w'_def WHEEL_SIZE_def)
  qed
  then show "wheel_ok (f(l := 1)) c w'" "pending c w' = pending c w" by simp_all
qed

lemma entry_due_mod: "i < 256 \<Longrightarrow> entry_due c 0 i t mod 256 = i"
proof -
  assume i: "i < 256"
  let ?k = "i + 256 - c mod 256"
  have "(c + ?k mod 256) mod 256 = (c mod 256 + ?k) mod 256"
    by (metis mod_add_left_eq mod_add_right_eq)
  also have "c mod 256 + ?k = i + 256"
    using mod_less_divisor [of 256 c] by linarith
  finally show ?thesis using i by (simp add: entry_due_def)
qed

lemma entry_due_range: "c \<le> entry_due c 0 i t \<and> entry_due c 0 i t < c + 256"
  by (simp add: entry_due_def)

lemma entry_due_next:
  assumes "i < 256" "i \<noteq> c mod 256"
  shows "entry_due (Suc c) 0 i t = entry_due c 0 i t"
proof -
  let ?d = "entry_due c 0 i t"
  have "?d \<noteq> c" using entry_due_mod [OF assms(1), of c t] assms(2) by metis
  then have "Suc c \<le> ?d" "?d < Suc c + 256" using entry_due_range [of c i t] by linarith+
  from entry_due_level0 [OF this, of t] entry_due_mod [OF assms(1), of c t] show ?thesis by simp
qed

lemma pending_next: "pending (Suc c) (tw_clear 0 (c mod 256) w) = pending c (tw_clear 0 (c mod 256) w)"
  unfolding pending_def
proof (rule sum.cong)
  fix p assume "p \<in> slots"
  then obtain l i where p: "p = (l, i)" "l < 4" "i < 256" by (auto simp: slots_def)
  show "entries (Suc c) (tw_clear 0 (c mod 256) w) p = entries c (tw_clear 0 (c mod 256) w) p"
  proof (cases "l = 0")
    case True
    then show ?thesis
      using p entry_due_next [of i c]
      by (cases "i = c mod 256") (simp_all add: entries_def tw_clear_def)
  next
    case False
    with p show ?thesis by (simp add: entries_def entry_due_def)
  qed
qed simp

lemma pending_current [simp]: "pending c (w\<lparr>tw_current := x\<rparr>) = pending c w"
  by (simp add: pending_def entries_def)

lemma clear_current: "tw_clear l i (w\<lparr>tw_current := x\<rparr>) = (tw_clear l i w)\<lparr>tw_current := x\<rparr>"
  by (simp add: tw_clear_def)

definition settled :: "timing_wheel \<Rightarrow> bool" where
  "settled w \<longleftrightarrow> wheel_ok (\<lambda>_. 1) (tw_current w) w"

lemma tick_ok:
  assumes ok: "settled w" and t: "tw_tick w = (woken, w')"
  shows "settled w' \<and> tw_current w' = Suc (tw_current w) \<and>
    pending (tw_current w) w = image_mset (\<lambda>t. (wt_id t, tw_current w)) (mset woken) + pending (tw_current w') w'"
proof -
  let ?c = "tw_current w"
  let ?i = "?c mod 256"
  define w0 where "w0 = tw_clear 0 ?i (w\<lparr>tw_current := Suc ?c\<rparr>)"
  define w1 where "w1 = (if Suc ?c mod WHEEL_SIZE ^ 1 = 0 then tw_cascade 1 (Suc ?c) w0 else w0)"
  define w2 where "w2 = (if Suc ?c mod WHEEL_SIZE ^ 2 = 0 then tw_cascade 2 (Suc ?c) w1 else w1)"
  define w3 where "w3 = (if Suc ?c mod WHEEL_SIZE ^ 3 = 0 then tw_cascade 3 (Suc ?c) w2 else w2)"
  let ?f = "turn (Suc ?c)"
  have "tw_tick w = (tw_wheels w 0 ?i, w3)"
    unfolding tw_tick_def Let_def w3_def w2_def w1_def w0_def
    by (simp only: simp_thms prod.inject power_one_right Suc_eq_plus1 WHEEL_SIZE_def) simp
  with t have tick: "woken = tw_wheels w 0 ?i" "w' = w3" by simp_all
  have "wheel_ok ?f (Suc ?c) w0"
    using ok entry_ok_next by (auto simp: settled_def wheel_ok_def w0_def tw_clear_def)
  note c1 = cascade_if [OF this, of 1, folded w1_def]
  have ok1: "wheel_ok (?f(1 := 1)) (Suc ?c) w1" and p1: "pending (Suc ?c) w1 = pending (Suc ?c) w0"
    using c1 by simp_all
  note c2 = cascade_if [OF ok1, of 2, folded w2_def]
  have ok2: "wheel_ok (?f(1 := 1, 2 := 1)) (Suc ?c) w2" and p2: "pending (Suc ?c) w2 = pending (Suc ?c) w1"
    using c2 by simp_all
  note c3 = cascade_if [OF ok2, of 3, folded w3_def]
  have ok3: "wheel_ok (?f(1 := 1, 2 := 1, 3 := 1)) (Suc ?c) w3" and p3: "pending (Suc ?c) w3 = pending (Suc ?c) w2"
    using c3 by simp_all
  have "settled w'" "tw_current w' = Suc ?c"
    using ok3 tick(2) by (simp_all add: settled_def wheel_ok_def)
  moreover have "entries ?c w (0, ?i) = image_mset (\<lambda>t. (wt_id t, ?c)) (mset woken)"
    using entry_due_level0 [of ?c ?c] by (simp add: entries_def tick)
  moreover have "pending (Suc ?c) w0 = pending ?c (tw_clear 0 ?i w)"
    by (simp add: w0_def clear_current pending_next)
  moreover have "pending ?c w = entries ?c w (0, ?i) + pending ?c (tw_clear 0 ?i w)"
    by (rule pending_clear) simp
  ultimately show ?thesis
    using tick(2) p1 p2 p3 by simp
qed

lemma pending_future:
  assumes "settled w" and "e \<in># pending (tw_current w) w"
  shows "tw_current w \<le> snd e"
proof -
  let ?c = "tw_current w"
  from assms(2) obtain l i t where e: "(l, i) \<in> slots" "t \<in> set (tw_wheels w l i)" "snd e = entry_due ?c l i t"
    by (auto simp: pending_def entries_def set_mset_sum)
  show ?thesis
  proof (cases "l = 0")
    case True
    with e entry_due_range [of ?c i t] show ?thesis by simp
  next
    case False
    with e(1) have "l \<in> {1, 2, 3}" by auto
    with assms(1) e(2) have "entry_ok 1 l ?c i t" by (auto simp: settled_def wheel_ok_def)
    then have "?c div 256 ^ l < wake_of (wt_state t) div 256 ^ l" by (simp add: entry_ok_def Let_def)
    then have "?c < wake_of (wt_state t)" using div_le_mono [of "wake_of (wt_state t)" ?c "256 ^ l"] by linarith
    with e(3) False show ?thesis by (simp add: entry_due_def late_def)
  qed
qed

section \<open>Whole runs\<close>

text \<open>
  A run of the wheel is a sequence of calls of \<open>schedule\<close> and \<open>tick\<close>.  It collects what was scheduled, with
  the tick of the call and the tick asked for, and what was returned, with the tick that returned it.
\<close>

datatype tw_op = Schedule wheel_task nat | Tick

fun tw_step :: "tw_op \<Rightarrow> (u64 \<times> nat \<times> nat) list \<times> (u64 \<times> nat) list \<times> timing_wheel \<Rightarrow>
    (u64 \<times> nat \<times> nat) list \<times> (u64 \<times> nat) list \<times> timing_wheel" where
  "tw_step (Schedule t wake) (asked, woken, w) = (asked @ [(wt_id t, tw_current w, wake)], woken, tw_schedule t wake w)"
| "tw_step Tick (asked, woken, w) =
     (let (ts, w') = tw_tick w in (asked, woken @ map (\<lambda>t. (wt_id t, tw_current w)) ts, w'))"

definition tw_run :: "tw_op list \<Rightarrow> (u64 \<times> nat \<times> nat) list \<times> (u64 \<times> nat) list \<times> timing_wheel" where
  "tw_run ops = fold tw_step ops ([], [], tw_new)"

fun when_due :: "u64 \<times> nat \<times> nat \<Rightarrow> u64 \<times> nat" where
  "when_due (k, c, wake) = (k, due c wake)"

fun run_ok :: "(u64 \<times> nat \<times> nat) list \<times> (u64 \<times> nat) list \<times> timing_wheel \<Rightarrow> bool" where
  "run_ok (asked, woken, w) \<longleftrightarrow> settled w \<and>
     image_mset when_due (mset asked) = mset woken + pending (tw_current w) w \<and>
     (\<forall>e \<in> set woken. snd e < tw_current w)"

lemma run_ok_step: "run_ok s \<Longrightarrow> run_ok (tw_step a s)"
proof (cases s)
  fix asked woken w assume ok: "run_ok s" and s: "s = (asked, woken, w)"
  show ?thesis
  proof (cases a)
    case (Schedule t wake)
    have "wheel_ok (\<lambda>_. 1) (tw_current w) w" using ok s by (simp add: settled_def)
    from schedule_ok [OF this, of wake t] have "settled (tw_schedule t wake w)"
      and c: "tw_current (tw_schedule t wake w) = tw_current w"
      and "pending (tw_current w) (tw_schedule t wake w) =
        add_mset (wt_id t, due (tw_current w) wake) (pending (tw_current w) w)"
      by (simp_all add: settled_def wheel_ok_def)
    with ok s Schedule show ?thesis by simp
  next
    case Tick
    obtain ts w' where t: "tw_tick w = (ts, w')" by (cases "tw_tick w")
    from tick_ok [OF _ t] ok s have "settled w'" and c: "tw_current w' = Suc (tw_current w)"
      and "pending (tw_current w) w = image_mset (\<lambda>t. (wt_id t, tw_current w)) (mset ts) + pending (tw_current w') w'"
      by simp_all
    with ok s Tick t show ?thesis by (auto simp: less_Suc_eq)
  qed
qed

lemma run_ok_run: "run_ok (tw_run ops)"
proof -
  have "run_ok s \<Longrightarrow> run_ok (fold tw_step ops s)" for s
    by (induction ops arbitrary: s) (simp_all add: run_ok_step)
  moreover have "run_ok ([], [], tw_new)"
    by (simp add: settled_def wheel_ok_def tw_new_def pending_def entries_def)
  ultimately show ?thesis by (simp add: tw_run_def)
qed

lemma filter_mset_split:
  assumes "A = B + C" and "\<forall>x \<in># B. P x" and "\<forall>x \<in># C. \<not> P x"
  shows "filter_mset P A = B"
proof -
  have "filter_mset P B = B" using assms(2) by (simp add: filter_mset_eq_conv)
  moreover have "filter_mset P C = {#}" using assms(3) by (simp add: filter_mset_eq_conv)
  ultimately show ?thesis using assms(1) by simp
qed


text \<open>
  A task that sleeps for 256 ticks, until tick 512, is returned by tick 513: the cascade at tick 512
  reaches it only after the counter has arrived there.
\<close>

lemma due_late_example: "due 256 512 = 513"
  by (simp add: due_def late_def)

end
