(* ===== verification/Eevdf.thy ===== *)
theory Eevdf
  imports EchOS_Prelude
begin

text \<open>
  The run queue of \<open>src/src/task/eevdf.rs\<close> (earliest eligible virtual deadline first).  Tasks are shared
  through \<^verbatim>\<open>Arc\<close> and changed through atomics while they are on the queue, so they live in a store and
  the two ordered maps of the queue hold indices into it.  A lag is kept as the 64-bit word of the
  code and read as signed where the code compares it.
\<close>

section \<open>Model\<close>

record eevdf_task =
  ee_task_id :: u64
  ee_weight :: u64
  ee_vruntime :: u64
  ee_lag :: u64
  ee_slice_ns :: u64
  ee_eligible_vtime :: u64
  ee_virtual_deadline :: u64
  ee_on_rq :: bool

definition ee_new :: "u64 \<Rightarrow> u64 \<Rightarrow> u64 \<Rightarrow> eevdf_task" where
  "ee_new task_id weight slice_ns =
     (let safe_weight = max weight 1; safe_slice = max slice_ns 1 in
      \<lparr>ee_task_id = task_id, ee_weight = safe_weight, ee_vruntime = 0, ee_lag = 0,
       ee_slice_ns = safe_slice, ee_eligible_vtime = 0, ee_virtual_deadline = safe_slice, ee_on_rq = False\<rparr>)"

definition ee_update_runtime :: "u64 \<Rightarrow> u64 \<Rightarrow> eevdf_task \<Rightarrow> eevdf_task" where
  "ee_update_runtime delta_ns rq_vtime t =
     (let delta_v = sat_mul delta_ns 1024 div max (ee_weight t) 1;
          vr = ee_vruntime t + delta_v;
          lag = rq_vtime - vr;
          slice = max (ee_slice_ns t) 1;
          eligible = (if 0 \<le> sint lag then rq_vtime else vr) in
      t\<lparr>ee_vruntime := vr, ee_lag := lag, ee_eligible_vtime := eligible,
        ee_virtual_deadline := sat_add eligible slice\<rparr>)"

datatype deadline_key = DeadlineKey (dk_vd: u64) (dk_task_id: u64)

instantiation deadline_key :: linorder
begin

fun less_eq_deadline_key :: "deadline_key \<Rightarrow> deadline_key \<Rightarrow> bool" where
  "less_eq_deadline_key (DeadlineKey v i) (DeadlineKey w j) \<longleftrightarrow> v < w \<or> (v = w \<and> i \<le> j)"

definition less_deadline_key :: "deadline_key \<Rightarrow> deadline_key \<Rightarrow> bool" where
  "less_deadline_key a b \<longleftrightarrow> a \<le> b \<and> \<not> b \<le> a"

instance
proof
  fix a b c :: deadline_key
  show "a < b \<longleftrightarrow> a \<le> b \<and> \<not> b \<le> a" by (rule less_deadline_key_def)
  show "a \<le> a" by (cases a) simp
  show "a \<le> b \<Longrightarrow> b \<le> c \<Longrightarrow> a \<le> c" by (cases a; cases b; cases c) auto
  show "a \<le> b \<Longrightarrow> b \<le> a \<Longrightarrow> a = b" by (cases a; cases b) auto
  show "a \<le> b \<or> b \<le> a" by (cases a; cases b) auto
qed

end

record eevdf_rq =
  rq_vtime :: u64
  rq_tasks :: "(u64, nat) btree"
  rq_by_deadline :: "(deadline_key, nat) btree"
  rq_store :: "eevdf_task list"

record eevdf_stats =
  es_tasks :: nat
  es_vtime :: u64
  es_min_deadline :: u64

definition rq_new :: eevdf_rq where
  "rq_new = \<lparr>rq_vtime = 0, rq_tasks = [], rq_by_deadline = [], rq_store = []\<rparr>"

definition rq_set :: "nat \<Rightarrow> eevdf_task \<Rightarrow> eevdf_rq \<Rightarrow> eevdf_rq" where
  "rq_set r t s = s\<lparr>rq_store := (rq_store s)[r := t]\<rparr>"

definition ee_key :: "eevdf_task \<Rightarrow> deadline_key" where
  "ee_key t = DeadlineKey (ee_virtual_deadline t) (ee_task_id t)"

definition rq_enqueue :: "nat \<Rightarrow> eevdf_rq \<Rightarrow> eevdf_rq" where
  "rq_enqueue r s =
     (let t = (ee_update_runtime 0 (rq_vtime s) (rq_store s ! r))\<lparr>ee_on_rq := True\<rparr> in
      (rq_set r t s)\<lparr>rq_tasks := bt_insert (ee_task_id t) r (rq_tasks s),
                     rq_by_deadline := bt_insert (ee_key t) r (rq_by_deadline s)\<rparr>)"

definition rq_dequeue :: "u64 \<Rightarrow> eevdf_rq \<Rightarrow> nat option \<times> eevdf_rq" where
  "rq_dequeue task_id s =
     (case bt_get (rq_tasks s) task_id of
        None \<Rightarrow> (None, s)
      | Some r \<Rightarrow>
          let t = rq_store s ! r;
              key = DeadlineKey (ee_virtual_deadline t) task_id in
          (Some r, (rq_set r (t\<lparr>ee_on_rq := False\<rparr>) s)
             \<lparr>rq_tasks := bt_remove task_id (rq_tasks s), rq_by_deadline := bt_remove key (rq_by_deadline s)\<rparr>))"

definition rq_account_runtime :: "u64 \<Rightarrow> u64 \<Rightarrow> eevdf_rq \<Rightarrow> eevdf_rq" where
  "rq_account_runtime task_id delta_ns s =
     (case bt_get (rq_tasks s) task_id of
        None \<Rightarrow> s
      | Some r \<Rightarrow>
          let t = rq_store s ! r;
              old_key = DeadlineKey (ee_virtual_deadline t) task_id;
              delta_vtime = sat_mul delta_ns 1024 div max (ee_weight t) 1;
              next_vtime = sat_add (rq_vtime s) delta_vtime;
              t' = ee_update_runtime delta_ns next_vtime t;
              new_key = DeadlineKey (ee_virtual_deadline t') task_id in
          (rq_set r t' s)\<lparr>rq_vtime := next_vtime,
             rq_by_deadline := bt_insert new_key r (bt_remove old_key (rq_by_deadline s))\<rparr>)"

definition rq_pick_next :: "eevdf_rq \<Rightarrow> nat option" where
  "rq_pick_next s =
     map_option snd (find (\<lambda>e. ee_eligible_vtime (rq_store s ! snd e) \<le> rq_vtime s) (rq_by_deadline s))"

definition rq_should_preempt :: "u64 \<Rightarrow> u64 \<Rightarrow> eevdf_rq \<Rightarrow> bool" where
  "rq_should_preempt current_task_id wakee_task_id s =
     (case bt_get (rq_tasks s) current_task_id of
        None \<Rightarrow> False
      | Some c \<Rightarrow>
          case bt_get (rq_tasks s) wakee_task_id of
            None \<Rightarrow> False
          | Some w \<Rightarrow>
              let current_vd = ee_virtual_deadline (rq_store s ! c);
                  wakee_vd = ee_virtual_deadline (rq_store s ! w);
                  wakee_eligible = ee_eligible_vtime (rq_store s ! w) \<le> rq_vtime s in
              wakee_eligible \<and> wakee_vd < current_vd)"

definition rq_stats :: "eevdf_rq \<Rightarrow> eevdf_stats" where
  "rq_stats s = \<lparr>es_tasks = length (rq_by_deadline s), es_vtime = rq_vtime s,
     es_min_deadline = (case rq_by_deadline s of [] \<Rightarrow> 0 | e # _ \<Rightarrow> dk_vd (fst e))\<rparr>"

definition rq_ordered_task_ids :: "eevdf_rq \<Rightarrow> u64 list" where
  "rq_ordered_task_ids s = map (\<lambda>e. ee_task_id (rq_store s ! snd e)) (rq_by_deadline s)"

section \<open>Reachable queues\<close>

text \<open>
  The states a queue can get into: tasks are created, put on the queue while no task of their
  identity is on it, taken off, and charged for the time they ran.
\<close>

inductive rq_reach :: "eevdf_rq \<Rightarrow> bool" where
  reach_init: "rq_reach rq_new"
| reach_create: "rq_reach s \<Longrightarrow> rq_reach (s\<lparr>rq_store := rq_store s @ [ee_new k wt slc]\<rparr>)"
| reach_enqueue: "rq_reach s \<Longrightarrow> r < length (rq_store s) \<Longrightarrow>
    bt_get (rq_tasks s) (ee_task_id (rq_store s ! r)) = None \<Longrightarrow> rq_reach (rq_enqueue r s)"
| reach_dequeue: "rq_reach s \<Longrightarrow> rq_reach (snd (rq_dequeue k s))"
| reach_account: "rq_reach s \<Longrightarrow> rq_reach (rq_account_runtime k delta_ns s)"

section \<open>The two maps agree\<close>

definition rq_ok :: "eevdf_rq \<Rightarrow> bool" where
  "rq_ok s \<longleftrightarrow> bt_wf (rq_tasks s) \<and> bt_wf (rq_by_deadline s) \<and>
     (\<forall>k r. (k, r) \<in> set (rq_tasks s) \<longrightarrow> r < length (rq_store s) \<and> ee_task_id (rq_store s ! r) = k) \<and>
     (\<forall>d r. (d, r) \<in> set (rq_by_deadline s) \<longleftrightarrow> (dk_task_id d, r) \<in> set (rq_tasks s) \<and> d = ee_key (rq_store s ! r))"

lemma update_runtime_id [simp]: "ee_task_id (ee_update_runtime d v t) = ee_task_id t"
  by (simp add: ee_update_runtime_def Let_def)

lemma bt_unique: "bt_wf m \<Longrightarrow> (k, v) \<in> set m \<Longrightarrow> (k, w) \<in> set m \<Longrightarrow> v = w"
  using bt_get_Some_iff [of m k v] bt_get_Some_iff [of m k w] by simp

lemma rq_ok_append:
  assumes "rq_ok s"
  shows "rq_ok (s\<lparr>rq_store := rq_store s @ [t]\<rparr>)"
  using assms by (fastforce simp: rq_ok_def nth_append)

lemma rq_okD:
  assumes "rq_ok s"
  shows "bt_wf (rq_tasks s)" "bt_wf (rq_by_deadline s)"
    and "(k, r) \<in> set (rq_tasks s) \<Longrightarrow> r < length (rq_store s) \<and> ee_task_id (rq_store s ! r) = k"
    and "(d, r) \<in> set (rq_by_deadline s) \<longleftrightarrow> (dk_task_id d, r) \<in> set (rq_tasks s) \<and> d = ee_key (rq_store s ! r)"
  using assms by (simp_all add: rq_ok_def)

lemma ee_key_id [simp]: "dk_task_id (ee_key t) = ee_task_id t"
  by (simp add: ee_key_def)

text \<open>
  The three operations change one task of the store.  The maps agree again afterwards if they hold
  the other tasks as before and the changed task with its new deadline or not at all.
\<close>

lemma rq_ok_change:
  assumes ok: "rq_ok s" and r: "r < length (rq_store s)" and t: "ee_task_id t = ee_task_id (rq_store s ! r)"
    and store: "rq_store s' = (rq_store s)[r := t]"
    and wf: "bt_wf (rq_tasks s')" "bt_wf (rq_by_deadline s')"
    and others: "\<And>k q. q \<noteq> r \<Longrightarrow> (k, q) \<in> set (rq_tasks s') \<longleftrightarrow> (k, q) \<in> set (rq_tasks s)"
      "\<And>d q. q \<noteq> r \<Longrightarrow> (d, q) \<in> set (rq_by_deadline s') \<longleftrightarrow> (d, q) \<in> set (rq_by_deadline s)"
    and this_task: "\<And>k. (k, r) \<in> set (rq_tasks s') \<longleftrightarrow> on \<and> k = ee_task_id t"
      "\<And>d. (d, r) \<in> set (rq_by_deadline s') \<longleftrightarrow> on \<and> d = ee_key t"
  shows "rq_ok s'"
proof -
  have "q < length (rq_store s') \<and> ee_task_id (rq_store s' ! q) = k" if "(k, q) \<in> set (rq_tasks s')" for k q
    using that r store this_task(1) others(1) rq_okD(3) [OF ok, of k q] by (cases "q = r") simp_all
  moreover have "(d, q) \<in> set (rq_by_deadline s') \<longleftrightarrow>
      (dk_task_id d, q) \<in> set (rq_tasks s') \<and> d = ee_key (rq_store s' ! q)" for d q
    using r t store this_task(1) [of "dk_task_id d"] this_task(2) [of d] others rq_okD(4) [OF ok, of d q]
    by (cases "q = r") auto
  ultimately show ?thesis using wf by (simp add: rq_ok_def)
qed

lemma rq_ok_on:
  assumes ok: "rq_ok s" and "bt_get (rq_tasks s) k = Some r"
  shows "r < length (rq_store s)" and "ee_task_id (rq_store s ! r) = k"
    and "(j, r) \<in> set (rq_tasks s) \<longleftrightarrow> j = k" and "(k, q) \<in> set (rq_tasks s) \<longleftrightarrow> q = r"
    and "(d, r) \<in> set (rq_by_deadline s) \<longleftrightarrow> d = ee_key (rq_store s ! r)"
proof -
  have r: "(k, r) \<in> set (rq_tasks s)" using assms(2) by (rule bt_get_in_set)
  show l: "r < length (rq_store s)" and k: "ee_task_id (rq_store s ! r) = k"
    using rq_okD(3) [OF ok r] by simp_all
  show j: "(j, r) \<in> set (rq_tasks s) \<longleftrightarrow> j = k" for j
    using r k rq_okD(3) [OF ok, of j r] by auto
  show "(k, q) \<in> set (rq_tasks s) \<longleftrightarrow> q = r"
    using r bt_unique [OF rq_okD(1) [OF ok]] by blast
  show "(d, r) \<in> set (rq_by_deadline s) \<longleftrightarrow> d = ee_key (rq_store s ! r)"
    unfolding rq_okD(4) [OF ok, of d r] j using k by (metis ee_key_id)
qed

text \<open>No other task has the deadline key of a task with the identity \<open>k\<close>.\<close>

lemma rq_key_other:
  assumes ok: "rq_ok s" and "\<And>q. (k, q) \<in> set (rq_tasks s) \<Longrightarrow> q = r" and "dk_task_id d = k" and "q \<noteq> r"
  shows "(d, q) \<notin> set (rq_by_deadline s)"
  using assms(2-4) rq_okD(4) [OF ok, of d q] by auto

lemma rq_ok_enqueue:
  assumes ok: "rq_ok s" and r: "r < length (rq_store s)"
    and new: "bt_get (rq_tasks s) (ee_task_id (rq_store s ! r)) = None"
  shows "rq_ok (rq_enqueue r s)"
proof -
  let ?k = "ee_task_id (rq_store s ! r)"
  define t where "t = (ee_update_runtime 0 (rq_vtime s) (rq_store s ! r))\<lparr>ee_on_rq := True\<rparr>"
  have t: "ee_task_id t = ?k" by (simp add: t_def)
  have out: "(?k, q) \<notin> set (rq_tasks s)" for q
    using new by (auto simp: bt_get_None_iff image_iff)
  then have outr: "(k, r) \<notin> set (rq_tasks s)" for k
    using rq_okD(3) [OF ok, of k r] by auto
  have outd: "(d, r) \<notin> set (rq_by_deadline s)" for d
    using outr rq_okD(4) [OF ok, of d r] by auto
  have key: "(ee_key t, q) \<notin> set (rq_by_deadline s)" for q
    using out t rq_okD(4) [OF ok, of "ee_key t" q] by simp
  have e: "rq_enqueue r s = (rq_set r t s)\<lparr>rq_tasks := bt_insert ?k r (rq_tasks s),
      rq_by_deadline := bt_insert (ee_key t) r (rq_by_deadline s)\<rparr>"
    by (simp add: rq_enqueue_def Let_def t_def)
  show ?thesis
    by (rule rq_ok_change [OF ok r t, where on = True])
      (use out outr outd key t in \<open>auto simp: e rq_set_def rq_okD(1,2) [OF ok] set_bt_insert\<close>)
qed

lemma rq_ok_dequeue:
  assumes ok: "rq_ok s"
  shows "rq_ok (snd (rq_dequeue k s))"
proof (cases "bt_get (rq_tasks s) k")
  case (Some r)
  note on = rq_ok_on [OF ok Some]
  define t where "t = (rq_store s ! r)\<lparr>ee_on_rq := False\<rparr>"
  have t: "ee_task_id t = ee_task_id (rq_store s ! r)" by (simp add: t_def)
  let ?d = "ee_key (rq_store s ! r)"
  have key: "q \<noteq> r \<Longrightarrow> (?d, q) \<notin> set (rq_by_deadline s)" for q
    using rq_key_other [OF ok, of k r ?d q] on(2,4) by simp
  have e: "snd (rq_dequeue k s) = (rq_set r t s)\<lparr>rq_tasks := bt_remove k (rq_tasks s),
      rq_by_deadline := bt_remove ?d (rq_by_deadline s)\<rparr>"
    using Some on(2) by (simp add: rq_dequeue_def Let_def t_def ee_key_def)
  show ?thesis
    by (rule rq_ok_change [OF ok on(1) t, where on = False])
      (use on(3-5) key in \<open>auto simp: e rq_set_def rq_okD(1,2) [OF ok] set_bt_remove\<close>)
qed (simp add: rq_dequeue_def ok)

lemma rq_ok_account:
  assumes ok: "rq_ok s"
  shows "rq_ok (rq_account_runtime k delta_ns s)"
proof (cases "bt_get (rq_tasks s) k")
  case (Some r)
  note on = rq_ok_on [OF ok Some]
  define v where "v = sat_add (rq_vtime s) (sat_mul delta_ns 1024 div max (ee_weight (rq_store s ! r)) 1)"
  define t where "t = ee_update_runtime delta_ns v (rq_store s ! r)"
  have t: "ee_task_id t = ee_task_id (rq_store s ! r)" by (simp add: t_def)
  let ?d = "ee_key (rq_store s ! r)"
  have key: "q \<noteq> r \<Longrightarrow> dk_task_id d = k \<Longrightarrow> (d, q) \<notin> set (rq_by_deadline s)" for d q
    using rq_key_other [OF ok, of k r d q] on(4) by simp
  have e: "rq_account_runtime k delta_ns s = (rq_set r t s)\<lparr>rq_vtime := v,
      rq_by_deadline := bt_insert (ee_key t) r (bt_remove ?d (rq_by_deadline s))\<rparr>"
    using Some on(2) t by (simp add: rq_account_runtime_def Let_def t_def v_def ee_key_def)
  show ?thesis
    by (rule rq_ok_change [OF ok on(1) t, where on = True])
      (use on(2-5) t key [of _ ?d] key [of _ "ee_key t"] in
        \<open>auto simp: e rq_set_def rq_okD(1,2) [OF ok] set_bt_remove set_bt_insert\<close>)
qed (simp add: rq_account_runtime_def ok)

lemma rq_reach_ok: "rq_reach s \<Longrightarrow> rq_ok s"
  by (induction rule: rq_reach.induct)
    (simp_all add: rq_ok_append rq_ok_enqueue rq_ok_dequeue rq_ok_account, simp add: rq_ok_def rq_new_def)
section \<open>Every task is eligible\<close>

text \<open>
  The queue's virtual time advances by the weighted time of whichever task ran, so it stays ahead of
  the virtual run time of each single task.  The comparison is signed: this needs the virtual time
  to be below \<open>2 ^ 63\<close>.
\<close>

definition all_eligible :: "eevdf_rq \<Rightarrow> bool" where
  "all_eligible s \<longleftrightarrow> (\<forall>t \<in> set (rq_store s). ee_vruntime t \<le> rq_vtime s \<and> ee_eligible_vtime t \<le> rq_vtime s)"

lemma sint_nonneg:
  assumes "unat (x :: u64) < 2 ^ 63"
  shows "0 \<le> sint x"
proof -
  have "uint x < 2 ^ 63" using assms by (metis of_nat_less_iff of_nat_numeral of_nat_power uint_nat)
  moreover have "- (2 ^ 63) \<le> uint x" by (rule order_trans [of _ 0]) simp_all
  ultimately have "signed_take_bit 63 (uint x) = uint x" by (intro signed_take_bit_int_eq_self)
  then have "sint x = uint x" by (simp add: sint_uint)
  then show ?thesis by simp
qed

lemma update_runtime_eligible:
  fixes t :: eevdf_task
  defines "dv \<equiv> (\<lambda>d. sat_mul d 1024 div max (ee_weight t) 1)"
  assumes run: "unat (ee_vruntime t) + unat (dv d) \<le> unat v" and v: "unat v < 2 ^ 63"
  shows "ee_vruntime (ee_update_runtime d v t) \<le> v" and "ee_eligible_vtime (ee_update_runtime d v t) = v"
proof -
  let ?vr = "ee_vruntime t + dv d"
  have "unat (ee_vruntime t) + unat (dv d) < 2 ^ LENGTH(64)" using run v by simp
  then have "unat ?vr = unat (ee_vruntime t) + unat (dv d)"
    by (rule unat_add_lem [THEN iffD1])
  then have le: "?vr \<le> v" using run by (simp add: word_le_nat_alt)
  then have "unat (v - ?vr) < 2 ^ 63" using v by (simp add: unat_sub)
  then have "0 \<le> sint (v - ?vr)" by (rule sint_nonneg)
  with le show "ee_vruntime (ee_update_runtime d v t) \<le> v" "ee_eligible_vtime (ee_update_runtime d v t) = v"
    by (simp_all add: ee_update_runtime_def Let_def dv_def)
qed

lemma all_eligible_set:
  assumes "all_eligible s" and "rq_vtime s \<le> v" and "ee_vruntime t \<le> v" and "ee_eligible_vtime t \<le> v"
  shows "all_eligible ((rq_set r t s)\<lparr>rq_vtime := v\<rparr>)"
proof -
  have "u = t \<or> u \<in> set (rq_store s)" if "u \<in> set ((rq_store s)[r := t])" for u
    using that set_update_subset_insert by fastforce
  with assms show ?thesis by (auto simp: all_eligible_def rq_set_def intro: order_trans)
qed

lemma vtime_mono: "rq_vtime s \<le> rq_vtime (rq_account_runtime k d s)"
  by (simp add: rq_account_runtime_def Let_def rq_set_def split: option.split)

lemma all_eligible_enqueue:
  assumes "all_eligible s" and "r < length (rq_store s)" and v: "unat (rq_vtime s) < 2 ^ 63"
  shows "all_eligible (rq_enqueue r s)"
proof -
  let ?t = "ee_update_runtime 0 (rq_vtime s) (rq_store s ! r)"
  have "ee_vruntime (rq_store s ! r) \<le> rq_vtime s"
    using assms(1,2) by (simp add: all_eligible_def)
  then have "unat (ee_vruntime (rq_store s ! r)) + unat (sat_mul 0 1024 div max (ee_weight (rq_store s ! r)) 1) \<le> unat (rq_vtime s)"
    by (simp add: sat_mul_def word_le_nat_alt)
  note u = update_runtime_eligible [OF this v]
  have "all_eligible ((rq_set r (?t\<lparr>ee_on_rq := True\<rparr>) s)\<lparr>rq_vtime := rq_vtime s\<rparr>)"
    using assms(1) u by (intro all_eligible_set) simp_all
  then show ?thesis by (simp add: all_eligible_def rq_enqueue_def Let_def rq_set_def)
qed

lemma all_eligible_dequeue:
  assumes "all_eligible s" and ok: "rq_ok s"
  shows "all_eligible (snd (rq_dequeue k s))"
proof (cases "bt_get (rq_tasks s) k")
  case (Some r)
  from rq_ok_on(1) [OF ok Some] have "rq_store s ! r \<in> set (rq_store s)" by simp
  with assms(1) have "all_eligible ((rq_set r ((rq_store s ! r)\<lparr>ee_on_rq := False\<rparr>) s)\<lparr>rq_vtime := rq_vtime s\<rparr>)"
    by (intro all_eligible_set) (auto simp: all_eligible_def)
  with Some show ?thesis by (simp add: all_eligible_def rq_dequeue_def Let_def rq_set_def)
qed (simp add: rq_dequeue_def assms)

lemma all_eligible_account:
  assumes "all_eligible s" and ok: "rq_ok s" and v: "unat (rq_vtime (rq_account_runtime k d s)) < 2 ^ 63"
  shows "all_eligible (rq_account_runtime k d s)"
proof (cases "bt_get (rq_tasks s) k")
  case (Some r)
  let ?t = "rq_store s ! r"
  define dv where "dv = sat_mul d 1024 div max (ee_weight ?t) 1"
  define v' where "v' = sat_add (rq_vtime s) dv"
  have e: "rq_account_runtime k d s = ((rq_set r (ee_update_runtime d v' ?t) s)\<lparr>rq_vtime := v'\<rparr>)
      \<lparr>rq_by_deadline := rq_by_deadline (rq_account_runtime k d s)\<rparr>"
    using Some by (simp add: rq_account_runtime_def Let_def dv_def v'_def rq_set_def)
  have v': "unat v' < 2 ^ 63" using v by (subst (asm) e) simp
  have "unat v' = min (unat (rq_vtime s) + unat dv) (2 ^ 64 - 1)"
    unfolding v'_def by (simp add: unat_sat_add)
  with v' have sum: "unat v' = unat (rq_vtime s) + unat dv" by simp
  have "ee_vruntime ?t \<le> rq_vtime s"
    using assms(1) rq_ok_on(1) [OF ok Some] by (simp add: all_eligible_def)
  then have "unat (ee_vruntime ?t) + unat dv \<le> unat v'"
    using sum by (simp add: word_le_nat_alt)
  note u = update_runtime_eligible [OF this [unfolded dv_def] v']
  have "rq_vtime s \<le> v'" using sum by (simp add: word_le_nat_alt)
  then have "all_eligible ((rq_set r (ee_update_runtime d v' ?t) s)\<lparr>rq_vtime := v'\<rparr>)"
    using u assms(1) by (intro all_eligible_set) simp_all
  then show ?thesis by (subst e) (simp add: all_eligible_def)
qed (simp add: rq_account_runtime_def assms)

lemma rq_reach_eligible: "rq_reach s \<Longrightarrow> unat (rq_vtime s) < 2 ^ 63 \<Longrightarrow> all_eligible s"
proof (induction rule: rq_reach.induct)
  case reach_init
  then show ?case by (simp add: all_eligible_def rq_new_def)
next
  case (reach_create s k wt slc)
  then show ?case by (auto simp: all_eligible_def ee_new_def Let_def)
next
  case (reach_enqueue s r)
  moreover have "rq_vtime (rq_enqueue r s) = rq_vtime s" by (simp add: rq_enqueue_def rq_set_def Let_def)
  ultimately show ?case by (simp add: all_eligible_enqueue)
next
  case (reach_dequeue s k)
  moreover have "rq_vtime (snd (rq_dequeue k s)) = rq_vtime s"
    by (simp add: rq_dequeue_def rq_set_def Let_def split: option.split)
  ultimately show ?case by (simp add: all_eligible_dequeue rq_reach_ok)
next
  case (reach_account s k d)
  then have "unat (rq_vtime s) < 2 ^ 63"
    using vtime_mono [of s k d] by (simp add: word_le_nat_alt)
  with reach_account show ?case by (simp add: all_eligible_account rq_reach_ok)
qed

section \<open>Picking a task\<close>

lemma find_first:
  assumes "bt_wf m" and "find P m = Some e"
  shows "e \<in> set m \<and> P e \<and> (\<forall>x \<in> set m. P x \<longrightarrow> fst e \<le> fst x)"
  using assms by (induction m) (auto simp: bt_wf_Cons split: if_splits intro: less_imp_le)


text \<open>Two tasks of equal weight, one of which has run for 100 ns.\<close>

definition rq_pair :: eevdf_rq where
  "rq_pair = rq_enqueue 1 (rq_enqueue 0 (rq_new\<lparr>rq_store := [ee_new 1 1024 10, ee_new 2 1024 20]\<rparr>))"

lemma rq_pair_reach: "rq_reach rq_pair"
proof -
  have "rq_reach (rq_new\<lparr>rq_store := [] @ [ee_new 1 1024 10]\<rparr>)"
    using reach_create [OF reach_init] by (simp add: rq_new_def)
  from reach_create [OF this, of 2 1024 20]
  have "rq_reach (rq_new\<lparr>rq_store := [ee_new 1 1024 10, ee_new 2 1024 20]\<rparr>)"
    by (simp add: rq_new_def)
  from reach_enqueue [OF reach_enqueue [OF this, of 0], of 1] show ?thesis
    by (simp add: rq_pair_def rq_new_def rq_enqueue_def rq_set_def Let_def bt_insert_def bt_get_def ee_new_def)
qed

lemma rq_pair_eq: "rq_pair = \<lparr>rq_vtime = 0, rq_tasks = [(1, 0), (2, 1)],
    rq_by_deadline = [(DeadlineKey 10 1, 0), (DeadlineKey 20 2, 1)],
    rq_store = [\<lparr>ee_task_id = 1, ee_weight = 1024, ee_vruntime = 0, ee_lag = 0, ee_slice_ns = 10,
        ee_eligible_vtime = 0, ee_virtual_deadline = 10, ee_on_rq = True\<rparr>,
      \<lparr>ee_task_id = 2, ee_weight = 1024, ee_vruntime = 0, ee_lag = 0, ee_slice_ns = 20,
        ee_eligible_vtime = 0, ee_virtual_deadline = 20, ee_on_rq = True\<rparr>]\<rparr>"
  by (simp add: rq_pair_def rq_new_def rq_enqueue_def rq_set_def Let_def bt_insert_def ee_new_def
      ee_update_runtime_def ee_key_def sat_mul_def sat_add_def less_deadline_key_def)


text \<open>
  Putting a task on the queue that is already there leaves its old deadline behind once the virtual
  time has moved: after the task is taken off, the queue no longer lists it but still picks it.
\<close>

lemma eevdf_reenqueue_leaves_key:
  "let s = snd (rq_dequeue 1 (rq_enqueue 0 (rq_account_runtime 2 100 rq_pair))) in
   bt_get (rq_tasks s) 1 = None \<and> rq_pick_next s = Some 0 \<and> ee_task_id (rq_store s ! 0) = 1"
  by (simp add: rq_pair_eq rq_pick_next_def rq_account_runtime_def rq_enqueue_def rq_dequeue_def rq_set_def
      Let_def bt_get_def bt_insert_def bt_remove_def ee_update_runtime_def sat_add_def sat_mul_def ee_key_def
      less_deadline_key_def)

end
