(* ===== verification/Work_Deque.thy ===== *)
theory Work_Deque
  imports EchOS_Prelude "HOL-Library.Multiset"
begin

text \<open>
  The work-stealing deque of \<open>src/src/task/deque.rs\<close> (Chase and Lev): one worker pushes and pops at the
  bottom, any number of stealers take from the top.  There is no lock, so every access to a shared
  atomic is a step of its own and a method is a sequence of steps, held together by a program
  counter that keeps the local variables.  Tasks are the addresses of their boxes.  The two
  \<^verbatim>\<open>isize\<close> counters are integers: they wrap only after \<open>2 ^ 63\<close> pushes.
\<close>

section \<open>Model\<close>

abbreviation DEQUE_SIZE :: int where "DEQUE_SIZE \<equiv> 4096"

datatype worker_pc = WIdle
  | PushTop u64 int | PushStore u64 int | PushBottom u64 int
  | PopStore int | PopTop int | PopRead int int | PopCas int int u64 | PopRestore int "u64 option"

datatype stealer_pc = SIdle | StBottom int | StRead int | StCas int u64

text \<open>
  Besides the three fields of \<^verbatim>\<open>Inner\<close> and the program counters the state records what the methods
  have returned so far: the tasks \<open>push\<close> accepted, those it gave back, and those \<open>pop\<close> and \<open>steal\<close> returned.
\<close>

record deque =
  dq_buffer :: "int \<Rightarrow> u64"
  dq_top :: int
  dq_bottom :: int
  dq_worker :: worker_pc
  dq_stealers :: "nat \<Rightarrow> stealer_pc"
  dq_pushed :: "u64 list"
  dq_refused :: "u64 list"
  dq_returned :: "u64 list"

definition dq_new :: deque where
  "dq_new = \<lparr>dq_buffer = (\<lambda>_. 0), dq_top = 0, dq_bottom = 0, dq_worker = WIdle, dq_stealers = (\<lambda>_. SIdle),
     dq_pushed = [], dq_refused = [], dq_returned = []\<rparr>"

abbreviation dq_load :: "int \<Rightarrow> deque \<Rightarrow> u64" where
  "dq_load i s \<equiv> dq_buffer s (i mod DEQUE_SIZE)"

abbreviation dq_push_call :: "u64 \<Rightarrow> deque \<Rightarrow> deque" where
  "dq_push_call x s \<equiv> s\<lparr>dq_worker := PushTop x (dq_bottom s)\<rparr>"

fun dq_push_step :: "worker_pc \<Rightarrow> deque \<Rightarrow> deque" where
  "dq_push_step (PushTop x b) s =
     (let t = dq_top s in
      if (b - t) mod 2 ^ 64 \<ge> DEQUE_SIZE then s\<lparr>dq_worker := WIdle, dq_refused := dq_refused s @ [x]\<rparr>
      else s\<lparr>dq_worker := PushStore x b\<rparr>)"
| "dq_push_step (PushStore x b) s =
     s\<lparr>dq_buffer := (dq_buffer s)(b mod DEQUE_SIZE := x), dq_worker := PushBottom x b\<rparr>"
| "dq_push_step (PushBottom x b) s =
     s\<lparr>dq_bottom := b + 1, dq_worker := WIdle, dq_pushed := dq_pushed s @ [x]\<rparr>"
| "dq_push_step _ s = s"

abbreviation dq_pop_call :: "deque \<Rightarrow> deque" where
  "dq_pop_call s \<equiv> s\<lparr>dq_worker := PopStore (dq_bottom s - 1)\<rparr>"

fun dq_pop_step :: "worker_pc \<Rightarrow> deque \<Rightarrow> deque" where
  "dq_pop_step (PopStore b) s = s\<lparr>dq_bottom := b, dq_worker := PopTop b\<rparr>"
| "dq_pop_step (PopTop b) s =
     (let t = dq_top s in
      if t \<le> b then s\<lparr>dq_worker := PopRead t b\<rparr> else s\<lparr>dq_worker := PopRestore b None\<rparr>)"
| "dq_pop_step (PopRead t b) s =
     (let task_ptr = dq_load b s in
      if t = b then s\<lparr>dq_worker := PopCas t b task_ptr\<rparr>
      else s\<lparr>dq_worker := WIdle, dq_returned := dq_returned s @ [task_ptr]\<rparr>)"
| "dq_pop_step (PopCas t b task_ptr) s =
     (if dq_top s = t then s\<lparr>dq_top := t + 1, dq_worker := PopRestore b (Some task_ptr)\<rparr>
      else s\<lparr>dq_worker := PopRestore b None\<rparr>)"
| "dq_pop_step (PopRestore b r) s =
     s\<lparr>dq_bottom := b + 1, dq_worker := WIdle,
       dq_returned := dq_returned s @ (case r of None \<Rightarrow> [] | Some x \<Rightarrow> [x])\<rparr>"
| "dq_pop_step _ s = s"

definition dq_goto :: "nat \<Rightarrow> stealer_pc \<Rightarrow> deque \<Rightarrow> deque" where
  "dq_goto i pc s = s\<lparr>dq_stealers := (dq_stealers s)(i := pc)\<rparr>"

fun dq_steal_step :: "nat \<Rightarrow> stealer_pc \<Rightarrow> deque \<Rightarrow> deque" where
  "dq_steal_step i SIdle s = dq_goto i (StBottom (dq_top s)) s"
| "dq_steal_step i (StBottom t) s = (let b = dq_bottom s in if t < b then dq_goto i (StRead t) s else dq_goto i SIdle s)"
| "dq_steal_step i (StRead t) s = dq_goto i (StCas t (dq_load t s)) s"
| "dq_steal_step i (StCas t task_ptr) s =
     (if dq_top s = t then (dq_goto i SIdle s)\<lparr>dq_top := t + 1, dq_returned := dq_returned s @ [task_ptr]\<rparr>
      else dq_goto i SIdle s)"

definition dq_len :: "deque \<Rightarrow> nat" where
  "dq_len s = (let b = dq_bottom s; t = dq_top s in if b < t then 0 else nat (b - t))"

section \<open>Interleavings\<close>

inductive dq_step :: "deque \<Rightarrow> deque \<Rightarrow> bool" where
  step_push_call: "dq_worker s = WIdle \<Longrightarrow> dq_step s (dq_push_call x s)"
| step_pop_call: "dq_worker s = WIdle \<Longrightarrow> dq_step s (dq_pop_call s)"
| step_push: "dq_step s (dq_push_step (dq_worker s) s)"
| step_pop: "dq_step s (dq_pop_step (dq_worker s) s)"
| step_steal: "dq_step s (dq_steal_step i (dq_stealers s i) s)"

inductive dq_reach :: "deque \<Rightarrow> bool" where
  reach_new: "dq_reach dq_new"
| reach_step: "dq_reach s \<Longrightarrow> dq_step s s' \<Longrightarrow> dq_reach s'"

section \<open>Contents\<close>

text \<open>
  While a \<open>pop\<close> is under way the bottom counter has already been lowered.  \<open>dq_limit\<close> is where the contents end:
  a pop that found more than one task owns the last one from the moment it has read the top, and one
  that may be after the only task owns nothing before its compare-and-swap.
\<close>

definition dq_limit :: "deque \<Rightarrow> int" where
  "dq_limit s = (case dq_worker s of
     PopTop b \<Rightarrow> b + 1 | PopRead t b \<Rightarrow> (if t < b then b else b + 1) | PopCas t b x \<Rightarrow> b + 1
   | PopRestore b r \<Rightarrow> b + 1 | _ \<Rightarrow> dq_bottom s)"

definition dq_contents :: "deque \<Rightarrow> u64 list" where
  "dq_contents s = map (\<lambda>i. dq_load i s) [dq_top s..dq_limit s - 1]"

text \<open>A task the worker has taken and is about to return.\<close>

definition dq_in_hand :: "deque \<Rightarrow> u64 list" where
  "dq_in_hand s = (case dq_worker s of
     PopRead t b \<Rightarrow> (if t < b then [dq_load b s] else [])
   | PopRestore b (Some x) \<Rightarrow> [x] | _ \<Rightarrow> [])"

definition worker_ok :: "deque \<Rightarrow> bool" where
  "worker_ok s \<longleftrightarrow> (case dq_worker s of
     WIdle \<Rightarrow> True
   | PushTop x b \<Rightarrow> dq_bottom s = b
   | PushStore x b \<Rightarrow> dq_bottom s = b \<and> b < dq_top s + DEQUE_SIZE
   | PushBottom x b \<Rightarrow> dq_bottom s = b \<and> b < dq_top s + DEQUE_SIZE \<and> dq_load b s = x
   | PopStore b \<Rightarrow> dq_bottom s = b + 1
   | PopTop b \<Rightarrow> dq_bottom s = b
   | PopRead t b \<Rightarrow> dq_bottom s = b \<and> t \<le> dq_top s \<and> t \<le> b
   | PopCas t b x \<Rightarrow> dq_bottom s = b \<and> t = b \<and> t \<le> dq_top s \<and> x = dq_load b s
   | PopRestore b r \<Rightarrow> dq_bottom s = b \<and> dq_top s = b + 1)"

definition stealer_ok :: "stealer_pc \<Rightarrow> deque \<Rightarrow> bool" where
  "stealer_ok pc s \<longleftrightarrow> (case pc of
     SIdle \<Rightarrow> True
   | StBottom t \<Rightarrow> t \<le> dq_top s
   | StRead t \<Rightarrow> t \<le> dq_top s \<and> (t = dq_top s \<longrightarrow> t < dq_limit s)
   | StCas t x \<Rightarrow> t \<le> dq_top s \<and> (t = dq_top s \<longrightarrow> t < dq_limit s \<and> x = dq_load t s))"

definition dq_ok :: "deque \<Rightarrow> bool" where
  "dq_ok s \<longleftrightarrow> dq_top s \<le> dq_limit s \<and> dq_limit s \<le> dq_top s + DEQUE_SIZE \<and> worker_ok s \<and>
     (\<forall>i. stealer_ok (dq_stealers s i) s)"
text \<open>What a deque promises: tasks enter at the back and leave at either end, each by one step.\<close>

inductive da_step :: "u64 list \<times> u64 list \<times> u64 multiset \<Rightarrow> u64 list \<times> u64 list \<times> u64 multiset \<Rightarrow> bool" where
  da_push: "da_step (pushed, xs, taken) (pushed @ [x], xs @ [x], taken)"
| da_pop: "da_step (pushed, xs @ [x], taken) (pushed, xs, add_mset x taken)"
| da_steal: "da_step (pushed, x # xs, taken) (pushed, xs, add_mset x taken)"

definition dq_abs :: "deque \<Rightarrow> u64 list \<times> u64 list \<times> u64 multiset" where
  "dq_abs s = (dq_pushed s, dq_contents s, mset (dq_returned s) + mset (dq_in_hand s))"

section \<open>Every step keeps the invariant and is a step of the specification\<close>

lemma dq_load_same [simp]:
  "dq_load i (s\<lparr>dq_worker := w\<rparr>) = dq_load i s" "dq_load i (s\<lparr>dq_top := t\<rparr>) = dq_load i s"
  "dq_load i (s\<lparr>dq_bottom := t\<rparr>) = dq_load i s" "dq_load i (s\<lparr>dq_stealers := p\<rparr>) = dq_load i s"
  "dq_load i (s\<lparr>dq_returned := xs\<rparr>) = dq_load i s" "dq_load i (s\<lparr>dq_pushed := xs\<rparr>) = dq_load i s"
  "dq_load i (s\<lparr>dq_refused := xs\<rparr>) = dq_load i s"
  by simp_all

lemma dq_load_store:
  "dq_load i (s\<lparr>dq_buffer := (dq_buffer s)(b mod DEQUE_SIZE := x)\<rparr>) =
     (if i mod DEQUE_SIZE = b mod DEQUE_SIZE then x else dq_load i s)"
  by simp

lemma window_distinct:
  assumes "t \<le> i" "i < b" "b < t + DEQUE_SIZE"
  shows "i mod DEQUE_SIZE \<noteq> b mod DEQUE_SIZE"
proof
  assume "i mod DEQUE_SIZE = b mod DEQUE_SIZE"
  then have "DEQUE_SIZE dvd b - i" by (metis mod_eq_dvd_iff)
  then show False using assms zdvd_imp_le [of DEQUE_SIZE "b - i"] by simp
qed

lemma upto_snoc: "t \<le> b \<Longrightarrow> [t..b] = [t..b - 1] @ [b]"
  by (rule upto_rec2)

lemma stealers_stable:
  assumes "\<forall>i. stealer_ok (p i) s" and "dq_top s \<le> dq_top s'"
    and "dq_top s' = dq_top s \<Longrightarrow> dq_top s < dq_limit s \<Longrightarrow>
      dq_top s < dq_limit s' \<and> dq_load (dq_top s) s' = dq_load (dq_top s) s"
  shows "\<forall>i. stealer_ok (p i) s'"
proof
  fix i
  from assms(1) have "stealer_ok (p i) s" ..
  with assms(2,3) show "stealer_ok (p i) s'"
    by (cases "p i"; cases "dq_top s' = dq_top s") (auto simp: stealer_ok_def)
qed

definition dq_refines :: "deque \<Rightarrow> deque \<Rightarrow> bool" where
  "dq_refines s s' \<longleftrightarrow> dq_abs s' = dq_abs s \<or> da_step (dq_abs s) (dq_abs s')"

lemmas dq_view = dq_limit_def dq_abs_def dq_contents_def dq_in_hand_def worker_ok_def

lemma push_call_ok:
  assumes "dq_ok s" "dq_worker s = WIdle"
  shows "dq_ok (dq_push_call x s) \<and> dq_refines s (dq_push_call x s)"
proof -
  have "\<forall>i. stealer_ok (dq_stealers s i) (dq_push_call x s)"
    by (rule stealers_stable [of _ s]) (use assms in \<open>simp_all add: dq_ok_def dq_limit_def\<close>)
  with assms show ?thesis
    by (simp add: dq_ok_def dq_refines_def dq_view)
qed

lemma pop_call_ok:
  assumes "dq_ok s" "dq_worker s = WIdle"
  shows "dq_ok (dq_pop_call s) \<and> dq_refines s (dq_pop_call s)"
proof -
  have "\<forall>i. stealer_ok (dq_stealers s i) (dq_pop_call s)"
    by (rule stealers_stable [of _ s]) (use assms in \<open>simp_all add: dq_ok_def dq_limit_def\<close>)
  with assms show ?thesis
    by (simp add: dq_ok_def dq_refines_def dq_view)
qed

lemma dq_okD:
  assumes "dq_ok s"
  shows "dq_top s \<le> dq_limit s" "dq_limit s \<le> dq_top s + DEQUE_SIZE" "worker_ok s"
    "\<forall>i. stealer_ok (dq_stealers s i) s"
  using assms by (simp_all add: dq_ok_def)

lemma push_room:
  assumes "dq_ok s" "dq_worker s = PushTop x b"
  shows "DEQUE_SIZE \<le> (b - dq_top s) mod 2 ^ 64 \<longleftrightarrow> b = dq_top s + DEQUE_SIZE"
proof -
  have "0 \<le> b - dq_top s" "b - dq_top s \<le> DEQUE_SIZE"
    using dq_okD(1-3) [OF assms(1)] assms(2) by (simp_all add: dq_view)
  then show ?thesis by auto
qed

lemma push_top_ok:
  assumes ok: "dq_ok s" and w: "dq_worker s = PushTop x b"
  shows "dq_ok (dq_push_step (PushTop x b) s) \<and> dq_refines s (dq_push_step (PushTop x b) s)"
proof -
  let ?s = "dq_push_step (PushTop x b) s"
  have "\<forall>i. stealer_ok (dq_stealers s i) ?s"
    by (rule stealers_stable [of _ s]) (use ok w in \<open>simp_all add: dq_ok_def dq_limit_def Let_def\<close>)
  with ok w push_room [OF ok w] show ?thesis
    by (auto simp: dq_ok_def dq_refines_def dq_view Let_def)
qed

lemma push_store_ok:
  assumes ok: "dq_ok s" and w: "dq_worker s = PushStore x b"
  shows "dq_ok (dq_push_step (PushStore x b) s) \<and> dq_refines s (dq_push_step (PushStore x b) s)"
proof -
  let ?s = "dq_push_step (PushStore x b) s"
  have b: "dq_bottom s = b" "b < dq_top s + DEQUE_SIZE" "dq_limit s = b"
    using dq_okD(3) [OF ok] w by (simp_all add: worker_ok_def dq_limit_def)
  have lim: "dq_limit ?s = b" using b by (simp add: dq_limit_def)
  have load: "dq_load i ?s = dq_load i s" if "dq_top s \<le> i" "i < b" for i
    using window_distinct [OF that b(2)] by simp
  have new: "dq_load b ?s = x" by simp
  have "\<forall>i. stealer_ok (dq_stealers s i) ?s"
    by (rule stealers_stable [of _ s]) (use dq_okD(4) [OF ok] load b lim in simp_all)
  moreover have "dq_contents ?s = dq_contents s"
    unfolding dq_contents_def lim b(3) by (rule map_cong) (use load in simp_all)
  ultimately show ?thesis
    using ok w b lim new by (simp add: dq_ok_def dq_refines_def dq_abs_def dq_in_hand_def worker_ok_def)
qed

lemma push_bottom_ok:
  assumes ok: "dq_ok s" and w: "dq_worker s = PushBottom x b"
  shows "dq_ok (dq_push_step (PushBottom x b) s) \<and> dq_refines s (dq_push_step (PushBottom x b) s)"
proof -
  let ?s = "dq_push_step (PushBottom x b) s"
  have b: "dq_bottom s = b" "b < dq_top s + DEQUE_SIZE" "dq_load b s = x" "dq_limit s = b" "dq_limit ?s = b + 1"
    using dq_okD(3) [OF ok] w by (simp_all add: worker_ok_def dq_limit_def)
  have "\<forall>i. stealer_ok (dq_stealers s i) ?s"
    by (rule stealers_stable [of _ s]) (use dq_okD(4) [OF ok] b in simp_all)
  moreover have "dq_contents ?s = dq_contents s @ [x]"
    using dq_okD(1) [OF ok] b by (simp add: dq_contents_def upto_snoc)
  ultimately show ?thesis
    using ok w b da_push by (simp add: dq_ok_def dq_refines_def dq_abs_def dq_in_hand_def worker_ok_def)
qed

lemma push_ok:
  assumes "dq_ok s"
  shows "dq_ok (dq_push_step (dq_worker s) s) \<and> dq_refines s (dq_push_step (dq_worker s) s)"
  using assms push_top_ok push_store_ok push_bottom_ok
  by (cases "dq_worker s") (auto simp: dq_refines_def simp del: dq_push_step.simps(1-3))

section \<open>Popping\<close>

lemma pop_store_ok:
  assumes ok: "dq_ok s" and w: "dq_worker s = PopStore b"
  shows "dq_ok (dq_pop_step (PopStore b) s) \<and> dq_refines s (dq_pop_step (PopStore b) s)"
proof -
  let ?s = "dq_pop_step (PopStore b) s"
  have b: "dq_bottom s = b + 1" "dq_limit s = b + 1" "dq_limit ?s = b + 1"
    using dq_okD(3) [OF ok] w by (simp_all add: worker_ok_def dq_limit_def)
  have "\<forall>i. stealer_ok (dq_stealers s i) ?s"
    by (rule stealers_stable [of _ s]) (use dq_okD(4) [OF ok] b in simp_all)
  with ok w b show ?thesis
    by (simp add: dq_ok_def dq_refines_def dq_abs_def dq_contents_def dq_in_hand_def worker_ok_def)
qed

lemma pop_top_ok:
  assumes ok: "dq_ok s" and w: "dq_worker s = PopTop b"
  shows "dq_ok (dq_pop_step (PopTop b) s) \<and> dq_refines s (dq_pop_step (PopTop b) s)"
proof -
  let ?s = "dq_pop_step (PopTop b) s" and ?t = "dq_top s"
  have b: "dq_bottom s = b" "dq_limit s = b + 1"
    using dq_okD(3) [OF ok] w by (simp_all add: worker_ok_def dq_limit_def)
  have lim: "dq_limit ?s = (if ?t < b then b else b + 1)"
    by (simp add: dq_limit_def Let_def)
  have st: "\<forall>i. stealer_ok (dq_stealers s i) ?s"
    by (rule stealers_stable [of _ s]) (use dq_okD(4) [OF ok] b lim in \<open>simp_all add: Let_def\<close>)
  show ?thesis
  proof (cases "?t < b")
    case True
    then have "dq_contents s = dq_contents ?s @ [dq_load b s]"
      using b lim by (simp add: dq_contents_def upto_snoc Let_def)
    moreover have "dq_in_hand ?s = [dq_load b s]" "dq_in_hand s = []"
      using True w by (simp_all add: dq_in_hand_def Let_def)
    ultimately have "da_step (dq_abs s) (dq_abs ?s)"
      using da_pop [of "dq_pushed s" "dq_contents ?s" "dq_load b s" "mset (dq_returned s)"] True
      by (simp add: dq_abs_def Let_def)
    with ok w b lim st True show ?thesis
      by (simp add: dq_ok_def dq_refines_def worker_ok_def Let_def)
  next
    case False
    with dq_okD(1) [OF ok] b have "?t = b \<or> ?t = b + 1" by auto
    with ok w b lim st False show ?thesis
      by (auto simp: dq_ok_def dq_refines_def dq_abs_def dq_contents_def dq_in_hand_def worker_ok_def Let_def)
  qed
qed

lemma pop_read_ok:
  assumes ok: "dq_ok s" and w: "dq_worker s = PopRead t b"
  shows "dq_ok (dq_pop_step (PopRead t b) s) \<and> dq_refines s (dq_pop_step (PopRead t b) s)"
proof -
  let ?s = "dq_pop_step (PopRead t b) s"
  have b: "dq_bottom s = b" "t \<le> dq_top s" "t \<le> b" "dq_limit s = (if t < b then b else b + 1)"
    using dq_okD(3) [OF ok] w by (simp_all add: worker_ok_def dq_limit_def)
  have lim: "dq_limit ?s = dq_limit s"
    unfolding b(4) using b(1,3) by (simp add: dq_limit_def Let_def)
  have "\<forall>i. stealer_ok (dq_stealers s i) ?s"
    by (rule stealers_stable [of _ s]) (use dq_okD(4) [OF ok] lim in \<open>simp_all add: Let_def\<close>)
  with ok w b lim show ?thesis
    by (auto simp: dq_ok_def dq_refines_def dq_abs_def dq_contents_def dq_in_hand_def worker_ok_def Let_def)
qed

lemma pop_cas_ok:
  assumes ok: "dq_ok s" and w: "dq_worker s = PopCas t b x"
  shows "dq_ok (dq_pop_step (PopCas t b x) s) \<and> dq_refines s (dq_pop_step (PopCas t b x) s)"
proof -
  let ?s = "dq_pop_step (PopCas t b x) s"
  have b: "dq_bottom s = b" "t = b" "t \<le> dq_top s" "x = dq_load b s" "dq_limit s = b + 1" "dq_limit ?s = b + 1"
    using dq_okD(3) [OF ok] w by (simp_all add: worker_ok_def dq_limit_def)
  have st: "\<forall>i. stealer_ok (dq_stealers s i) ?s"
    by (rule stealers_stable [of _ s]) (use dq_okD(4) [OF ok] b in simp_all)
  show ?thesis
  proof (cases "dq_top s = t")
    case True
    then have "dq_contents s = [x]" "dq_contents ?s = []"
      using b by (simp_all add: dq_contents_def)
    moreover have "dq_in_hand ?s = [x]" "dq_in_hand s = []"
      using True w by (simp_all add: dq_in_hand_def)
    ultimately have "da_step (dq_abs s) (dq_abs ?s)"
      using da_pop [of "dq_pushed s" "[]" x "mset (dq_returned s)"] True by (simp add: dq_abs_def)
    with ok w b st True show ?thesis
      by (simp add: dq_ok_def dq_refines_def worker_ok_def)
  next
    case False
    with dq_okD(1) [OF ok] b have "dq_top s = b + 1" by simp
    with ok w b st False show ?thesis
      by (simp add: dq_ok_def dq_refines_def dq_abs_def dq_contents_def dq_in_hand_def worker_ok_def)
  qed
qed

lemma pop_restore_ok:
  assumes ok: "dq_ok s" and w: "dq_worker s = PopRestore b r"
  shows "dq_ok (dq_pop_step (PopRestore b r) s) \<and> dq_refines s (dq_pop_step (PopRestore b r) s)"
proof -
  let ?s = "dq_pop_step (PopRestore b r) s"
  have b: "dq_bottom s = b" "dq_top s = b + 1" "dq_limit s = b + 1" "dq_limit ?s = b + 1"
    using dq_okD(3) [OF ok] w by (simp_all add: worker_ok_def dq_limit_def)
  have "\<forall>i. stealer_ok (dq_stealers s i) ?s"
    by (rule stealers_stable [of _ s]) (use dq_okD(4) [OF ok] b in simp_all)
  with ok w b show ?thesis
    by (cases r) (simp_all add: dq_ok_def dq_refines_def dq_abs_def dq_contents_def dq_in_hand_def worker_ok_def)
qed

lemma pop_ok:
  assumes "dq_ok s"
  shows "dq_ok (dq_pop_step (dq_worker s) s) \<and> dq_refines s (dq_pop_step (dq_worker s) s)"
  using assms pop_store_ok pop_top_ok pop_read_ok pop_cas_ok pop_restore_ok
  by (cases "dq_worker s") (auto simp: dq_refines_def simp del: dq_pop_step.simps(1-5))

section \<open>Stealing\<close>

lemma goto_view [simp]:
  "dq_worker (dq_goto i pc s) = dq_worker s" "dq_top (dq_goto i pc s) = dq_top s"
  "dq_limit (dq_goto i pc s) = dq_limit s" "dq_load j (dq_goto i pc s) = dq_load j s"
  "worker_ok (dq_goto i pc s) = worker_ok s" "dq_abs (dq_goto i pc s) = dq_abs s"
  "stealer_ok q (dq_goto i pc s) = stealer_ok q s" "dq_stealers (dq_goto i pc s) = (dq_stealers s)(i := pc)"
  by (simp_all add: dq_goto_def dq_view stealer_ok_def split: worker_pc.split stealer_pc.split option.split)

lemma goto_ok: "dq_ok s \<Longrightarrow> stealer_ok pc s \<Longrightarrow> dq_ok (dq_goto i pc s) \<and> dq_refines s (dq_goto i pc s)"
  by (simp add: dq_ok_def dq_refines_def)

lemma limit_bottom: "dq_ok s \<Longrightarrow> dq_bottom s \<le> dq_limit s"
  by (auto simp: dq_ok_def dq_limit_def worker_ok_def split: worker_pc.splits if_splits)

lemma steal_cas_ok:
  assumes ok: "dq_ok s" and p: "dq_stealers s i = StCas (dq_top s) x"
  shows "dq_ok (dq_steal_step i (StCas (dq_top s) x) s) \<and> dq_refines s (dq_steal_step i (StCas (dq_top s) x) s)"
proof -
  let ?s = "dq_steal_step i (StCas (dq_top s) x) s" and ?t = "dq_top s"
  have "stealer_ok (StCas ?t x) s" using dq_okD(4) [OF ok] p by metis
  then have t: "?t < dq_limit s" "x = dq_load ?t s" by (simp_all add: stealer_ok_def)
  have lim: "dq_limit ?s = dq_limit s" by (simp add: dq_limit_def dq_goto_def split: worker_pc.split)
  have "\<forall>j. stealer_ok (((dq_stealers s)(i := SIdle)) j) s"
    using dq_okD(4) [OF ok] by (simp add: stealer_ok_def)
  then have "\<forall>j. stealer_ok (((dq_stealers s)(i := SIdle)) j) ?s"
    by (rule stealers_stable) simp_all
  moreover have "worker_ok ?s"
    using dq_okD(3) [OF ok] t(1) by (auto simp: worker_ok_def dq_limit_def dq_goto_def split: worker_pc.splits)
  moreover have "dq_contents s = x # dq_contents ?s"
    using t lim by (simp add: dq_contents_def upto_rec1)
  moreover have "dq_in_hand ?s = dq_in_hand s"
    by (simp add: dq_in_hand_def dq_goto_def split: worker_pc.split option.split)
  ultimately show ?thesis
    using dq_okD(1,2) [OF ok] t lim da_steal [of "dq_pushed s" x "dq_contents ?s"]
    by (simp add: dq_ok_def dq_refines_def dq_abs_def dq_goto_def)
qed

lemma steal_ok:
  assumes ok: "dq_ok s"
  shows "dq_ok (dq_steal_step i (dq_stealers s i) s) \<and> dq_refines s (dq_steal_step i (dq_stealers s i) s)"
proof (cases "dq_stealers s i")
  case SIdle
  then show ?thesis using goto_ok [OF ok] by (simp add: stealer_ok_def)
next
  case (StBottom t)
  have "stealer_ok (StBottom t) s" using dq_okD(4) [OF ok] StBottom by metis
  then show ?thesis
    using StBottom goto_ok [OF ok] limit_bottom [OF ok] by (simp add: stealer_ok_def Let_def)
next
  case (StRead t)
  have "stealer_ok (StRead t) s" using dq_okD(4) [OF ok] StRead by metis
  then show ?thesis using StRead goto_ok [OF ok] by (simp add: stealer_ok_def)
next
  case (StCas t x)
  then show ?thesis
    using steal_cas_ok [OF ok, of i x] goto_ok [OF ok, of SIdle i]
    by (cases "dq_top s = t") (simp_all add: stealer_ok_def del: dq_steal_step.simps, simp)
qed

section \<open>All interleavings\<close>

inductive_cases dq_stepE: "dq_step s s'"

lemma dq_step_ok: "dq_ok s \<Longrightarrow> dq_step s s' \<Longrightarrow> dq_ok s' \<and> dq_refines s s'"
  by (erule dq_stepE) (simp_all add: push_call_ok pop_call_ok push_ok pop_ok steal_ok)

lemma dq_ok_new: "dq_ok dq_new"
  by (simp add: dq_ok_def dq_new_def dq_limit_def worker_ok_def stealer_ok_def)

lemma dq_reach_ok: "dq_reach s \<Longrightarrow> dq_ok s"
  by (induction rule: dq_reach.induct) (simp_all add: dq_ok_new, blast dest: dq_step_ok)

fun da_ok :: "u64 list \<times> u64 list \<times> u64 multiset \<Rightarrow> bool" where
  "da_ok (pushed, xs, taken) \<longleftrightarrow> mset pushed = mset xs + taken"

lemma da_ok_step: "da_step a b \<Longrightarrow> da_ok a \<Longrightarrow> da_ok b"
  by (induction rule: da_step.induct) simp_all

lemma dq_reach_da_ok: "dq_reach s \<Longrightarrow> da_ok (dq_abs s)"
proof (induction rule: dq_reach.induct)
  case reach_new
  then show ?case by (simp add: dq_abs_def dq_new_def dq_contents_def dq_limit_def dq_in_hand_def)
next
  case (reach_step s s')
  then show ?case
    using dq_step_ok [OF dq_reach_ok] da_ok_step by (fastforce simp: dq_refines_def)
qed

lemma contents_length: "dq_ok s \<Longrightarrow> int (length (dq_contents s)) = dq_limit s - dq_top s"
  by (simp add: dq_ok_def dq_contents_def)

text \<open>A deque after one push.\<close>

definition dq_one :: deque where
  "dq_one = dq_new\<lparr>dq_buffer := (\<lambda>_. 0)(0 := 7), dq_bottom := 1, dq_pushed := [7]\<rparr>"

lemma dq_one_reach: "dq_reach dq_one"
proof -
  have "dq_reach (dq_push_call 7 dq_new)"
    by (rule reach_step [OF reach_new step_push_call]) (simp add: dq_new_def)
  from reach_step [OF reach_step [OF reach_step [OF this step_push] step_push] step_push] show ?thesis
    by (simp add: dq_one_def dq_new_def Let_def)
qed

text \<open>
  C3.  However the steps of the worker and of any number of stealers interleave, every task that \<open>push\<close>
  accepted is in exactly one place: returned once by a \<open>pop\<close> or a \<open>steal\<close>, in the hands of the worker, or in the
  deque.  No task is lost and none is handed out twice.
\<close>

theorem deque_no_loss_no_duplication:
  assumes "dq_reach s"
  shows "mset (dq_pushed s) = mset (dq_returned s) + mset (dq_in_hand s) + mset (dq_contents s)"
  using dq_reach_da_ok [OF assms] by (simp add: dq_abs_def)

theorem deque_no_loss_no_duplication_witness:
  "dq_reach dq_one \<and> {#7#} = mset (dq_returned dq_one) + mset (dq_in_hand dq_one) + mset (dq_contents dq_one)"
  using deque_no_loss_no_duplication [OF dq_one_reach] dq_one_reach by (simp add: dq_one_def)

text \<open>
  C7.  The lock-free code refines a double-ended queue: every step of an interleaving leaves the queue alone
  or does one of its operations, a push or a pop at the back or a steal at the front.  A push is
  refused only when the queue holds 4096 tasks, and a pop gives up only when it is empty.
\<close>

theorem deque_refines_spec:
  assumes "dq_reach s" and "dq_step s s'"
  shows "(dq_abs s' = dq_abs s \<or> da_step (dq_abs s) (dq_abs s')) \<and>
    (dq_refused s' \<noteq> dq_refused s \<longrightarrow> length (dq_contents s) = 4096) \<and>
    (dq_worker s' = PopRestore b None \<and> dq_worker s \<noteq> PopRestore b None \<longrightarrow> dq_contents s = [])"
proof -
  note ok = dq_reach_ok [OF assms(1)]
  have "length (dq_contents s) = 4096" if "dq_refused s' \<noteq> dq_refused s"
    using assms(2)
  proof cases
    case step_push
    with that obtain x c where w: "dq_worker s = PushTop x c" "DEQUE_SIZE \<le> (c - dq_top s) mod 2 ^ 64"
      by (cases "dq_worker s") (auto simp: Let_def split: if_splits)
    from push_room [OF ok w(1)] w(2) have "c = dq_top s + DEQUE_SIZE" by simp
    with dq_okD(3) [OF ok] w(1) contents_length [OF ok] show ?thesis
      by (simp add: worker_ok_def dq_limit_def)
  next
    case step_pop
    with that show ?thesis by (cases "dq_worker s") (auto simp: Let_def split: if_splits)
  next
    case (step_steal i)
    with that show ?thesis
      by (cases "dq_stealers s i") (auto simp: Let_def dq_goto_def split: if_splits)
  qed (use that in \<open>simp_all add:\<close>)
  moreover have "dq_contents s = []" if "dq_worker s' = PopRestore b None" "dq_worker s \<noteq> PopRestore b None"
    using assms(2)
  proof cases
    case step_push
    with that show ?thesis by (cases "dq_worker s") (auto simp: Let_def split: if_splits)
  next
    case step_pop
    with that have "dq_worker s = PopTop b \<and> b < dq_top s \<or> (\<exists>t x. dq_worker s = PopCas t b x \<and> dq_top s \<noteq> t)"
      by (cases "dq_worker s") (auto simp: Let_def split: if_splits)
    with dq_okD(1,3) [OF ok] show ?thesis
      by (auto simp: worker_ok_def dq_limit_def dq_contents_def)
  next
    case (step_steal i)
    with that show ?thesis
      by (cases "dq_stealers s i") (auto simp: Let_def split: if_splits)
  qed (use that in \<open>simp_all add:\<close>)
  moreover have "dq_refines s s'" using dq_step_ok [OF ok assms(2)] ..
  ultimately show ?thesis by (simp add: dq_refines_def)
qed

theorem deque_refines_spec_witness:
  "dq_reach dq_one \<and> dq_step dq_one (dq_pop_call dq_one) \<and>
   (dq_abs (dq_pop_call dq_one) = dq_abs dq_one \<or> da_step (dq_abs dq_one) (dq_abs (dq_pop_call dq_one)))"
proof -
  have "dq_step dq_one (dq_pop_call dq_one)"
    by (rule step_pop_call) (simp add: dq_one_def dq_new_def)
  with deque_refines_spec [OF dq_one_reach this] dq_one_reach show ?thesis by simp
qed

end
