(* ===== verification/Lz4.thy ===== *)
theory Lz4
  imports EchOS_Prelude
begin

text \<open>
  The LZ4 block decoder, after \<open>src/helpers/echos-compression/src/lz4.rs\<close>: the decoder for a known
  output size and the one for an unknown size, each with its \<open>while\<close> loop over a read position in the
  input.  Positions and lengths are natural numbers; the code's \<open>usize\<close> sums stay below
  \<open>15 + 255 * len\<close> plus the sizes of the two buffers and cannot wrap for an input that fits in memory.
  The block format itself is the specification: \<open>lz4_encode\<close> writes a list of sequences as a block and
  \<open>lz4_expand\<close> says which bytes the sequences stand for.
\<close>

section \<open>The decoders\<close>

datatype lz4_error = TruncatedInput | InvalidOffset | OutputOverflow | LiteralOverflow | InvalidData

text \<open>The loop that reads the bytes extending a length of 15; \<open>None\<close> is the end of the input.\<close>

function lz4_ext :: "u8 list \<Rightarrow> nat \<Rightarrow> nat \<Rightarrow> (nat \<times> nat) option" where
  "lz4_ext data pos len =
     (if length data \<le> pos then None
      else let extra = unat (data ! pos); pos = pos + 1; len = len + extra in
        if extra \<noteq> 255 then Some (len, pos) else lz4_ext data pos len)"
  by pat_completeness auto
termination
  by (relation "measure (\<lambda>(data, pos, len). length data - pos)") auto

declare lz4_ext.simps [simp del]

lemma lz4_ext_pos: "lz4_ext data pos len = Some (l, p) \<Longrightarrow> pos < p \<and> p \<le> length data"
proof (induction data pos len rule: lz4_ext.induct)
  case (1 data pos len)
  then show ?case
    by (fastforce simp: lz4_ext.simps [of data pos len] Let_def split: if_splits)
qed

text \<open>The literal length from the high nibble of the token, the match length from the low one.\<close>

definition lz4_lit_len :: "u8 list \<Rightarrow> nat \<Rightarrow> u8 \<Rightarrow> (nat \<times> nat) option" where
  "lz4_lit_len data pos token =
     (let lit_len = unat (drop_bit 4 token) in
      if lit_len = 15 then lz4_ext data pos lit_len else Some (lit_len, pos))"

definition lz4_match_len :: "u8 list \<Rightarrow> nat \<Rightarrow> u8 \<Rightarrow> (nat \<times> nat) option" where
  "lz4_match_len data pos token =
     (let match_len = unat (token AND 0x0F) + 4 in
      if match_len = 19 then lz4_ext data pos match_len else Some (match_len, pos))"

lemma lz4_lit_len_pos: "lz4_lit_len data pos tok = Some (l, p) \<Longrightarrow> pos \<le> length data \<Longrightarrow> pos \<le> p \<and> p \<le> length data"
  by (auto simp: lz4_lit_len_def Let_def split: if_splits dest: lz4_ext_pos)

lemma lz4_match_len_pos: "lz4_match_len data pos tok = Some (l, p) \<Longrightarrow> pos \<le> length data \<Longrightarrow> pos \<le> p \<and> p \<le> length data"
  by (auto simp: lz4_match_len_def Let_def split: if_splits dest: lz4_ext_pos)

text \<open>\<^verbatim>\<open>for i in 0..match_len { output.push(output[start + i]) }\<close>\<close>

fun lz4_copy :: "nat \<Rightarrow> nat \<Rightarrow> u8 list \<Rightarrow> u8 list" where
  "lz4_copy start 0 out = out"
| "lz4_copy start (Suc k) out = lz4_copy (Suc start) k (out @ [out ! start])"

definition from_le_bytes16 :: "u8 \<Rightarrow> u8 \<Rightarrow> u16" where
  "from_le_bytes16 a b = ucast a + ucast b * 256"

function lz4_loop :: "nat \<Rightarrow> u8 list \<Rightarrow> nat \<Rightarrow> u8 list \<Rightarrow> lz4_error + u8 list" where
  "lz4_loop decompressed_size data pos out =
     (if length data \<le> pos then Inr out
      else
        let token = data ! pos; pos = pos + 1 in
        case lz4_lit_len data pos token of
          None \<Rightarrow> Inl TruncatedInput
        | Some (lit_len, pos) \<Rightarrow>
          if 0 < lit_len \<and> length data < pos + lit_len then Inl TruncatedInput
          else if 0 < lit_len \<and> decompressed_size < length out + lit_len then Inl LiteralOverflow
          else
            let out = out @ take lit_len (drop pos data); pos = pos + lit_len in
            if length data \<le> pos then Inr out
            else if length data < pos + 2 then Inl TruncatedInput
            else
              let offset = unat (from_le_bytes16 (data ! pos) (data ! (pos + 1))); pos = pos + 2 in
              if offset = 0 \<or> length out < offset then Inl InvalidOffset
              else
                case lz4_match_len data pos token of
                  None \<Rightarrow> Inl TruncatedInput
                | Some (match_len, pos) \<Rightarrow>
                  if decompressed_size < length out + match_len then Inl OutputOverflow
                  else lz4_loop decompressed_size data pos (lz4_copy (length out - offset) match_len out))"
  by pat_completeness auto
termination
  by (relation "measure (\<lambda>(n, data, pos, out). length data - pos)")
    (auto dest!: lz4_lit_len_pos lz4_match_len_pos)

definition decompress_lz4 :: "u8 list \<Rightarrow> nat \<Rightarrow> lz4_error + u8 list" where
  "decompress_lz4 data decompressed_size =
     (case lz4_loop decompressed_size data 0 [] of
        Inl e \<Rightarrow> Inl e
      | Inr output \<Rightarrow> if length output \<noteq> decompressed_size then Inl InvalidData else Inr output)"

function lz4_loop_unbounded :: "u8 list \<Rightarrow> nat \<Rightarrow> u8 list \<Rightarrow> lz4_error + u8 list" where
  "lz4_loop_unbounded data pos out =
     (if length data \<le> pos then Inr out
      else
        let token = data ! pos; pos = pos + 1 in
        case lz4_lit_len data pos token of
          None \<Rightarrow> Inl TruncatedInput
        | Some (lit_len, pos) \<Rightarrow>
          if 0 < lit_len \<and> length data < pos + lit_len then Inl TruncatedInput
          else
            let out = out @ take lit_len (drop pos data); pos = pos + lit_len in
            if length data \<le> pos then Inr out
            else if length data < pos + 2 then Inl TruncatedInput
            else
              let offset = unat (from_le_bytes16 (data ! pos) (data ! (pos + 1))); pos = pos + 2 in
              if offset = 0 \<or> length out < offset then Inl InvalidOffset
              else
                case lz4_match_len data pos token of
                  None \<Rightarrow> Inl TruncatedInput
                | Some (match_len, pos) \<Rightarrow>
                  lz4_loop_unbounded data pos (lz4_copy (length out - offset) match_len out))"
  by pat_completeness auto
termination
  by (relation "measure (\<lambda>(data, pos, out). length data - pos)")
    (auto dest!: lz4_lit_len_pos lz4_match_len_pos)

definition decompress_lz4_unbounded :: "u8 list \<Rightarrow> lz4_error + u8 list" where
  "decompress_lz4_unbounded data = lz4_loop_unbounded data 0 []"

declare lz4_loop.simps [simp del] lz4_loop_unbounded.simps [simp del]

section \<open>The two decoders agree\<close>

lemma length_lz4_copy [simp]: "length (lz4_copy start k out) = length out + k"
  by (induction k arbitrary: start out) auto

text \<open>
  One pass of either loop, up to the size checks: the literals, and the match that follows them with
  the position after it, if the block does not end there.
\<close>

definition lz4_pass :: "u8 list \<Rightarrow> nat \<Rightarrow> u8 list \<Rightarrow> lz4_error + (u8 list \<times> (nat \<times> nat \<times> nat) option)" where
  "lz4_pass data pos out =
     (case lz4_lit_len data (pos + 1) (data ! pos) of
        None \<Rightarrow> Inl TruncatedInput
      | Some (l, p) \<Rightarrow>
        if length data < p + l then Inl TruncatedInput
        else if length data = p + l then Inr (take l (drop p data), None)
        else if length data < p + l + 2 then Inl TruncatedInput
        else let offset = unat (from_le_bytes16 (data ! (p + l)) (data ! (p + l + 1))) in
          if offset = 0 \<or> length out + l < offset then Inl InvalidOffset
          else case lz4_match_len data (p + l + 2) (data ! pos) of
              None \<Rightarrow> Inl TruncatedInput
            | Some (m, q) \<Rightarrow> Inr (take l (drop p data), Some (offset, m, q)))"

lemma lz4_pass_pos:
  assumes "lz4_pass data pos out = Inr (lits, Some (off, m, p))" and "pos < length data"
  shows "pos < p \<and> p \<le> length data"
  using assms
  by (auto simp: lz4_pass_def Let_def split: if_splits option.splits dest!: lz4_lit_len_pos lz4_match_len_pos)

lemma unbounded_unfold:
  assumes "pos < length data"
  shows "lz4_loop_unbounded data pos out =
    (case lz4_pass data pos out of
       Inl e \<Rightarrow> Inl e
     | Inr (lits, None) \<Rightarrow> Inr (out @ lits)
     | Inr (lits, Some (off, m, p)) \<Rightarrow>
         lz4_loop_unbounded data p (lz4_copy (length out + length lits - off) m (out @ lits)))"
proof (cases "lz4_lit_len data (pos + 1) (data ! pos)")
  case None
  with assms show ?thesis
    by (simp add: lz4_loop_unbounded.simps [of data pos out] lz4_pass_def Let_def)
next
  case (Some lp)
  obtain l p where lp: "lp = (l, p)" by fastforce
  with Some assms have "p \<le> length data"
    using lz4_lit_len_pos [of data "pos + 1" "data ! pos" l p] by simp
  with Some lp assms show ?thesis
    by (cases "lz4_match_len data (p + l + 2) (data ! pos)")
      (auto simp: lz4_loop_unbounded.simps [of data pos out] lz4_pass_def Let_def min_absorb2)
qed

lemma loop_unfold:
  assumes "pos < length data" and "length out \<le> n"
  shows "case lz4_pass data pos out of
       Inl e \<Rightarrow> lz4_loop n data pos out \<in> {Inl e, Inl LiteralOverflow}
     | Inr (lits, None) \<Rightarrow> lz4_loop n data pos out =
         (if n < length out + length lits then Inl LiteralOverflow else Inr (out @ lits))
     | Inr (lits, Some (off, m, p)) \<Rightarrow> lz4_loop n data pos out =
         (if n < length out + length lits then Inl LiteralOverflow
          else if n < length out + length lits + m then Inl OutputOverflow
          else lz4_loop n data p (lz4_copy (length out + length lits - off) m (out @ lits)))"
proof (cases "lz4_lit_len data (pos + 1) (data ! pos)")
  case None
  with assms show ?thesis
    by (simp add: lz4_loop.simps [of n data pos out] lz4_pass_def Let_def)
next
  case (Some lp)
  obtain l p where lp: "lp = (l, p)" by fastforce
  with Some assms have "p \<le> length data"
    using lz4_lit_len_pos [of data "pos + 1" "data ! pos" l p] by simp
  with Some lp assms show ?thesis
    by (cases "lz4_match_len data (p + l + 2) (data ! pos)")
      (auto simp: lz4_loop.simps [of n data pos out] lz4_pass_def Let_def min_absorb2)
qed

lemma unbounded_end: "length data \<le> pos \<Longrightarrow> lz4_loop_unbounded data pos out = Inr out"
  by (simp add: lz4_loop_unbounded.simps [of data pos out])

lemma loop_end: "length data \<le> pos \<Longrightarrow> lz4_loop n data pos out = Inr out"
  by (simp add: lz4_loop.simps [of n data pos out])

lemma unbounded_grows:
  "lz4_loop_unbounded data pos out = Inr r \<Longrightarrow> length out \<le> length r"
proof (induction "length data - pos" arbitrary: pos out rule: less_induct)
  case less
  show ?case
  proof (cases "pos < length data")
    case True
    have "length out \<le> length r" if "lz4_pass data pos out = Inr (lits, Some (off, m, p))" for lits off m p
    proof -
      have "length data - p < length data - pos"
        using lz4_pass_pos [OF that True] by arith
      from less.hyps [OF this, of "lz4_copy (length out + length lits - off) m (out @ lits)"] show ?thesis
        using less.prems that unbounded_unfold [OF True, of out] by simp
    qed
    with less.prems unbounded_unfold [OF True, of out] show ?thesis
      by (auto split: sum.splits option.splits)
  qed (use less.prems in \<open>simp add: unbounded_end\<close>)
qed

lemma loop_refines_unbounded:
  assumes "length out \<le> n"
  shows "(lz4_loop n data pos out = Inr r \<longleftrightarrow> lz4_loop_unbounded data pos out = Inr r \<and> length r \<le> n) \<and>
    (lz4_loop n data pos out = Inl e \<longrightarrow>
      e \<in> {LiteralOverflow, OutputOverflow} \<or> lz4_loop_unbounded data pos out = Inl e)"
  using assms
proof (induction "length data - pos" arbitrary: pos out rule: less_induct)
  case less
  show ?case
  proof (cases "pos < length data")
    case True
    note u = unbounded_unfold [OF True, of out] and b = loop_unfold [OF True less.prems]
    show ?thesis
    proof (cases "lz4_pass data pos out")
      case (Inl e')
      with u b show ?thesis by auto
    next
      case (Inr x)
      obtain lits o' where x: "x = (lits, o')" by fastforce
      show ?thesis
      proof (cases o')
        case None
        with Inr x u b less.prems show ?thesis by auto
      next
        case (Some y)
        obtain off m p where y: "y = (off, m, p)" using prod_cases3 by blast
        let ?out = "lz4_copy (length out + length lits - off) m (out @ lits)"
        have pass: "lz4_pass data pos out = Inr (lits, Some (off, m, p))"
          using Inr x Some y by simp
        have "length data - p < length data - pos"
          using lz4_pass_pos [OF pass True] by arith
        note IH = less.hyps [OF this, of ?out]
        have "length ?out \<le> length r" if "lz4_loop_unbounded data p ?out = Inr r"
          using that by (rule unbounded_grows)
        with IH pass u b show ?thesis by auto
      qed
    qed
  qed (use less.prems in \<open>auto simp: unbounded_end loop_end\<close>)
qed

section \<open>The block format\<close>

text \<open>
  A sequence is a run of literals followed by a match \<open>(offset, length)\<close>.  The bytes of a match are
  those of the last \<open>offset\<close> bytes, repeated as often as needed.
\<close>

type_synonym lz4_seq = "u8 list \<times> nat \<times> nat"

definition lz4_match :: "u8 list \<Rightarrow> nat \<Rightarrow> nat \<Rightarrow> u8 list" where
  "lz4_match out off m = map (\<lambda>i. out ! (length out - off + i mod off)) [0..<m]"

fun lz4_expand :: "lz4_seq list \<Rightarrow> u8 list \<Rightarrow> u8 list \<Rightarrow> u8 list" where
  "lz4_expand [] final out = out @ final"
| "lz4_expand ((lits, off, m) # ss) final out =
     lz4_expand ss final (out @ lits @ lz4_match (out @ lits) off m)"

fun lz4_valid :: "lz4_seq list \<Rightarrow> nat \<Rightarrow> bool" where
  "lz4_valid [] n \<longleftrightarrow> True"
| "lz4_valid ((lits, off, m) # ss) n \<longleftrightarrow>
     0 < off \<and> off \<le> n + length lits \<and> off < 65536 \<and> 4 \<le> m \<and> lz4_valid ss (n + length lits + m)"

fun enc_ext :: "nat \<Rightarrow> u8 list" where
  "enc_ext k = (if k < 255 then [of_nat k] else 255 # enc_ext (k - 255))"

definition enc_len :: "nat \<Rightarrow> u8 list" where
  "enc_len k = (if k < 15 then [] else enc_ext (k - 15))"

definition enc_token :: "nat \<Rightarrow> nat \<Rightarrow> u8" where
  "enc_token l m = of_nat (16 * min l 15 + min m 15)"

fun lz4_encode :: "lz4_seq list \<Rightarrow> u8 list \<Rightarrow> u8 list" where
  "lz4_encode [] final = enc_token (length final) 0 # enc_len (length final) @ final"
| "lz4_encode ((lits, off, m) # ss) final =
     enc_token (length lits) (m - 4) # enc_len (length lits) @ lits @
     [of_nat (off mod 256), of_nat (off div 256)] @ enc_len (m - 4) @ lz4_encode ss final"

declare enc_ext.simps [simp del]

lemma unat_of_nat8: "k < 256 \<Longrightarrow> unat (of_nat k :: u8) = k"
  by (rule unat_of_nat_small) simp

lemma unat_enc_token: "unat (enc_token l m) = 16 * min l 15 + min m 15"
  unfolding enc_token_def by (rule unat_of_nat8) linarith

lemma token_high: "unat (drop_bit 4 (enc_token l m)) = min l 15"
  by (simp add: drop_bit_eq_div unat_div unat_enc_token)

lemma token_low: "unat (enc_token l m AND 0x0F) = min m 15"
proof -
  have "enc_token l m AND 0x0F = take_bit 4 (enc_token l m)"
    unfolding take_bit_eq_mask mask_eq_exp_minus_1 by simp
  then show ?thesis
    by (simp add: take_bit_eq_mod unat_mod unat_enc_token)
qed

lemma unat_from_le_bytes16: "unat (from_le_bytes16 a b) = unat a + 256 * unat b"
proof -
  have "unat a < 256" "unat b < 256"
    using unsigned_less [of a, where ?'a = nat] unsigned_less [of b, where ?'a = nat] by simp_all
  moreover from this have "unat (ucast a :: u16) = unat a" "unat (ucast b :: u16) = unat b"
    by (simp_all add: unat_ucast_small)
  ultimately show ?thesis
    by (simp add: from_le_bytes16_def unat_word_ariths)
qed

lemma from_le_bytes16_encode:
  "off < 65536 \<Longrightarrow> unat (from_le_bytes16 (of_nat (off mod 256)) (of_nat (off div 256))) = off"
  by (simp add: unat_from_le_bytes16 unat_of_nat8 del: of_nat_mod of_nat_div)

lemma ext_encode:
  "lz4_ext (pre @ enc_ext k @ post) (length pre) l = Some (l + k, length pre + length (enc_ext k))"
proof (induction k arbitrary: pre l rule: enc_ext.induct)
  case (1 k)
  show ?case
  proof (cases "k < 255")
    case True
    then have "unat (of_nat k :: u8) = k" by (simp add: unat_of_nat8)
    with True show ?thesis
      by (subst lz4_ext.simps) (simp add: enc_ext.simps [of k] Let_def)
  next
    case False
    with 1 [of "pre @ [255]" "l + 255"] show ?thesis
      by (subst lz4_ext.simps) (simp add: enc_ext.simps [of k] Let_def)
  qed
qed

lemma lz4_copy_from:
  assumes "0 < off" "off \<le> length out"
  shows "lz4_copy (length out - off + i) k (out @ lz4_match out off i) = out @ lz4_match out off (i + k)"
proof (induction k arbitrary: i)
  case (Suc k)
  let ?s = "length out - off" and ?o = "out @ lz4_match out off i"
  have "?o ! (?s + i) = out ! (?s + i mod off)"
  proof (cases "i < off")
    case False
    then have "?s + i - length out = i - off" "i - off < i" "(i - off) mod off = i mod off"
      using assms by (auto simp: le_mod_geq)
    with False assms show ?thesis by (simp add: nth_append lz4_match_def)
  next
    case True
    with assms have "?s + i < length out" by linarith
    with True show ?thesis by (simp add: nth_append)
  qed
  then have "?o @ [?o ! (?s + i)] = out @ lz4_match out off (Suc i)"
    by (simp add: lz4_match_def)
  with Suc [of "Suc i"] show ?case by simp
qed simp

lemma lz4_copy_match:
  "0 < off \<Longrightarrow> off \<le> length out \<Longrightarrow> lz4_copy (length out - off) m out = out @ lz4_match out off m"
  using lz4_copy_from [of off out 0 m] by (simp add: lz4_match_def)

lemma lit_len_encode:
  "lz4_lit_len (pre @ enc_len l @ post) (length pre) (enc_token l m) = Some (l, length pre + length (enc_len l))"
  using ext_encode [of pre "l - 15" post 15] by (auto simp: lz4_lit_len_def enc_len_def token_high Let_def)

lemma match_len_encode:
  "4 \<le> m \<Longrightarrow> lz4_match_len (pre @ enc_len (m - 4) @ post) (length pre) (enc_token l (m - 4)) =
     Some (m, length pre + length (enc_len (m - 4)))"
  using ext_encode [of pre "m - 19" post 19] by (auto simp: lz4_match_len_def enc_len_def token_low Let_def min_def)

lemma lz4_match_length [simp]: "length (lz4_match out off m) = m"
  by (simp add: lz4_match_def)

lemma pass_encode_last:
  "lz4_pass (pre @ lz4_encode [] final) (length pre) out = Inr (final, None)"
  using lit_len_encode [of "pre @ [enc_token (length final) 0]" "length final" final 0]
  by (simp add: lz4_pass_def)

lemma pass_encode_seq:
  assumes "0 < off" "off \<le> length out + length lits" "off < 65536" "4 \<le> m"
  shows "lz4_pass (pre @ lz4_encode ((lits, off, m) # ss) final) (length pre) out =
    Inr (lits, Some (off, m, length pre + 3 + length (enc_len (length lits)) + length lits + length (enc_len (m - 4))))"
proof -
  let ?t = "enc_token (length lits) (m - 4)" and ?e = "enc_len (length lits)" and ?r = "lz4_encode ss final"
  let ?o = "[of_nat (off mod 256), of_nat (off div 256)] :: u8 list"
  have l: "lz4_lit_len (pre @ ?t # ?e @ lits @ ?o @ enc_len (m - 4) @ ?r) (length pre + 1) ?t =
      Some (length lits, length pre + 1 + length ?e)"
    using lit_len_encode [of "pre @ [?t]" "length lits" "lits @ ?o @ enc_len (m - 4) @ ?r" "m - 4"] by simp
  have m: "lz4_match_len (pre @ ?t # ?e @ lits @ ?o @ enc_len (m - 4) @ ?r)
      (length pre + 1 + length ?e + length lits + 2) ?t =
      Some (m, length pre + 3 + length ?e + length lits + length (enc_len (m - 4)))"
    using match_len_encode [OF assms(4), of "pre @ ?t # ?e @ lits @ ?o" ?r "length lits"] by (simp add: ac_simps)
  have o: "unat (from_le_bytes16 (of_nat (off mod 256)) (of_nat (off div 256))) = off"
    using assms(3) by (rule from_le_bytes16_encode)
  show ?thesis
    using l m o assms(1,2) by (simp add: lz4_pass_def nth_append Let_def)
qed

lemma unbounded_encode:
  "lz4_valid ss (length out) \<Longrightarrow>
   lz4_loop_unbounded (pre @ lz4_encode ss final) (length pre) out = Inr (lz4_expand ss final out)"
proof (induction ss arbitrary: pre out)
  case Nil
  then show ?case
    using unbounded_unfold [of "length pre" "pre @ lz4_encode [] final" out] pass_encode_last [of pre final out]
    by simp
next
  case (Cons s ss)
  obtain lits off m where s: "s = (lits, off, m)" using prod_cases3 by blast
  let ?e = "lz4_encode [(lits, off, m)] []" and ?out = "out @ lits @ lz4_match (out @ lits) off m"
  let ?h = "enc_token (length lits) (m - 4) # enc_len (length lits) @ lits @
     [of_nat (off mod 256), of_nat (off div 256)] @ enc_len (m - 4)"
  from Cons.prems s have v: "0 < off" "off \<le> length out + length lits" "off < 65536" "4 \<le> m"
    and "lz4_valid ss (length ?out)" by (simp_all add: ac_simps)
  from Cons.IH [OF this(5), of "pre @ ?h"]
  have IH: "lz4_loop_unbounded (pre @ lz4_encode (s # ss) final) (length pre + length ?h) ?out =
      Inr (lz4_expand (s # ss) final out)"
    by (simp add: s)
  have "lz4_copy (length (out @ lits) - off) m (out @ lits) = (out @ lits) @ lz4_match (out @ lits) off m"
    using v by (intro lz4_copy_match) simp_all
  with IH show ?case
    using unbounded_unfold [of "length pre" "pre @ lz4_encode (s # ss) final" out]
      pass_encode_seq [OF v, of pre ss final]
    by (simp add: s ac_simps numeral_3_eq_3)
qed

section \<open>Properties\<close>

text \<open>
  C12. The decoder inverts the block format: for every list of sequences whose matches refer to bytes
  already produced, decoding the encoded block with the size of the expansion returns the expansion,
  in which overlapping matches repeat.  Both decoders do so.
\<close>

theorem lz4_decodes_blocks:
  assumes "lz4_valid ss 0"
  shows "decompress_lz4 (lz4_encode ss final) (length (lz4_expand ss final [])) =
      Inr (lz4_expand ss final []) \<and>
    decompress_lz4_unbounded (lz4_encode ss final) = Inr (lz4_expand ss final [])"
proof -
  have u: "lz4_loop_unbounded (lz4_encode ss final) 0 [] = Inr (lz4_expand ss final [])"
    using unbounded_encode [of ss "[]" "[]" final] assms by simp
  then show ?thesis
    using loop_refines_unbounded [of "[]" "length (lz4_expand ss final [])" "lz4_encode ss final" 0
        "lz4_expand ss final []" undefined]
    by (simp add: decompress_lz4_def decompress_lz4_unbounded_def)
qed

theorem lz4_decodes_blocks_witness:
  "decompress_lz4 (lz4_encode [([1, 2], 2, 6), ([], 1, 4)] [9]) 13 = Inr [1, 2, 1, 2, 1, 2, 1, 2, 2, 2, 2, 2, 9]"
proof -
  let ?ss = "[([1, 2], 2, 6), ([], 1, 4)] :: lz4_seq list"
  have e: "lz4_expand ?ss [9] [] = [1, 2, 1, 2, 1, 2, 1, 2, 2, 2, 2, 2, 9]"
    by (simp add: lz4_match_def upt_rec)
  have n: "length ([1, 2, 1, 2, 1, 2, 1, 2, 2, 2, 2, 2, 9] :: u8 list) = 13" by simp
  have "lz4_valid ?ss 0" by simp
  from lz4_decodes_blocks [OF this, of "[9]"] show ?thesis
    unfolding e n by (rule conjunct1)
qed

text \<open>
  The two decoders are equivalent: the sized decoder returns a result exactly when the unsized
  one returns it and it has the given size, and every failure of the sized decoder other than its
  own size checks is the failure of the unsized one.
\<close>

lemma lz4_decoders_agree:
  "(decompress_lz4 data n = Inr r \<longleftrightarrow> decompress_lz4_unbounded data = Inr r \<and> length r = n) \<and>
   (decompress_lz4 data n = Inl e \<longrightarrow>
      e \<in> {LiteralOverflow, OutputOverflow, InvalidData} \<or> decompress_lz4_unbounded data = Inl e)"
proof (cases "lz4_loop n data 0 []")
  case (Inl e')
  then show ?thesis
    using loop_refines_unbounded [of "[]" n data 0 r e']
    by (auto simp: decompress_lz4_def decompress_lz4_unbounded_def)
next
  case (Inr r')
  then show ?thesis
    using loop_refines_unbounded [of "[]" n data 0 r' e]
    by (auto simp: decompress_lz4_def decompress_lz4_unbounded_def)
qed

end
