(* ===== verification/Landlock.thy ===== *)
theory Landlock
  imports EchOS_Prelude "HOL-Library.Sublist"
begin

text \<open>
  Path-based access control, after \<open>src/src/security/landlock.rs\<close>: path normalisation, the matching of
  a rule against a path, the per-task policies and the decision loop.  A path is the list of its
  bytes; the slash is a single byte in the source's encoding, so splitting works bytewise.
\<close>

section \<open>Rules and paths\<close>

datatype access = Read | Write | Execute | Create | Delete | Rename

datatype rule_action = Allow | Deny

record path_rule =
  rule_path :: string
  rule_mask :: u32
  rule_act :: rule_action

record task_policy =
  enforce_default_deny :: bool
  policy_rules :: "path_rule list"

fun access_bit :: "access \<Rightarrow> u32" where
  "access_bit Read = push_bit 0 1"
| "access_bit Write = push_bit 1 1"
| "access_bit Execute = push_bit 2 1"
| "access_bit Create = push_bit 3 1"
| "access_bit Delete = push_bit 4 1"
| "access_bit Rename = push_bit 5 1"

text \<open>\<^verbatim>\<open>path.split('/')\<close> and \<^verbatim>\<open>out.join("/")\<close>.\<close>

fun split_slash :: "string \<Rightarrow> string list" where
  "split_slash [] = [[]]"
| "split_slash (c # cs) =
     (if c = CHR ''/'' then [] # split_slash cs
      else (c # hd (split_slash cs)) # tl (split_slash cs))"

fun join_slash :: "string list \<Rightarrow> string" where
  "join_slash [] = []"
| "join_slash [s] = s"
| "join_slash (s # ss) = s @ CHR ''/'' # join_slash ss"

text \<open>The body of the loop over the segments; \<open>pop\<close> of an empty vector does nothing.\<close>

definition norm_step :: "string \<Rightarrow> string list \<Rightarrow> string list" where
  "norm_step segment out =
     (if segment = [] \<or> segment = ''.'' then out
      else if segment = ''..'' then butlast out
      else out @ [segment])"

definition normalize_path :: "string \<Rightarrow> string" where
  "normalize_path path =
     (let out = fold norm_step (split_slash path) [] in
      if out = [] then ''/'' else ''/'' @ join_slash out)"

definition path_matches :: "string \<Rightarrow> string \<Rightarrow> bool" where
  "path_matches rule path \<longleftrightarrow>
     (if rule = ''/'' then True
      else if path = rule then True
      else prefix rule path \<and>
        (if length rule < length path then path ! length rule = CHR ''/'' else False))"

section \<open>Policies\<close>

record landlock =
  ll_policies :: "nat \<rightharpoonup> task_policy"
  ll_enabled :: bool

definition ll_start :: landlock where
  "ll_start = \<lparr>ll_policies = Map.empty, ll_enabled = False\<rparr>"

definition ll_init :: "landlock \<Rightarrow> landlock" where
  "ll_init s = s\<lparr>ll_enabled := True\<rparr>"

definition policy_or_default :: "nat \<Rightarrow> landlock \<Rightarrow> task_policy" where
  "policy_or_default pid s =
     (case ll_policies s pid of
        Some p \<Rightarrow> p
      | None \<Rightarrow> \<lparr>enforce_default_deny = False, policy_rules = []\<rparr>)"

definition set_default_deny :: "nat \<Rightarrow> bool \<Rightarrow> landlock \<Rightarrow> landlock" where
  "set_default_deny pid enabled s =
     s\<lparr>ll_policies := (ll_policies s)(pid \<mapsto> (policy_or_default pid s)\<lparr>enforce_default_deny := enabled\<rparr>)\<rparr>"

definition add_rule :: "nat \<Rightarrow> string \<Rightarrow> u32 \<Rightarrow> rule_action \<Rightarrow> landlock \<Rightarrow> landlock" where
  "add_rule pid path msk action s =
     (let p = policy_or_default pid s;
          r = \<lparr>rule_path = normalize_path path, rule_mask = msk, rule_act = action\<rparr> in
      s\<lparr>ll_policies := (ll_policies s)(pid \<mapsto> p\<lparr>policy_rules := policy_rules p @ [r]\<rparr>)\<rparr>)"

definition clear_rules :: "nat \<Rightarrow> landlock \<Rightarrow> landlock" where
  "clear_rules pid s = s\<lparr>ll_policies := (ll_policies s)(pid := None)\<rparr>"

section \<open>The decision\<close>

definition decide_step :: "u32 \<Rightarrow> string \<Rightarrow> path_rule \<Rightarrow> (nat \<times> rule_action) option \<Rightarrow>
    (nat \<times> rule_action) option" where
  "decide_step abit normalized rule decision =
     (if rule_mask rule AND abit = 0 then decision
      else if \<not> path_matches (rule_path rule) normalized then decision
      else let score = length (rule_path rule) in
        case decision of
          None \<Rightarrow> Some (score, rule_act rule)
        | Some (best_score, best_action) \<Rightarrow>
            if best_score < score \<or> score = best_score \<and> best_action \<noteq> Deny
            then Some (score, rule_act rule) else decision)"

definition check_path_for_pid :: "nat \<Rightarrow> string \<Rightarrow> access \<Rightarrow> landlock \<Rightarrow> bool" where
  "check_path_for_pid pid path acc s =
     (if \<not> ll_enabled s then True
      else case ll_policies s pid of
        None \<Rightarrow> True
      | Some policy \<Rightarrow>
          (case fold (decide_step (access_bit acc) (normalize_path path)) (policy_rules policy) None of
             Some (_, Allow) \<Rightarrow> True
           | Some (_, Deny) \<Rightarrow> False
           | None \<Rightarrow> \<not> enforce_default_deny policy))"

definition check_path_for_current_task :: "nat \<Rightarrow> string \<Rightarrow> access \<Rightarrow> landlock \<Rightarrow> bool" where
  "check_path_for_current_task current path acc s =
     (if \<not> ll_enabled s then True else check_path_for_pid current path acc s)"

section \<open>Normal forms\<close>

definition comps :: "string \<Rightarrow> string list" where
  "comps path = fold norm_step (split_slash path) []"

definition seg_ok :: "string \<Rightarrow> bool" where
  "seg_ok s \<longleftrightarrow> s \<noteq> [] \<and> s \<noteq> ''.'' \<and> s \<noteq> ''..'' \<and> CHR ''/'' \<notin> set s"

definition render :: "string list \<Rightarrow> string" where
  "render ss = concat (map (\<lambda>s. CHR ''/'' # s) ss)"

lemma render_simps [simp]: "render [] = []" "render (s # ss) = CHR ''/'' # s @ render ss"
  "render (as @ bs) = render as @ render bs"
  by (simp_all add: render_def)

lemma join_render: "ss \<noteq> [] \<Longrightarrow> CHR ''/'' # join_slash ss = render ss"
  by (induction ss rule: join_slash.induct) auto

lemma normalize_render: "normalize_path p = (if comps p = [] then ''/'' else render (comps p))"
  by (simp add: normalize_path_def comps_def [symmetric] join_render Let_def)

lemma split_not_Nil [simp]: "split_slash s \<noteq> []"
  by (cases s) auto

lemma split_append: "split_slash (s @ CHR ''/'' # t) = split_slash s @ split_slash t"
  by (induction s) auto

lemma split_plain: "CHR ''/'' \<notin> set s \<Longrightarrow> split_slash s = [s]"
  by (induction s) auto

lemma split_slash_free: "s \<in> set (split_slash p) \<Longrightarrow> CHR ''/'' \<notin> set s"
proof (induction p arbitrary: s)
  case (Cons c p)
  have "hd (split_slash p) \<in> set (split_slash p)" "set (tl (split_slash p)) \<subseteq> set (split_slash p)"
    by (simp_all add: list.set_sel(2) subsetI)
  with Cons show ?case by (auto split: if_splits)
qed simp

lemma split_render: "list_all seg_ok ss \<Longrightarrow> split_slash (render ss) = [] # ss"
proof (induction ss rule: rev_induct)
  case (snoc s ss)
  then have "split_slash (render ss @ CHR ''/'' # s) = ([] # ss) @ [s]"
    unfolding split_append by (simp add: split_plain seg_ok_def)
  then show ?case by simp
qed simp

lemma comps_ok: "list_all seg_ok (comps p)"
proof -
  have "list_all seg_ok (fold norm_step ss out)"
    if "\<forall>s \<in> set ss. CHR ''/'' \<notin> set s" "list_all seg_ok out" for ss out
    using that
  proof (induction ss arbitrary: out)
    case (Cons s ss)
    have "list_all seg_ok (norm_step s out)"
      using Cons.prems by (auto simp: norm_step_def seg_ok_def list_all_iff dest: in_set_butlastD)
    with Cons show ?case by simp
  qed simp
  then show ?thesis
    using split_slash_free by (auto simp: comps_def)
qed

lemma fold_norm_ok: "list_all seg_ok ss \<Longrightarrow> fold norm_step ss out = out @ ss"
  by (induction ss arbitrary: out) (auto simp: norm_step_def seg_ok_def)

lemma comps_render: "list_all seg_ok ss \<Longrightarrow> comps (render ss) = ss"
  by (simp add: comps_def split_render fold_norm_ok norm_step_def)

lemma comps_normalize [simp]: "comps (normalize_path p) = comps p"
  using comps_render [OF comps_ok, of p] by (auto simp: normalize_render comps_def norm_step_def)

lemma render_inj: "list_all seg_ok as \<Longrightarrow> list_all seg_ok bs \<Longrightarrow> render as = render bs \<longleftrightarrow> as = bs"
  using split_render by (metis list.inject)

lemma render_prefix:
  assumes "list_all seg_ok as" "list_all seg_ok bs"
  shows "(\<exists>t. render bs = render as @ CHR ''/'' # t) \<longleftrightarrow> strict_prefix as bs"
proof
  assume "\<exists>t. render bs = render as @ CHR ''/'' # t"
  then obtain t where t: "render bs = render as @ CHR ''/'' # t" ..
  have "split_slash (render bs) = split_slash (render as) @ split_slash t"
    unfolding t by (rule split_append)
  with assms have "[] # bs = ([] # as) @ split_slash t"
    by (simp add: split_render)
  then show "strict_prefix as bs" by (auto simp: strict_prefix_def)
next
  assume "strict_prefix as bs"
  then obtain c cs where "bs = as @ c # cs" by (rule strict_prefixE')
  then show "\<exists>t. render bs = render as @ CHR ''/'' # t" by simp
qed

lemma render_length: "list_all seg_ok ss \<Longrightarrow> ss \<noteq> [] \<Longrightarrow> 1 < length (render ss)"
  by (cases ss) (auto simp: seg_ok_def)

lemma prefix_then_char:
  "prefix r p \<and> (if length r < length p then p ! length r = c else False) \<longleftrightarrow> (\<exists>t. p = r @ c # t)"
proof
  assume *: "prefix r p \<and> (if length r < length p then p ! length r = c else False)"
  then obtain q where q: "p = r @ q" by (auto simp: prefix_def)
  with * show "\<exists>t. p = r @ c # t" by (cases q) (auto split: if_splits)
qed auto

text \<open>On normalised paths, a rule matches exactly the paths at or below its own components.\<close>

lemma matches_iff: "path_matches (normalize_path r) (normalize_path p) \<longleftrightarrow> prefix (comps r) (comps p)"
proof (cases "comps r = [] \<or> comps p = []")
  case True
  have "path_matches (render (comps r)) ''/'' = False" if "comps r \<noteq> []"
    using render_length [OF comps_ok that]
    by (auto simp: path_matches_def prefix_def dest: arg_cong [where f = length])
  with True show ?thesis
    by (auto simp: normalize_render) (auto simp: path_matches_def)
next
  case False
  have "render (comps r) \<noteq> ''/''"
    using render_length [OF comps_ok, of r] False by auto
  then have "path_matches (normalize_path r) (normalize_path p) \<longleftrightarrow>
      comps p = comps r \<or> strict_prefix (comps r) (comps p)"
    using False render_inj [of "comps p" "comps r"] render_prefix [of "comps r" "comps p"]
    by (simp add: normalize_render path_matches_def prefix_then_char comps_ok)
  then show ?thesis
    by (auto simp: strict_prefix_def)
qed

section \<open>The decision loop\<close>

definition applies :: "u32 \<Rightarrow> string \<Rightarrow> path_rule \<Rightarrow> bool" where
  "applies abit p r \<longleftrightarrow> rule_mask r AND abit \<noteq> 0 \<and> path_matches (rule_path r) p"

definition decided :: "path_rule list \<Rightarrow> nat \<times> rule_action \<Rightarrow> bool" where
  "decided ms d \<longleftrightarrow> (\<forall>r \<in> set ms. length (rule_path r) \<le> fst d) \<and>
     (\<exists>r \<in> set ms. length (rule_path r) = fst d) \<and>
     (snd d = Deny \<longleftrightarrow> (\<exists>r \<in> set ms. length (rule_path r) = fst d \<and> rule_act r = Deny))"

lemma decide_step_skip: "\<not> applies abit p r \<Longrightarrow> decide_step abit p r d = d"
  by (auto simp: decide_step_def applies_def)

lemma decide_step_applies:
  "applies abit p r \<Longrightarrow> decide_step abit p r d =
     (case d of
        None \<Rightarrow> Some (length (rule_path r), rule_act r)
      | Some (b, a) \<Rightarrow> if b < length (rule_path r) \<or> length (rule_path r) = b \<and> a \<noteq> Deny
          then Some (length (rule_path r), rule_act r) else d)"
  by (simp add: decide_step_def applies_def Let_def)

lemma decided_snoc:
  assumes "decided ms (b, a)"
  shows "decided (ms @ [r]) (if b < length (rule_path r) \<or> length (rule_path r) = b \<and> a \<noteq> Deny
    then (length (rule_path r), rule_act r) else (b, a))"
proof -
  have m: "\<forall>x \<in> set ms. length (rule_path x) \<le> b" "\<exists>x \<in> set ms. length (rule_path x) = b"
    "a = Deny \<longleftrightarrow> (\<exists>x \<in> set ms. length (rule_path x) = b \<and> rule_act x = Deny)"
    using assms by (simp_all add: decided_def)
  consider "b < length (rule_path r)" | "length (rule_path r) = b" | "length (rule_path r) < b"
    by linarith
  then show ?thesis
  proof cases
    case 1
    with m(1) have "\<forall>x \<in> set ms. length (rule_path x) < length (rule_path r)" by auto
    with 1 show ?thesis by (auto simp: decided_def)
  qed (use m in \<open>auto simp: decided_def\<close>)
qed

lemma decide_spec:
  "case fold (decide_step abit p) rules None of
     None \<Rightarrow> filter (applies abit p) rules = []
   | Some d \<Rightarrow> decided (filter (applies abit p) rules) d"
proof (induction rules rule: rev_induct)
  case (snoc r rules)
  let ?d = "fold (decide_step abit p) rules None"
  show ?case
  proof (cases "applies abit p r")
    case False
    with snoc show ?thesis by (auto simp: decide_step_skip split: option.splits)
  next
    case True
    show ?thesis
    proof (cases ?d)
      case None
      with snoc True show ?thesis by (simp add: decide_step_applies decided_def)
    next
      case (Some d)
      obtain b a where d: "d = (b, a)" by fastforce
      from snoc Some d have "decided (filter (applies abit p) rules) (b, a)" by simp
      from decided_snoc [OF this, of r] Some d True show ?thesis
        by (auto simp: decide_step_applies split: if_splits)
    qed
  qed
qed simp

text \<open>The rules that apply to a path are nested, so the longest rule is the one with most components.\<close>

lemma normalize_length_less:
  assumes "strict_prefix (comps a) (comps b)"
  shows "length (normalize_path a) < length (normalize_path b)"
proof -
  from assms obtain c cs where b: "comps b = comps a @ c # cs"
    by (rule strict_prefixE')
  with comps_ok [of b] have "c \<noteq> []" by (simp add: seg_ok_def)
  with b show ?thesis
    by (auto simp: normalize_render)
qed

lemma normalize_length_iff:
  assumes "prefix (comps a) (comps p)" "prefix (comps b) (comps p)"
  shows "length (normalize_path a) < length (normalize_path b) \<longleftrightarrow> length (comps a) < length (comps b)"
proof -
  consider "strict_prefix (comps a) (comps b)" | "strict_prefix (comps b) (comps a)" | "comps a = comps b"
    using prefix_same_cases [OF assms] unfolding prefix_order.le_less by metis
  then show ?thesis
  proof cases
    case 1
    then show ?thesis using normalize_length_less [OF 1] prefix_length_less [OF 1] by simp
  next
    case 2
    then show ?thesis using normalize_length_less [OF 2] prefix_length_less [OF 2] by simp
  next
    case 3
    then show ?thesis by (simp add: normalize_render)
  qed
qed

section \<open>Runs\<close>

datatype ll_op = LInit | LDefaultDeny nat bool | LAddRule nat string u32 rule_action | LClear nat

fun ll_step :: "ll_op \<Rightarrow> landlock \<Rightarrow> landlock" where
  "ll_step LInit s = ll_init s"
| "ll_step (LDefaultDeny pid b) s = set_default_deny pid b s"
| "ll_step (LAddRule pid path m a) s = add_rule pid path m a s"
| "ll_step (LClear pid) s = clear_rules pid s"

definition ll_wf :: "landlock \<Rightarrow> bool" where
  "ll_wf s \<longleftrightarrow> (\<forall>pid pol. ll_policies s pid = Some pol \<longrightarrow>
     (\<forall>r \<in> set (policy_rules pol). normalize_path (rule_path r) = rule_path r))"

lemma normalize_idem [simp]: "normalize_path (normalize_path p) = normalize_path p"
  by (simp add: normalize_render [of "normalize_path p"]) (simp add: normalize_render)

lemma policy_or_default_wf:
  "ll_wf s \<Longrightarrow> r \<in> set (policy_rules (policy_or_default pid s)) \<Longrightarrow> normalize_path (rule_path r) = rule_path r"
  by (auto simp: policy_or_default_def ll_wf_def split: option.splits)

lemma ll_step_wf [echos_inv]: "ll_wf s \<Longrightarrow> ll_wf (ll_step a s)"
  by (cases a) (auto simp: ll_wf_def ll_init_def set_default_deny_def add_rule_def clear_rules_def Let_def
    dest!: policy_or_default_wf [of s, rotated] split: if_splits)

lemma ll_run_wf: "ll_wf (fold ll_step ops ll_start)"
proof -
  have "ll_wf (fold ll_step ops s)" if "ll_wf s" for s
    using that by (induction ops arbitrary: s) (simp_all add: ll_step_wf)
  moreover have "ll_wf ll_start"
    by (simp add: ll_start_def ll_wf_def)
  ultimately show ?thesis by blast
qed

section \<open>Properties\<close>

text \<open>The rules of a policy that concern an access to a path, by components.\<close>

definition concerned :: "task_policy \<Rightarrow> string \<Rightarrow> access \<Rightarrow> path_rule list" where
  "concerned pol path acc =
     filter (\<lambda>r. rule_mask r AND access_bit acc \<noteq> 0 \<and> prefix (comps (rule_path r)) (comps path)) (policy_rules pol)"

lemma applies_concerned:
  assumes "\<forall>r \<in> set (policy_rules pol). normalize_path (rule_path r) = rule_path r"
  shows "filter (applies (access_bit acc) (normalize_path path)) (policy_rules pol) = concerned pol path acc"
  unfolding concerned_def
proof (rule filter_cong)
  fix r assume "r \<in> set (policy_rules pol)"
  with assms have "normalize_path (rule_path r) = rule_path r" by blast
  with matches_iff [of "rule_path r" path]
  show "applies (access_bit acc) (normalize_path path) r =
      (rule_mask r AND access_bit acc \<noteq> 0 \<and> prefix (comps (rule_path r)) (comps path))"
    by (simp add: applies_def)
qed simp

text \<open>
  C19. Whatever rules the tasks have added, an access is decided by the most specific rules that
  concern it: those for the access kind whose components are a prefix of the path's components.  If
  there are none the task's default applies; otherwise the access is denied exactly when one of the
  rules with most components denies it.  A task without a policy, and every task before
  initialisation, is unrestricted.
\<close>

theorem landlock_most_specific_rule:
  "let s = fold ll_step ops ll_start in
   check_path_for_pid pid path acc s \<longleftrightarrow>
     (\<not> ll_enabled s \<or> (case ll_policies s pid of None \<Rightarrow> True | Some pol \<Rightarrow>
       (if concerned pol path acc = [] then \<not> enforce_default_deny pol
        else \<not> (\<exists>r \<in> set (concerned pol path acc). rule_act r = Deny \<and>
          (\<forall>q \<in> set (concerned pol path acc).
             \<not> length (comps (rule_path r)) < length (comps (rule_path q)))))))"
proof -
  let ?s = "fold ll_step ops ll_start"
  show ?thesis
  proof (cases "ll_enabled ?s \<and> ll_policies ?s pid \<noteq> None")
    case False
    then show ?thesis by (auto simp: check_path_for_pid_def Let_def)
  next
    case True
    then obtain pol where pol: "ll_policies ?s pid = Some pol" by blast
    then have wf: "\<forall>r \<in> set (policy_rules pol). normalize_path (rule_path r) = rule_path r"
      using ll_run_wf [of ops] by (simp add: ll_wf_def)
    let ?d = "fold (decide_step (access_bit acc) (normalize_path path)) (policy_rules pol) None"
    have spec: "case ?d of None \<Rightarrow> concerned pol path acc = [] | Some d \<Rightarrow> decided (concerned pol path acc) d"
      using decide_spec [of "access_bit acc" "normalize_path path" "policy_rules pol"]
      unfolding applies_concerned [OF wf] .
    have len: "length (rule_path r) < length (rule_path q) \<longleftrightarrow> length (comps (rule_path r)) < length (comps (rule_path q))"
      if "r \<in> set (concerned pol path acc)" "q \<in> set (concerned pol path acc)" for r q
      using that normalize_length_iff [of "rule_path r" path "rule_path q"] wf by (simp add: concerned_def)
    show ?thesis
    proof (cases ?d)
      case None
      with spec True pol show ?thesis by (simp add: check_path_for_pid_def Let_def)
    next
      case (Some d)
      obtain b a where d: "d = (b, a)" by fastforce
      have dec: "decided (concerned pol path acc) (b, a)" using spec Some d by simp
      have "check_path_for_pid pid path acc ?s \<longleftrightarrow> a \<noteq> Deny"
        using True pol Some d by (cases a) (simp_all add: check_path_for_pid_def)
      moreover have "a = Deny \<longleftrightarrow> (\<exists>r \<in> set (concerned pol path acc). rule_act r = Deny \<and>
          (\<forall>q \<in> set (concerned pol path acc). \<not> length (rule_path r) < length (rule_path q)))"
        using dec by (fastforce simp: decided_def not_less)
      moreover have "concerned pol path acc \<noteq> []"
        using dec by (auto simp: decided_def)
      ultimately show ?thesis
        using True pol len by (simp add: Let_def)
    qed
  qed
qed

theorem landlock_most_specific_rule_witness:
  "let s = fold ll_step [LInit, LAddRule 1 ''/a'' 3 Allow, LAddRule 1 ''/a/../a//b'' 2 Deny] ll_start
   in check_path_for_pid 1 ''a/b/c'' Read s"
  using landlock_most_specific_rule [of "[LInit, LAddRule 1 ''/a'' 3 Allow, LAddRule 1 ''/a/../a//b'' 2 Deny]" 1 "''a/b/c''" Read]
  by (simp add: ll_init_def add_rule_def policy_or_default_def ll_start_def concerned_def comps_def
      normalize_path_def norm_step_def Let_def)

text \<open>
  Stored rules are canonical: in every reachable state each rule's path is in normal form, which
  is a slash followed by components that are not empty, not a dot, not a double dot and contain no
  slash; normalising twice changes nothing.
\<close>

lemma landlock_rules_canonical:
  "(\<forall>pid pol. ll_policies (fold ll_step ops ll_start) pid = Some pol \<longrightarrow>
     (\<forall>r \<in> set (policy_rules pol). \<exists>ss. list_all seg_ok ss \<and>
        rule_path r = (if ss = [] then ''/'' else render ss))) \<and>
   normalize_path (normalize_path p) = normalize_path p"
proof -
  have "\<exists>ss. list_all seg_ok ss \<and> rule_path r = (if ss = [] then ''/'' else render ss)"
    if "ll_policies (fold ll_step ops ll_start) pid = Some pol" "r \<in> set (policy_rules pol)" for pid pol r
  proof -
    have "normalize_path (rule_path r) = rule_path r"
      using ll_run_wf [of ops] that by (auto simp: ll_wf_def)
    then show ?thesis
      using normalize_render [of "rule_path r"] comps_ok [of "rule_path r"] by metis
  qed
  then show ?thesis by simp
qed

end
