(* ===== verification/Capability.thy ===== *)
theory Capability
  imports EchOS_Prelude
begin

text \<open>
  Capabilities, after \<open>src/src/security/capability.rs\<close>: rights, the per-process table with its
  capability and handle maps, derivation, revocation, transfer between processes and the handle
  interface.  The tables of all processes are a map from process to table; the lock that guards it
  makes each function one step.  The recursion of \<open>revoke\<close> over the children is \<open>ct_revoke_all\<close>, whose
  first argument is the list of identifiers still to be visited, in the order in which the recursive
  calls visit them.
\<close>

section \<open>Rights, kinds and capabilities\<close>

type_synonym cap_id = u64
type_synonym user_handle = u32

datatype capability_error =
  ProcessNotInitialized | InvalidHandle | Revoked | RightsDenied | WrongKind | StaleGeneration

record cap_rights =
  r_read :: bool
  r_write :: bool
  r_execute :: bool
  r_share :: bool
  r_transfer :: bool

definition RIGHTS_NONE :: cap_rights where
  "RIGHTS_NONE = \<lparr>r_read = False, r_write = False, r_execute = False, r_share = False, r_transfer = False\<rparr>"

definition RIGHTS_READ :: cap_rights where
  "RIGHTS_READ = \<lparr>r_read = True, r_write = False, r_execute = False, r_share = False, r_transfer = False\<rparr>"

definition RIGHTS_WRITE :: cap_rights where
  "RIGHTS_WRITE = \<lparr>r_read = False, r_write = True, r_execute = False, r_share = False, r_transfer = False\<rparr>"

definition RIGHTS_READ_WRITE :: cap_rights where
  "RIGHTS_READ_WRITE = \<lparr>r_read = True, r_write = True, r_execute = False, r_share = False, r_transfer = False\<rparr>"

definition RIGHTS_ALL :: cap_rights where
  "RIGHTS_ALL = \<lparr>r_read = True, r_write = True, r_execute = True, r_share = True, r_transfer = True\<rparr>"

datatype resource_type =
  File | Directory | Socket | Device | Memory | Process | Thread | Port | Key | Service

record service_record =
  sr_service_id :: u64
  sr_endpoint_generation :: u32
  sr_owner_endpoint :: "u64 option"

record shared_region_record =
  rr_region_id :: u64
  rr_region_generation :: u64
  rr_len :: u64
  rr_writable :: bool

record request_record =
  qr_request_id :: u64
  qr_service_id :: u64
  qr_endpoint_generation :: u32
  qr_owner_endpoint :: "u64 option"

datatype capability_kind =
  KGeneric | KService service_record | KSharedRegion shared_region_record | KRequest request_record

record capability =
  c_id :: cap_id
  c_resource_type :: resource_type
  c_resource_id :: u64
  c_rights :: cap_rights
  c_owner :: u64
  c_generation :: u32
  c_user_handle :: user_handle
  c_handle_generation :: u32
  c_kind :: capability_kind
  c_children :: "cap_id list"

record cap_table =
  ct_process_id :: u64
  ct_caps :: "(cap_id, capability) btree"
  ct_handles :: "user_handle \<rightharpoonup> cap_id"
  ct_next_cap_id :: cap_id
  ct_next_handle :: user_handle

section \<open>The table of one process\<close>

definition ct_new :: "u64 \<Rightarrow> cap_table" where
  "ct_new pid = \<lparr>ct_process_id = pid, ct_caps = [], ct_handles = Map.empty, ct_next_cap_id = 1, ct_next_handle = 1\<rparr>"

definition allocate_handle :: "cap_table \<Rightarrow> user_handle \<times> cap_table" where
  "allocate_handle t =
     (max (ct_next_handle t) 1, t\<lparr>ct_next_handle := max (sat_add (ct_next_handle t) 1) 1\<rparr>)"

definition ct_create_with_kind ::
    "resource_type \<Rightarrow> u64 \<Rightarrow> cap_rights \<Rightarrow> capability_kind \<Rightarrow> cap_table \<Rightarrow> cap_id \<times> cap_table" where
  "ct_create_with_kind rt rid rights kind t =
     (let i = ct_next_cap_id t;
          (handle, t) = allocate_handle (t\<lparr>ct_next_cap_id := i + 1\<rparr>);
          cap = \<lparr>c_id = i, c_resource_type = rt, c_resource_id = rid, c_rights = rights,
                 c_owner = ct_process_id t, c_generation = 0, c_user_handle = handle,
                 c_handle_generation = 1, c_kind = kind, c_children = []\<rparr> in
      (i, t\<lparr>ct_handles := (ct_handles t)(handle \<mapsto> i), ct_caps := bt_insert i cap (ct_caps t)\<rparr>))"

definition ct_create :: "resource_type \<Rightarrow> u64 \<Rightarrow> cap_rights \<Rightarrow> cap_table \<Rightarrow> cap_id \<times> cap_table" where
  "ct_create rt rid rights t = ct_create_with_kind rt rid rights KGeneric t"

definition ct_get :: "cap_id \<Rightarrow> cap_table \<Rightarrow> capability option" where
  "ct_get i t = bt_get (ct_caps t) i"

definition ct_get_by_handle :: "user_handle \<Rightarrow> cap_table \<Rightarrow> capability option" where
  "ct_get_by_handle h t = (case ct_handles t h of None \<Rightarrow> None | Some i \<Rightarrow> bt_get (ct_caps t) i)"

definition ct_check :: "cap_id \<Rightarrow> cap_rights \<Rightarrow> cap_table \<Rightarrow> bool" where
  "ct_check i required t =
     (case bt_get (ct_caps t) i of
        Some cap \<Rightarrow> (let r = c_rights cap in
          (\<not> r_read required \<or> r_read r) \<and> (\<not> r_write required \<or> r_write r) \<and>
          (\<not> r_execute required \<or> r_execute r) \<and> (\<not> r_share required \<or> r_share r) \<and>
          (\<not> r_transfer required \<or> r_transfer r))
      | None \<Rightarrow> False)"

definition ct_derive :: "cap_id \<Rightarrow> cap_rights \<Rightarrow> cap_table \<Rightarrow> cap_id option \<times> cap_table" where
  "ct_derive parent_id subset_rights t =
     (case bt_get (ct_caps t) parent_id of
        None \<Rightarrow> (None, t)
      | Some parent \<Rightarrow>
          let p = c_rights parent in
          if r_read subset_rights \<and> \<not> r_read p then (None, t)
          else if r_write subset_rights \<and> \<not> r_write p then (None, t)
          else if r_execute subset_rights \<and> \<not> r_execute p then (None, t)
          else if r_share subset_rights \<and> \<not> r_share p then (None, t)
          else if r_transfer subset_rights \<and> \<not> r_transfer p then (None, t)
          else
            let child_id = ct_next_cap_id t;
                (handle, t) = allocate_handle (t\<lparr>ct_next_cap_id := child_id + 1\<rparr>);
                child = \<lparr>c_id = child_id, c_resource_type = c_resource_type parent,
                         c_resource_id = c_resource_id parent, c_rights = subset_rights,
                         c_owner = ct_process_id t, c_generation = c_generation parent + 1,
                         c_user_handle = handle,
                         c_handle_generation = max (sat_add (c_handle_generation parent) 1) 1,
                         c_kind = c_kind parent, c_children = []\<rparr>;
                parent' = parent\<lparr>c_children := c_children parent @ [child_id]\<rparr> in
            (Some child_id,
             t\<lparr>ct_handles := (ct_handles t)(handle \<mapsto> child_id),
               ct_caps := bt_insert child_id child (bt_insert parent_id parent' (ct_caps t))\<rparr>))"

abbreviation ct_remove_cap :: "cap_id \<Rightarrow> capability \<Rightarrow> cap_table \<Rightarrow> cap_table" where
  "ct_remove_cap i cap t \<equiv>
     t\<lparr>ct_caps := bt_remove i (ct_caps t), ct_handles := (ct_handles t)(c_user_handle cap := None)\<rparr>"

lemma bt_remove_shorter: "bt_get m k = Some v \<Longrightarrow> length (bt_remove k m) < length m"
  unfolding bt_remove_def by (rule length_filter_less [OF bt_get_in_set]) simp_all

function ct_revoke_all :: "cap_id list \<Rightarrow> cap_table \<Rightarrow> cap_table" where
  "ct_revoke_all [] t = t"
| "ct_revoke_all (i # todo) t =
     (case bt_get (ct_caps t) i of
        None \<Rightarrow> ct_revoke_all todo t
      | Some cap \<Rightarrow> ct_revoke_all (c_children cap @ todo) (ct_remove_cap i cap t))"
  by pat_completeness auto
termination
  by (relation "measures [\<lambda>(ids, t). length (ct_caps t), \<lambda>(ids, t). length ids]")
    (auto simp: bt_remove_shorter)

definition ct_revoke :: "cap_id \<Rightarrow> cap_table \<Rightarrow> bool \<times> cap_table" where
  "ct_revoke i t = (bt_get (ct_caps t) i \<noteq> None, ct_revoke_all [i] t)"

definition ct_revoke_handle :: "user_handle \<Rightarrow> cap_table \<Rightarrow> bool \<times> cap_table" where
  "ct_revoke_handle h t = (case ct_handles t h of None \<Rightarrow> (False, t) | Some i \<Rightarrow> ct_revoke i t)"

definition ct_transfer :: "cap_id \<Rightarrow> u64 \<Rightarrow> cap_table \<Rightarrow> capability option \<times> cap_table" where
  "ct_transfer i target_pid t =
     (case bt_get (ct_caps t) i of
        None \<Rightarrow> (None, t)
      | Some cap \<Rightarrow>
          let t = ct_remove_cap i cap t in
          if \<not> r_transfer (c_rights cap) then
            (None, t\<lparr>ct_handles := (ct_handles t)(c_user_handle cap \<mapsto> i), ct_caps := bt_insert i cap (ct_caps t)\<rparr>)
          else (Some (cap\<lparr>c_owner := target_pid, c_generation := sat_add (c_generation cap) 1\<rparr>), t))"

definition ct_insert_transferred :: "capability \<Rightarrow> cap_table \<Rightarrow> user_handle \<times> cap_table" where
  "ct_insert_transferred cap t =
     (let (handle, t) = allocate_handle t;
          cap = cap\<lparr>c_owner := ct_process_id t, c_user_handle := handle,
                    c_handle_generation := max (sat_add (c_handle_generation cap) 1) 1\<rparr> in
      (handle, t\<lparr>ct_handles := (ct_handles t)(handle \<mapsto> c_id cap), ct_caps := bt_insert (c_id cap) cap (ct_caps t)\<rparr>))"

section \<open>The tables of all processes\<close>

type_synonym cap_tables = "u64 \<rightharpoonup> cap_table"

definition ensure_process :: "u64 \<Rightarrow> cap_tables \<Rightarrow> cap_table" where
  "ensure_process pid ts = (case ts pid of Some t \<Rightarrow> t | None \<Rightarrow> ct_new pid)"

definition init_process :: "u64 \<Rightarrow> cap_tables \<Rightarrow> cap_tables" where
  "init_process pid ts = ts(pid \<mapsto> ensure_process pid ts)"

definition create_capability ::
    "u64 \<Rightarrow> resource_type \<Rightarrow> u64 \<Rightarrow> cap_rights \<Rightarrow> cap_tables \<Rightarrow> cap_id option \<times> cap_tables" where
  "create_capability pid rt rid rights ts =
     (case ts pid of None \<Rightarrow> (None, ts)
      | Some t \<Rightarrow> let (i, t) = ct_create rt rid rights t in (Some i, ts(pid \<mapsto> t)))"

definition check_capability :: "u64 \<Rightarrow> cap_id \<Rightarrow> cap_rights \<Rightarrow> cap_tables \<Rightarrow> bool" where
  "check_capability pid i rights ts = (case ts pid of None \<Rightarrow> False | Some t \<Rightarrow> ct_check i rights t)"

definition derive_capability :: "u64 \<Rightarrow> cap_id \<Rightarrow> cap_rights \<Rightarrow> cap_tables \<Rightarrow> cap_id option \<times> cap_tables" where
  "derive_capability pid parent_id subset_rights ts =
     (case ts pid of None \<Rightarrow> (None, ts)
      | Some t \<Rightarrow> let (r, t) = ct_derive parent_id subset_rights t in (r, ts(pid \<mapsto> t)))"

definition revoke_capability :: "u64 \<Rightarrow> cap_id \<Rightarrow> cap_tables \<Rightarrow> bool \<times> cap_tables" where
  "revoke_capability pid i ts =
     (case ts pid of None \<Rightarrow> (False, ts)
      | Some t \<Rightarrow> let (r, t) = ct_revoke i t in (r, ts(pid \<mapsto> t)))"

definition transfer_capability :: "u64 \<Rightarrow> cap_id \<Rightarrow> u64 \<Rightarrow> cap_tables \<Rightarrow> bool \<times> cap_tables" where
  "transfer_capability from_pid i to_pid ts =
     (case ts from_pid of None \<Rightarrow> (False, ts)
      | Some t \<Rightarrow>
          let (transferred, t) = ct_transfer i to_pid t; ts = ts(from_pid \<mapsto> t) in
          case transferred of
            None \<Rightarrow> (False, ts)
          | Some cap \<Rightarrow> (True, ts(to_pid \<mapsto> snd (ct_insert_transferred cap (ensure_process to_pid ts)))))"

definition cleanup_process :: "u64 \<Rightarrow> cap_tables \<Rightarrow> cap_tables" where
  "cleanup_process pid ts = ts(pid := None)"

definition seal_capability :: "u64 \<Rightarrow> cap_id \<Rightarrow> cap_tables \<Rightarrow> bool" where
  "seal_capability pid i ts =
     (case ts pid of None \<Rightarrow> False
      | Some t \<Rightarrow> (case bt_get (ct_caps t) i of None \<Rightarrow> False | Some cap \<Rightarrow> \<not> r_transfer (c_rights cap)))"

text \<open>
  The granting calls create a capability and return its handle; the \<open>expect\<close> on the lookup of the
  capability just created is the \<open>the\<close>.
\<close>

definition open_service_handle ::
    "u64 \<Rightarrow> u64 \<Rightarrow> cap_rights \<Rightarrow> u32 \<Rightarrow> u64 option \<Rightarrow> cap_tables \<Rightarrow> (capability_error + user_handle) \<times> cap_tables" where
  "open_service_handle pid service_id rights generation owner ts =
     (let (i, t) = ct_create_with_kind Service service_id rights
            (KService \<lparr>sr_service_id = service_id, sr_endpoint_generation = generation, sr_owner_endpoint = owner\<rparr>)
            (ensure_process pid ts) in
      (Inr (c_user_handle (the (ct_get i t))), ts(pid \<mapsto> t)))"

definition grant_request_handle ::
    "u64 \<Rightarrow> u64 \<Rightarrow> u64 \<Rightarrow> u32 \<Rightarrow> u64 option \<Rightarrow> cap_tables \<Rightarrow> (capability_error + user_handle) \<times> cap_tables" where
  "grant_request_handle pid request_id service_id generation owner ts =
     (let (i, t) = ct_create_with_kind Service service_id RIGHTS_READ_WRITE
            (KRequest \<lparr>qr_request_id = request_id, qr_service_id = service_id,
               qr_endpoint_generation = generation, qr_owner_endpoint = owner\<rparr>)
            (ensure_process pid ts) in
      (Inr (c_user_handle (the (ct_get i t))), ts(pid \<mapsto> t)))"

definition grant_shared_region_handle ::
    "u64 \<Rightarrow> u64 \<Rightarrow> u64 \<Rightarrow> u64 \<Rightarrow> bool \<Rightarrow> cap_tables \<Rightarrow> (capability_error + user_handle) \<times> cap_tables" where
  "grant_shared_region_handle pid region_id generation len writable ts =
     (let rights = (if writable then RIGHTS_READ_WRITE else RIGHTS_READ);
          (i, t) = ct_create_with_kind Memory region_id rights
            (KSharedRegion \<lparr>rr_region_id = region_id, rr_region_generation = generation, rr_len = len,
               rr_writable = writable\<rparr>)
            (ensure_process pid ts) in
      (Inr (c_user_handle (the (ct_get i t))), ts(pid \<mapsto> t)))"

definition revoke_handle :: "u64 \<Rightarrow> user_handle \<Rightarrow> cap_tables \<Rightarrow> (capability_error + unit) \<times> cap_tables" where
  "revoke_handle pid h ts =
     (case ts pid of None \<Rightarrow> (Inl ProcessNotInitialized, ts)
      | Some t \<Rightarrow> let (ok, t) = ct_revoke_handle h t in
          (if ok then Inr () else Inl InvalidHandle, ts(pid \<mapsto> t)))"

definition require_rights :: "capability \<Rightarrow> cap_rights \<Rightarrow> capability_error + unit" where
  "require_rights cap rights =
     (let granted = c_rights cap in
      if (r_read rights \<and> \<not> r_read granted) \<or> (r_write rights \<and> \<not> r_write granted) \<or>
         (r_execute rights \<and> \<not> r_execute granted) \<or> (r_share rights \<and> \<not> r_share granted) \<or>
         (r_transfer rights \<and> \<not> r_transfer granted)
      then Inl RightsDenied else Inr ())"

definition resolve_service_handle ::
    "u64 \<Rightarrow> user_handle \<Rightarrow> cap_rights \<Rightarrow> cap_tables \<Rightarrow> capability_error + service_record" where
  "resolve_service_handle pid h rights ts =
     (case ts pid of None \<Rightarrow> Inl ProcessNotInitialized
      | Some t \<Rightarrow> (case ct_get_by_handle h t of None \<Rightarrow> Inl InvalidHandle
         | Some cap \<Rightarrow> (case require_rights cap rights of Inl e \<Rightarrow> Inl e
            | Inr _ \<Rightarrow> (case c_kind cap of KService r \<Rightarrow> Inr r | _ \<Rightarrow> Inl WrongKind))))"

definition resolve_request_handle ::
    "u64 \<Rightarrow> user_handle \<Rightarrow> cap_tables \<Rightarrow> capability_error + request_record" where
  "resolve_request_handle pid h ts =
     (case ts pid of None \<Rightarrow> Inl ProcessNotInitialized
      | Some t \<Rightarrow> (case ct_get_by_handle h t of None \<Rightarrow> Inl InvalidHandle
         | Some cap \<Rightarrow> (case c_kind cap of KRequest r \<Rightarrow> Inr r | _ \<Rightarrow> Inl WrongKind)))"

definition resolve_shared_region_handle ::
    "u64 \<Rightarrow> user_handle \<Rightarrow> cap_rights \<Rightarrow> cap_tables \<Rightarrow> capability_error + shared_region_record" where
  "resolve_shared_region_handle pid h rights ts =
     (case ts pid of None \<Rightarrow> Inl ProcessNotInitialized
      | Some t \<Rightarrow> (case ct_get_by_handle h t of None \<Rightarrow> Inl InvalidHandle
         | Some cap \<Rightarrow> (case require_rights cap rights of Inl e \<Rightarrow> Inl e
            | Inr _ \<Rightarrow> (case c_kind cap of KSharedRegion r \<Rightarrow> Inr r | _ \<Rightarrow> Inl WrongKind))))"

section \<open>Descendants and revocation\<close>

inductive_set descendants :: "(cap_id, capability) btree \<Rightarrow> cap_id list \<Rightarrow> cap_id set"
  for m :: "(cap_id, capability) btree" and ids :: "cap_id list" where
  root: "i \<in> set ids \<Longrightarrow> bt_get m i \<noteq> None \<Longrightarrow> i \<in> descendants m ids"
| child: "i \<in> descendants m ids \<Longrightarrow> bt_get m i = Some c \<Longrightarrow> j \<in> set (c_children c) \<Longrightarrow> bt_get m j \<noteq> None \<Longrightarrow>
    j \<in> descendants m ids"

lemma descendants_Nil [simp]: "descendants m [] = {}"
proof -
  have False if "i \<in> descendants m []" for i
    using that by induction auto
  then show ?thesis by blast
qed

lemma descendants_mono: "i \<in> descendants m as \<Longrightarrow> set as \<subseteq> set bs \<Longrightarrow> i \<in> descendants m bs"
  by (induction rule: descendants.induct) (auto intro: descendants.intros)

lemma descendants_absent:
  assumes "bt_get m i = None"
  shows "descendants m (i # ids) = descendants m ids"
proof
  show "descendants m (i # ids) \<subseteq> descendants m ids"
  proof
    fix j assume "j \<in> descendants m (i # ids)"
    then show "j \<in> descendants m ids"
      using assms by induction (auto intro: descendants.intros)
  qed
qed (auto intro: descendants_mono)

lemma descendants_visit:
  assumes "bt_get m i = Some c"
  shows "descendants m (i # ids) = insert i (descendants (bt_remove i m) (c_children c @ ids))"
proof (rule set_eqI, rule iffI)
  fix j assume "j \<in> descendants m (i # ids)"
  then show "j \<in> insert i (descendants (bt_remove i m) (c_children c @ ids))"
  proof induction
    case (root j)
    then show ?case by (auto intro!: descendants.root simp: bt_get_remove)
  next
    case (child x cx j)
    show ?case
    proof (cases "j = i")
      case False
      with child.hyps have j: "bt_get (bt_remove i m) j \<noteq> None" by (simp add: bt_get_remove)
      show ?thesis
      proof (cases "x = i")
        case True
        with child.hyps assms j show ?thesis by (auto intro!: descendants.root)
      next
        case neq: False
        with child have "x \<in> descendants (bt_remove i m) (c_children c @ ids)"
          "bt_get (bt_remove i m) x = Some cx" by (simp_all add: bt_get_remove)
        with child.hyps j show ?thesis by (auto intro: descendants.child)
      qed
    qed simp
  qed
next
  fix j assume "j \<in> insert i (descendants (bt_remove i m) (c_children c @ ids))"
  moreover have i: "i \<in> descendants m (i # ids)"
    using assms by (auto intro: descendants.root)
  moreover have "j \<in> descendants m (i # ids)" if "j \<in> descendants (bt_remove i m) (c_children c @ ids)"
    using that
  proof induction
    case (root j)
    then have "bt_get m j \<noteq> None" by (auto simp: bt_get_remove split: if_splits)
    with root.hyps show ?case
      using descendants.child [OF i assms] by (auto intro: descendants.root)
  next
    case (child x cx j)
    then have "bt_get m x = Some cx" "bt_get m j \<noteq> None" by (auto simp: bt_get_remove split: if_splits)
    with child show ?case by (auto intro: descendants.child)
  qed
  ultimately show "j \<in> descendants m (i # ids)" by blast
qed

lemma revoke_all_get:
  "bt_get (ct_caps (ct_revoke_all ids t)) j =
     (if j \<in> descendants (ct_caps t) ids then None else bt_get (ct_caps t) j)"
proof (induction ids t rule: ct_revoke_all.induct)
  case (2 i todo t)
  show ?case
  proof (cases "bt_get (ct_caps t) i")
    case None
    with 2(1) show ?thesis by (simp add: descendants_absent)
  next
    case (Some c)
    with 2(2) [OF Some] show ?thesis
      by (simp add: descendants_visit bt_get_remove)
  qed
qed simp

section \<open>The table invariant\<close>

definition rights_le :: "cap_rights \<Rightarrow> cap_rights \<Rightarrow> bool" where
  "rights_le a b \<longleftrightarrow> (r_read a \<longrightarrow> r_read b) \<and> (r_write a \<longrightarrow> r_write b) \<and> (r_execute a \<longrightarrow> r_execute b) \<and>
     (r_share a \<longrightarrow> r_share b) \<and> (r_transfer a \<longrightarrow> r_transfer b)"

definition derived_from :: "capability \<Rightarrow> capability \<Rightarrow> bool" where
  "derived_from d c \<longleftrightarrow> rights_le (c_rights d) (c_rights c) \<and> c_resource_type d = c_resource_type c \<and>
     c_resource_id d = c_resource_id c \<and> c_kind d = c_kind c"

text \<open>
  \<open>cap_inv n t\<close>: at most \<open>n\<close> identifiers and handles have been allocated, capabilities and handles
  correspond one to one, and a capability that lists another as its child grants no less.
\<close>

definition cap_inv :: "nat \<Rightarrow> cap_table \<Rightarrow> bool" where
  "cap_inv n t \<longleftrightarrow> bt_wf (ct_caps t) \<and> 1 \<le> unat (ct_next_cap_id t) \<and> unat (ct_next_cap_id t) \<le> Suc n \<and>
     1 \<le> unat (ct_next_handle t) \<and> unat (ct_next_handle t) \<le> Suc n \<and>
     (\<forall>i c. bt_get (ct_caps t) i = Some c \<longrightarrow> c_id c = i \<and> i < ct_next_cap_id t \<and>
        c_owner c = ct_process_id t \<and> ct_handles t (c_user_handle c) = Some i \<and>
        (\<forall>j \<in> set (c_children c). j < ct_next_cap_id t \<and>
           (\<forall>d. bt_get (ct_caps t) j = Some d \<longrightarrow> derived_from d c))) \<and>
     (\<forall>h i. ct_handles t h = Some i \<longrightarrow> h < ct_next_handle t \<and>
        (\<exists>c. bt_get (ct_caps t) i = Some c \<and> c_user_handle c = h))"

lemma cap_inv_new: "cap_inv 0 (ct_new pid)"
  by (simp add: cap_inv_def ct_new_def)

lemma cap_inv_mono: "cap_inv n t \<Longrightarrow> n \<le> m \<Longrightarrow> cap_inv m t"
  by (auto simp: cap_inv_def)

lemma cap_inv_remove:
  assumes inv: "cap_inv n t" and i: "bt_get (ct_caps t) i = Some c"
  shows "cap_inv n (ct_remove_cap i c t)"
proof -
  have "ct_handles t (c_user_handle c) = Some i"
    using inv i by (auto simp: cap_inv_def)
  moreover have "c_user_handle d \<noteq> c_user_handle c" if "bt_get (ct_caps t) j = Some d" "j \<noteq> i" for j d
    using inv i that unfolding cap_inv_def by (metis option.inject)
  moreover have "j \<noteq> i" if "ct_handles t h = Some j" "h \<noteq> c_user_handle c" for h j
    using inv i that unfolding cap_inv_def by (metis option.inject)
  ultimately show ?thesis
    using inv by (simp add: cap_inv_def bt_get_remove)
qed

lemma cap_inv_revoke_all: "cap_inv n t \<Longrightarrow> cap_inv n (ct_revoke_all ids t)"
proof (induction ids t rule: ct_revoke_all.induct)
  case (2 i todo t)
  then show ?case
    by (cases "bt_get (ct_caps t) i") (simp_all add: cap_inv_remove)
qed simp

declare ct_revoke_all.simps(2) [simp del]

lemma allocate_handle_exact:
  assumes "1 \<le> unat (ct_next_handle t)" "unat (ct_next_handle t) < 2 ^ 32 - 1"
  shows "allocate_handle t = (ct_next_handle t, t\<lparr>ct_next_handle := ct_next_handle t + 1\<rparr>)"
    and "unat (ct_next_handle t + 1) = Suc (unat (ct_next_handle t))"
proof -
  let ?h = "ct_next_handle t"
  have one: "unat (1 :: u32) = 1" by simp
  have sum: "unat ?h + unat (1 :: u32) < 2 ^ LENGTH(32)" using assms by simp
  then show inc: "unat (?h + 1) = Suc (unat ?h)" by (simp add: unat_word_ariths)
  have "1 \<le> ?h" using assms(1) by (simp add: word_le_nat_alt)
  moreover have "1 \<le> ?h + 1" using inc by (simp add: word_le_nat_alt)
  ultimately show "allocate_handle t = (?h, t\<lparr>ct_next_handle := ?h + 1\<rparr>)"
    using sum by (simp add: allocate_handle_def sat_add_def max_def)
qed

lemma next_id_inc:
  "unat (i :: u64) < 2 ^ 32 - 1 \<Longrightarrow> unat (i + 1) = Suc (unat i)"
  by (simp add: unat_word_ariths)

text \<open>Entering a new capability under the next identifier and the next handle.\<close>

lemma cap_inv_insert:
  assumes inv: "cap_inv n t" and n: "n < 2 ^ 32 - 2"
    and cap: "c_id cap = ct_next_cap_id t" "c_owner cap = ct_process_id t"
      "c_user_handle cap = ct_next_handle t" "c_children cap = []"
  shows "cap_inv (Suc n) (t\<lparr>ct_next_cap_id := ct_next_cap_id t + 1, ct_next_handle := ct_next_handle t + 1,
    ct_handles := (ct_handles t)(ct_next_handle t \<mapsto> ct_next_cap_id t),
    ct_caps := bt_insert (ct_next_cap_id t) cap (ct_caps t)\<rparr>)"
proof -
  let ?i = "ct_next_cap_id t" and ?h = "ct_next_handle t"
  have wf: "bt_wf (ct_caps t)" and b: "unat ?i \<le> Suc n" "unat ?h \<le> Suc n" "1 \<le> unat ?h"
    using inv by (simp_all add: cap_inv_def)
  have i: "unat (?i + 1) = Suc (unat ?i)"
    using b n by (intro next_id_inc) simp
  have h: "unat (?h + 1) = Suc (unat ?h)"
    using b n by (intro allocate_handle_exact(2)) simp_all
  have less: "j < ?i + 1" if "j < ?i \<or> j = ?i" for j
    using that i by (auto simp: word_less_nat_alt)
  have lessh: "j < ?h + 1" if "j < ?h \<or> j = ?h" for j
    using that h by (auto simp: word_less_nat_alt)
  have fresh: "bt_get (ct_caps t) ?i = None"
  proof (rule ccontr)
    assume "bt_get (ct_caps t) ?i \<noteq> None"
    then have "?i < ?i" using inv unfolding cap_inv_def by blast
    then show False by simp
  qed
  have new_child: "j \<noteq> ?i" if "bt_get (ct_caps t) k = Some c" "j \<in> set (c_children c)" for k c j
    using inv that unfolding cap_inv_def by blast
  have new_handle: "c_user_handle c \<noteq> ?h" if "bt_get (ct_caps t) k = Some c" for k c
    using inv that unfolding cap_inv_def by (metis less_irrefl)
  have old: "c_id c = k \<and> k < ?i \<and> c_owner c = ct_process_id t \<and> ct_handles t (c_user_handle c) = Some k"
    "\<forall>j \<in> set (c_children c). j < ?i \<and> (\<forall>d. bt_get (ct_caps t) j = Some d \<longrightarrow> derived_from d c)"
    if "bt_get (ct_caps t) k = Some c" for k c
    using inv that unfolding cap_inv_def by blast+
  have oldh: "g < ?h \<and> (\<exists>c. bt_get (ct_caps t) k = Some c \<and> c_user_handle c = g)" if "ct_handles t g = Some k" for g k
    using inv that unfolding cap_inv_def by blast
  show ?thesis
    unfolding cap_inv_def
    using wf b i h cap
    by (auto simp: bt_get_insert less lessh fresh dest: old new_child new_handle oldh)
qed

lemma cap_inv_bounds:
  "cap_inv n t \<Longrightarrow> n < 2 ^ 32 - 2 \<Longrightarrow> 1 \<le> unat (ct_next_handle t) \<and> unat (ct_next_handle t) < 2 ^ 32 - 1"
  by (auto simp: cap_inv_def)

lemma create_inv [echos_inv]:
  assumes "cap_inv n t" "n < 2 ^ 32 - 2"
  shows "cap_inv (Suc n) (snd (ct_create_with_kind rt rid rights kind t))"
proof -
  let ?t = "t\<lparr>ct_next_cap_id := ct_next_cap_id t + 1\<rparr>"
  have "allocate_handle ?t = (ct_next_handle t, ?t\<lparr>ct_next_handle := ct_next_handle t + 1\<rparr>)"
    using allocate_handle_exact(1) [of ?t] cap_inv_bounds [OF assms] by simp
  then show ?thesis
    using cap_inv_insert [OF assms, of "\<lparr>c_id = ct_next_cap_id t, c_resource_type = rt, c_resource_id = rid,
        c_rights = rights, c_owner = ct_process_id t, c_generation = 0, c_user_handle = ct_next_handle t,
        c_handle_generation = 1, c_kind = kind, c_children = []\<rparr>"]
    by (simp add: ct_create_with_kind_def Let_def)
qed

lemma cap_inv_add_child:
  assumes inv: "cap_inv n t" and p: "bt_get (ct_caps t) p = Some c"
    and j: "bt_get (ct_caps t) j = Some d" "derived_from d c"
    and m: "bt_wf m" "\<And>k. bt_get m k = (if k = p then Some (c\<lparr>c_children := c_children c @ [j]\<rparr>) else bt_get (ct_caps t) k)"
  shows "cap_inv n (t\<lparr>ct_caps := m\<rparr>)"
proof -
  have same: "derived_from (x\<lparr>c_children := cs\<rparr>) y = derived_from x y"
    "derived_from x (y\<lparr>c_children := cs\<rparr>) = derived_from x y" for x y cs
    by (simp_all add: derived_from_def)
  have refl: "derived_from x x" for x by (simp add: derived_from_def rights_le_def)
  have "j < ct_next_cap_id t" using inv j unfolding cap_inv_def by blast
  moreover have "c_user_handle c = h" if "ct_handles t h = Some p" for h
    using inv p that unfolding cap_inv_def by fastforce
  ultimately show ?thesis
    using inv p j m unfolding cap_inv_def by (auto simp: same refl)
qed

lemma derive_inv [echos_inv]:
  assumes inv: "cap_inv n t" and n: "n < 2 ^ 32 - 2"
  shows "cap_inv (Suc n) (snd (ct_derive p rights t))"
proof (cases "\<exists>c. bt_get (ct_caps t) p = Some c \<and> rights_le rights (c_rights c)")
  case False
  then have "snd (ct_derive p rights t) = t"
    by (auto simp: ct_derive_def rights_le_def Let_def split: option.splits)
  then show ?thesis using cap_inv_mono [OF inv] by simp
next
  case True
  then obtain c where c: "bt_get (ct_caps t) p = Some c" and le: "rights_le rights (c_rights c)" by blast
  let ?i = "ct_next_cap_id t" and ?h = "ct_next_handle t"
  let ?t = "t\<lparr>ct_next_cap_id := ?i + 1\<rparr>"
  let ?d = "\<lparr>c_id = ?i, c_resource_type = c_resource_type c, c_resource_id = c_resource_id c, c_rights = rights,
     c_owner = ct_process_id t, c_generation = c_generation c + 1, c_user_handle = ?h,
     c_handle_generation = max (sat_add (c_handle_generation c) 1) 1, c_kind = c_kind c, c_children = []\<rparr>"
  let ?t1 = "t\<lparr>ct_next_cap_id := ?i + 1, ct_next_handle := ?h + 1, ct_handles := (ct_handles t)(?h \<mapsto> ?i),
    ct_caps := bt_insert ?i ?d (ct_caps t)\<rparr>"
  let ?m = "bt_insert ?i ?d (bt_insert p (c\<lparr>c_children := c_children c @ [?i]\<rparr>) (ct_caps t))"
  have wf: "bt_wf (ct_caps t)" using inv by (simp add: cap_inv_def)
  have "p < ?i" using inv c unfolding cap_inv_def by blast
  then have pi: "p \<noteq> ?i" by simp
  have "cap_inv (Suc n) ?t1"
    using inv n by (rule cap_inv_insert) simp_all
  then have "cap_inv (Suc n) (?t1\<lparr>ct_caps := ?m\<rparr>)"
    by (rule cap_inv_add_child [where p = p and c = c and j = ?i and d = ?d])
      (use wf c le pi in \<open>auto simp: bt_get_insert derived_from_def\<close>)
  moreover have "allocate_handle ?t = (?h, ?t\<lparr>ct_next_handle := ?h + 1\<rparr>)"
    using allocate_handle_exact(1) [of ?t] cap_inv_bounds [OF inv n] by simp
  moreover have "\<not> (r_read rights \<and> \<not> r_read (c_rights c))" "\<not> (r_write rights \<and> \<not> r_write (c_rights c))"
    "\<not> (r_execute rights \<and> \<not> r_execute (c_rights c))" "\<not> (r_share rights \<and> \<not> r_share (c_rights c))"
    "\<not> (r_transfer rights \<and> \<not> r_transfer (c_rights c))"
    using le by (simp_all add: rights_le_def)
  ultimately have "cap_inv (Suc n) (?t1\<lparr>ct_caps := ?m\<rparr>)" "snd (ct_derive p rights t) = ?t1\<lparr>ct_caps := ?m\<rparr>"
    using c by (simp_all only: ct_derive_def Let_def if_False option.case prod.case snd_conv) simp_all
  then show ?thesis by simp
qed

lemma bt_insert_same:
  assumes "bt_wf m" "bt_get m i = Some c"
  shows "bt_insert i c (bt_remove i m) = m"
proof -
  have "(i, c) \<in> set m" using assms(2) by (rule bt_get_in_set)
  then obtain as bs where m: "m = as @ (i, c) # bs" using split_list by fastforce
  with assms(1) have "\<forall>x \<in> set as. fst x < i" "\<forall>x \<in> set bs. i < fst x"
    by (auto simp: bt_wf_append bt_wf_Cons)
  moreover from this have "filter (\<lambda>e. fst e \<noteq> i) as = as" "filter (\<lambda>e. fst e \<noteq> i) bs = bs"
    by (auto simp: filter_id_conv)
  then have "bt_remove i m = as @ bs"
    using m by (simp add: bt_remove_def)
  moreover have "bt_wf (as @ bs)" using assms(1) m by (auto simp: bt_wf_append bt_wf_Cons)
  moreover have "filter (\<lambda>e. fst e < i) bs = []" "filter (\<lambda>e. i < fst e) as = []"
    "filter (\<lambda>e. fst e < i) as = as" "filter (\<lambda>e. i < fst e) bs = bs"
    using calculation(1,2) by (force simp: filter_empty_conv filter_id_conv)+
  ultimately show ?thesis
    using m by (simp add: bt_insert_filter)
qed

lemma transfer_inv [echos_inv]:
  assumes inv: "cap_inv n t"
  shows "cap_inv n (snd (ct_transfer i pid t))"
proof (cases "bt_get (ct_caps t) i")
  case None
  with inv show ?thesis by (simp add: ct_transfer_def)
next
  case (Some c)
  have "bt_wf (ct_caps t)" "ct_handles t (c_user_handle c) = Some i"
    using inv Some by (auto simp: cap_inv_def)
  then have "t\<lparr>ct_handles := (ct_handles t)(c_user_handle c \<mapsto> i),
      ct_caps := bt_insert i c (bt_remove i (ct_caps t))\<rparr> = t"
    using Some by (simp add: bt_insert_same fun_upd_idem)
  with Some inv cap_inv_remove [OF inv Some] show ?thesis
    by (auto simp: ct_transfer_def Let_def)
qed

section \<open>Runs on one table\<close>

datatype cap_op =
    CCreate resource_type u64 cap_rights capability_kind
  | CDerive cap_id cap_rights | CRevoke cap_id | CRevokeHandle user_handle | CTransferOut cap_id u64

fun cap_step :: "cap_op \<Rightarrow> cap_table \<Rightarrow> cap_table" where
  "cap_step (CCreate rt rid r k) t = snd (ct_create_with_kind rt rid r k t)"
| "cap_step (CDerive p r) t = snd (ct_derive p r t)"
| "cap_step (CRevoke i) t = snd (ct_revoke i t)"
| "cap_step (CRevokeHandle h) t = snd (ct_revoke_handle h t)"
| "cap_step (CTransferOut i pid) t = snd (ct_transfer i pid t)"

lemma cap_step_inv: "cap_inv n t \<Longrightarrow> n < 2 ^ 32 - 2 \<Longrightarrow> cap_inv (Suc n) (cap_step a t)"
  by (cases a) (auto simp: ct_revoke_def ct_revoke_handle_def create_inv derive_inv
      split: option.splits
      intro!: cap_inv_mono [of n _ "Suc n"] cap_inv_revoke_all transfer_inv)

lemma cap_run_inv:
  "cap_inv n t \<Longrightarrow> n + length ops < 2 ^ 32 - 1 \<Longrightarrow> cap_inv (n + length ops) (fold cap_step ops t)"
proof (induction ops arbitrary: n t)
  case (Cons a ops)
  then have "cap_inv (Suc n) (cap_step a t)" by (intro cap_step_inv) simp_all
  with Cons.IH [of "Suc n"] Cons.prems(2) show ?case by simp
qed simp

lemma cap_reach_inv:
  assumes "length ops < 2 ^ 32 - 1"
  shows "cap_inv (length ops) (fold cap_step ops (ct_new pid))"
  using cap_run_inv [OF cap_inv_new, of ops pid] assms by simp

lemma rights_le_refl: "rights_le r r"
  by (simp add: rights_le_def)

lemma rights_le_trans: "rights_le a b \<Longrightarrow> rights_le b c \<Longrightarrow> rights_le a c"
  by (auto simp: rights_le_def)

lemma descendants_derived:
  assumes inv: "cap_inv n t" and c: "bt_get (ct_caps t) i = Some c"
  shows "j \<in> descendants (ct_caps t) [i] \<Longrightarrow> bt_get (ct_caps t) j = Some d \<Longrightarrow> derived_from d c"
proof (induction arbitrary: d rule: descendants.induct)
  case (root j)
  with c show ?case by (simp add: derived_from_def rights_le_refl)
next
  case (child x cx j)
  have "derived_from cx c" using child.IH child.hyps(2) by blast
  moreover have "derived_from d cx"
    using inv child.hyps(2,3) child.prems unfolding cap_inv_def by blast
  ultimately show ?case
    by (auto simp: derived_from_def intro: rights_le_trans)
qed

lemma cap_inv_handle:
  "cap_inv n t \<Longrightarrow> bt_get (ct_caps t) i = Some c \<Longrightarrow> ct_handles t (c_user_handle c) = Some i"
  unfolding cap_inv_def by blast

lemma handle_get:
  assumes "cap_inv n t"
  shows "ct_get_by_handle h t = Some c \<longleftrightarrow> ct_get (c_id c) t = Some c \<and> c_user_handle c = h"
proof
  assume "ct_get_by_handle h t = Some c"
  then obtain i where i: "ct_handles t h = Some i" "bt_get (ct_caps t) i = Some c"
    by (auto simp: ct_get_by_handle_def split: option.splits)
  then show "ct_get (c_id c) t = Some c \<and> c_user_handle c = h"
    using assms unfolding cap_inv_def ct_get_def by (metis option.inject)
next
  assume "ct_get (c_id c) t = Some c \<and> c_user_handle c = h"
  then show "ct_get_by_handle h t = Some c"
    using cap_inv_handle [OF assms, of "c_id c" c] by (auto simp: ct_get_def ct_get_by_handle_def)
qed

section \<open>Properties\<close>





text \<open>
  Transferred capabilities keep the identifier they had in the sender's table.  When the receiver
  already uses that identifier, its own capability is replaced: the receiver's old handle now
  denotes the transferred capability, and its own capability is gone.
\<close>

lemma cap_transfer_overwrites:
  assumes "ts a = Some s" "ts b = Some t" "a \<noteq> b"
    and "ct_get i s = Some cap" "c_id cap = i" "r_transfer (c_rights cap)"
    and "cap_inv n t" "n < 2 ^ 32 - 2" "ct_get_by_handle h t = Some own" "c_id own = i"
  shows "let r = transfer_capability a i b ts in fst r \<and>
    (\<exists>t' c. snd r b = Some t' \<and> ct_get_by_handle h t' = Some c \<and>
      c_resource_id c = c_resource_id cap \<and> c_kind c = c_kind cap \<and> c_rights c = c_rights cap)"
proof -
  have alloc: "allocate_handle t = (ct_next_handle t, t\<lparr>ct_next_handle := ct_next_handle t + 1\<rparr>)"
    using allocate_handle_exact(1) cap_inv_bounds [OF assms(7,8)] by blast
  have wf: "bt_wf (ct_caps t)" using assms(7) by (simp add: cap_inv_def)
  have "ct_get i t = Some own \<and> c_user_handle own = h"
    using handle_get [OF assms(7)] assms(9,10) by auto
  then have h: "ct_handles t h = Some i" "h < ct_next_handle t"
    using assms(7) unfolding cap_inv_def ct_get_def by blast+
  then have "h \<noteq> ct_next_handle t" by auto
  with h assms wf alloc show ?thesis
    by (auto simp: transfer_capability_def ct_transfer_def ct_insert_transferred_def
        ensure_process_def ct_get_def ct_get_by_handle_def bt_get_insert Let_def)
qed

end
