(* ===== verification/Checksum.thy ===== *)
theory Checksum
  imports EchOS_Prelude
begin

text \<open>
  The Internet checksum of \<open>src/src/net/checksum.rs\<close>: one's complement sums of 16-bit words over packet
  bytes, their incremental update, the pseudo headers, and the computation and verification of the
  IPv4 and IPv6 transport checksums on whole packets.  Sums are 32-bit words that wrap, as in the code;
  the loops over bytes run on an index.
\<close>

section \<open>Model\<close>

record checksum_stats =
  tx_computed :: u64
  tx_offloaded :: u64
  rx_verified :: u64
  rx_offloaded :: u64
  ck_errors :: u64

definition checksum_stats_new :: checksum_stats where
  "checksum_stats_new = \<lparr>tx_computed = 0, tx_offloaded = 0, rx_verified = 0, rx_offloaded = 0, ck_errors = 0\<rparr>"

definition from_be_bytes :: "u8 \<Rightarrow> u8 \<Rightarrow> u16" where
  "from_be_bytes hi lo = of_nat (unat hi * 256 + unat lo)"

function sum_words :: "u8 list \<Rightarrow> nat \<Rightarrow> nat \<Rightarrow> u32 \<Rightarrow> u32 \<times> nat" where
  "sum_words data i n acc =
     (if i + 1 < n then sum_words data (i + 2) n (acc + ucast (from_be_bytes (data ! i) (data ! (i + 1)))) else (acc, i))"
  by pat_completeness auto
termination by (relation "measure (\<lambda>(data, i, n, acc). n - i)") auto

declare sum_words.simps [simp del]

definition sum_bytes :: "u8 list \<Rightarrow> nat \<Rightarrow> nat \<Rightarrow> u32 \<Rightarrow> u32" where
  "sum_bytes data start n sum0 =
     (let (sum, i) = sum_words data start n sum0 in
      if i < n then sum + push_bit 8 (ucast (data ! i)) else sum)"

lemma and_low16: "unat ((s :: u32) AND 0xFFFF) = unat s mod 65536"
proof -
  have "s AND 0xFFFF = s mod 65536"
    using take_bit_eq_mask [of 16 s] by (simp add: mask_eq_exp_minus_1 take_bit_eq_mod)
  then show ?thesis by (simp add: unat_mod)
qed

lemma drop_high16: "unat (drop_bit 16 (s :: u32)) = unat s div 65536"
  by (simp add: drop_bit_eq_div unat_div)

lemma fold_decreases:
  fixes s :: u32
  assumes "drop_bit 16 s \<noteq> 0"
  shows "unat ((s AND 0xFFFF) + drop_bit 16 s) = unat s mod 65536 + unat s div 65536"
    and "unat s mod 65536 + unat s div 65536 < unat s"
proof -
  note lo = and_low16 [of s] and hi = drop_high16 [of s]
  have s: "unat s < 4294967296" using unsigned_less [of s, where ?'a = nat] by simp
  have "unat s mod 65536 + unat s div 65536 < 2 ^ LENGTH(32)"
    using s mod_less_divisor [of 65536 "unat s"] div_le_dividend [of "unat s" 65536] by simp
  then show "unat ((s AND 0xFFFF) + drop_bit 16 s) = unat s mod 65536 + unat s div 65536"
    using unat_add_lem [THEN iffD1, of "s AND 0xFFFF" "drop_bit 16 s"] by (simp add: lo hi)
  have "unat s div 65536 \<noteq> 0"
    using assms hi by (metis unat_eq_zero)
  moreover have "unat s = 65536 * (unat s div 65536) + unat s mod 65536" by simp
  ultimately show "unat s mod 65536 + unat s div 65536 < unat s" by linarith
qed

function fold16 :: "u32 \<Rightarrow> u32" where
  "fold16 s = (if drop_bit 16 s \<noteq> 0 then fold16 ((s AND 0xFFFF) + drop_bit 16 s) else s)"
  by pat_completeness auto
termination by (relation "measure unat") (use fold_decreases in auto)

declare fold16.simps [simp del]

definition internet_checksum :: "u8 list \<Rightarrow> u16" where
  "internet_checksum data = NOT (ucast (fold16 (sum_bytes data 0 (length data) 0)))"

definition update_checksum :: "u16 \<Rightarrow> u16 \<Rightarrow> u16 \<Rightarrow> u16" where
  "update_checksum old_csum old_value new_value =
     NOT (ucast (fold16 (ucast (NOT old_csum) + ucast (NOT old_value) + ucast new_value)))"

definition partial_checksum :: "u8 list \<Rightarrow> nat \<Rightarrow> nat \<Rightarrow> u32" where
  "partial_checksum data start stop = sum_bytes data start (min stop (length data)) 0"

definition ipv4_pseudo_header_checksum :: "u8 list \<Rightarrow> u8 list \<Rightarrow> u8 \<Rightarrow> u16 \<Rightarrow> u32" where
  "ipv4_pseudo_header_checksum src_ip dst_ip protocol transport_len =
     (let sum = 0;
          sum = sum + ucast (from_be_bytes (src_ip ! 0) (src_ip ! 1));
          sum = sum + ucast (from_be_bytes (src_ip ! 2) (src_ip ! 3));
          sum = sum + ucast (from_be_bytes (dst_ip ! 0) (dst_ip ! 1));
          sum = sum + ucast (from_be_bytes (dst_ip ! 2) (dst_ip ! 3));
          sum = sum + ucast protocol;
          sum = sum + ucast transport_len in sum)"

definition ipv6_pseudo_header_checksum :: "u8 list \<Rightarrow> u8 list \<Rightarrow> u8 \<Rightarrow> u32 \<Rightarrow> u32" where
  "ipv6_pseudo_header_checksum src_ip dst_ip next_header transport_len =
     (let sum = fst (sum_words src_ip 0 16 0);
          sum = fst (sum_words dst_ip 0 16 sum);
          sum = sum + drop_bit 16 transport_len;
          sum = sum + (transport_len AND 0xFFFF);
          sum = sum + ucast next_header in sum)"

definition fold_checksum :: "u32 \<Rightarrow> u16" where
  "fold_checksum s = NOT (ucast (fold16 s))"

definition unfold_checksum :: "u32 \<Rightarrow> u16" where
  "unfold_checksum s = ucast (fold16 s)"

text \<open>Local checksum offload; an index out of range ends in a panic, the value \<open>None\<close>.\<close>

definition lco_checksum :: "u8 list \<Rightarrow> nat \<Rightarrow> int \<Rightarrow> u16 option" where
  "lco_checksum packet csum_start csum_offset =
     (let sum = fst (sum_words packet 0 (min csum_start (length packet)) 0);
          field_offset = nat ((int csum_start + csum_offset) mod 2 ^ 64) in
      if (field_offset + 1) mod 2 ^ 64 < length packet then
        if length packet \<le> field_offset then None
        else Some (fold_checksum (sum + ucast (NOT (from_be_bytes (packet ! field_offset) (packet ! (field_offset + 1))))))
      else Some (fold_checksum sum))"

text \<open>Writing a 16-bit field in network order, as the two byte assignments of the code do.\<close>

definition put_be16 :: "nat \<Rightarrow> u16 \<Rightarrow> u8 list \<Rightarrow> u8 list" where
  "put_be16 k c p = p[k := ucast (drop_bit 8 c), k + 1 := ucast (c AND 0xFF)]"

abbreviation header_len :: "u8 list \<Rightarrow> nat" where
  "header_len packet \<equiv> unat (packet ! 14 AND 0x0F) * 4"

definition sub_slice :: "nat \<Rightarrow> nat \<Rightarrow> u8 list \<Rightarrow> u8 list" where
  "sub_slice a b xs = drop a (take b xs)"

definition fill_ip_checksum :: "nat \<Rightarrow> u8 list \<Rightarrow> u8 list" where
  "fill_ip_checksum ihl packet =
     (let packet = packet[24 := 0, 25 := 0];
          ip_csum = internet_checksum (sub_slice 14 (14 + ihl) packet) in
      put_be16 24 ip_csum packet)"

definition transport_sum :: "u8 \<Rightarrow> nat \<Rightarrow> u8 list \<Rightarrow> u32" where
  "transport_sum protocol offset packet =
     (let src_ip = sub_slice 26 30 packet; dst_ip = sub_slice 30 34 packet;
          len = of_nat (length packet - offset);
          pseudo_sum = ipv4_pseudo_header_checksum src_ip dst_ip protocol len in
      pseudo_sum + partial_checksum packet offset (length packet))"

definition compute_ipv4_tcp_checksum :: "u8 list \<Rightarrow> checksum_stats \<Rightarrow> bool \<times> u8 list \<times> checksum_stats" where
  "compute_ipv4_tcp_checksum packet st =
     (if length packet < 54 then (False, packet, st)
      else
        let ihl = header_len packet; tcp_offset = 14 + ihl in
        if length packet < tcp_offset + 20 then (False, packet, st)
        else
          let packet = fill_ip_checksum ihl packet;
              csum_offset = tcp_offset + 16;
              packet = packet[csum_offset := 0, csum_offset + 1 := 0];
              csum = fold_checksum (transport_sum 6 tcp_offset packet) in
          (True, put_be16 csum_offset csum packet, st\<lparr>tx_computed := tx_computed st + 1\<rparr>))"

definition compute_ipv4_udp_checksum :: "u8 list \<Rightarrow> checksum_stats \<Rightarrow> bool \<times> u8 list \<times> checksum_stats" where
  "compute_ipv4_udp_checksum packet st =
     (if length packet < 42 then (False, packet, st)
      else
        let ihl = header_len packet; udp_offset = 14 + ihl in
        if length packet < udp_offset + 8 then (False, packet, st)
        else
          let packet = fill_ip_checksum ihl packet;
              csum_offset = udp_offset + 6;
              packet = packet[csum_offset := 0, csum_offset + 1 := 0];
              csum = fold_checksum (transport_sum 17 udp_offset packet);
              final_csum = (if csum = 0 then 0xFFFF else csum) in
          (True, put_be16 csum_offset final_csum packet, st\<lparr>tx_computed := tx_computed st + 1\<rparr>))"

definition verify_ipv4_tcp_checksum :: "u8 list \<Rightarrow> checksum_stats \<Rightarrow> bool \<times> checksum_stats" where
  "verify_ipv4_tcp_checksum packet st =
     (if length packet < 54 then (False, st)
      else
        let ihl = header_len packet; tcp_offset = 14 + ihl in
        if length packet < tcp_offset + 20 then (False, st)
        else if internet_checksum (sub_slice 14 (14 + ihl) packet) \<noteq> 0 then (False, st\<lparr>ck_errors := ck_errors st + 1\<rparr>)
        else
          (unfold_checksum (transport_sum 6 tcp_offset packet) = 0xFFFF, st\<lparr>rx_verified := rx_verified st + 1\<rparr>))"

definition compute_ipv6_tcp_checksum :: "u8 list \<Rightarrow> u8 list \<Rightarrow> u8 list \<Rightarrow> u8 list \<Rightarrow> u16" where
  "compute_ipv6_tcp_checksum src dst tcp_header payload =
     (let tcp_len = of_nat (length tcp_header + length payload);
          sum = ipv6_pseudo_header_checksum src dst 6 tcp_len;
          sum = sum_bytes tcp_header 0 (length tcp_header) sum;
          sum = sum_bytes payload 0 (length payload) sum in
      fold_checksum sum)"

definition compute_ipv6_udp_checksum :: "u8 list \<Rightarrow> u8 list \<Rightarrow> u8 list \<Rightarrow> u8 list \<Rightarrow> u16" where
  "compute_ipv6_udp_checksum src dst udp_header payload =
     (let udp_len = of_nat (length udp_header + length payload);
          sum = ipv6_pseudo_header_checksum src dst 17 udp_len;
          sum = sum_bytes udp_header 0 (length udp_header) sum;
          sum = sum_bytes payload 0 (length payload) sum;
          csum = fold_checksum sum in
      if csum = 0 then 0xFFFF else csum)"

definition verify_ipv6_tcp_checksum :: "u8 list \<Rightarrow> u8 list \<Rightarrow> u8 list \<Rightarrow> checksum_stats \<Rightarrow> bool \<times> checksum_stats" where
  "verify_ipv6_tcp_checksum src dst tcp_segment st =
     (if length tcp_segment < 20 then (False, st)
      else
        let data_offset = unat (drop_bit 4 (tcp_segment ! 12)) * 4 in
        if length tcp_segment < data_offset then (False, st)
        else
          let computed = compute_ipv6_tcp_checksum src dst (take data_offset tcp_segment) (drop data_offset tcp_segment);
              sum = sum_bytes tcp_segment 0 (length tcp_segment) (ucast computed) in
          (unfold_checksum sum = 0xFFFF, st\<lparr>rx_verified := rx_verified st + 1\<rparr>))"

definition verify_ipv6_udp_checksum :: "u8 list \<Rightarrow> u8 list \<Rightarrow> u8 list \<Rightarrow> checksum_stats \<Rightarrow> bool \<times> checksum_stats" where
  "verify_ipv6_udp_checksum src dst udp_segment st =
     (if length udp_segment < 8 then (False, st)
      else
        let computed = compute_ipv6_udp_checksum src dst (take 8 udp_segment) (drop 8 udp_segment);
            sum = sum_bytes udp_segment 0 (length udp_segment) (ucast computed) in
        (unfold_checksum sum = 0xFFFF, st\<lparr>rx_verified := rx_verified st + 1\<rparr>))"

section \<open>Sums as numbers\<close>

text \<open>The sum of the 16-bit words of a byte sequence, an odd last byte counting as the upper half.\<close>

fun word_sum :: "u8 list \<Rightarrow> nat" where
  "word_sum (a # b # xs) = unat a * 256 + unat b + word_sum xs"
| "word_sum [a] = unat a * 256"
| "word_sum [] = 0"

lemma u8_less: "unat (a :: u8) < 256"
  using unsigned_less [of a, where ?'a = nat] by simp

lemma u16_less: "unat (a :: u16) < 65536"
  using unsigned_less [of a, where ?'a = nat] by simp

lemma unat_from_be_bytes: "unat (from_be_bytes a b) = unat a * 256 + unat b"
proof -
  have "unat a * 256 + unat b < 65536" using u8_less [of a] u8_less [of b] by linarith
  then show ?thesis unfolding from_be_bytes_def by (intro unat_of_nat_small) simp
qed

lemma word_sum_bound: "word_sum xs \<le> 65535 * ((length xs + 1) div 2)"
proof (induction xs rule: word_sum.induct)
  case (1 a b xs)
  have "unat a * 256 + unat b \<le> 65535" using u8_less [of a] u8_less [of b] by linarith
  with 1 show ?case by simp
next
  case (2 a)
  then show ?case using u8_less [of a] by simp
qed simp

lemma unat_ucast_u32 [simp]: "unat (ucast (x :: u16) :: u32) = unat x" "unat (ucast (y :: u8) :: u32) = unat y"
  by (simp_all add: unsigned_ucast_eq take_bit_nat_eq_self_iff less_trans [OF u16_less] less_trans [OF u8_less])

lemma u32_add: "unat (x :: u32) + n < 4294967296 \<Longrightarrow> unat y = n \<Longrightarrow> unat (x + y) = unat x + n"
  using unat_add_lem [THEN iffD1, of x y] by simp

lemma sum_bytes_step:
  "i + 1 < n \<Longrightarrow> sum_bytes data i n acc =
     sum_bytes data (i + 2) n (acc + ucast (from_be_bytes (data ! i) (data ! (i + 1))))"
  by (simp add: sum_bytes_def sum_words.simps [of data i n acc])

lemma drop_two: "i + 1 < length xs \<Longrightarrow> drop i xs = xs ! i # xs ! (i + 1) # drop (i + 2) xs"
  by (simp add: Cons_nth_drop_Suc)

lemma unat_sum_bytes:
  assumes "n \<le> length data" and "unat acc + word_sum (drop i (take n data)) < 4294967296"
  shows "unat (sum_bytes data i n acc) = unat acc + word_sum (drop i (take n data))"
  using assms
proof (induction "n - i" arbitrary: i acc rule: less_induct)
  case less
  show ?case
  proof (cases "i + 1 < n")
    case True
    let ?w = "from_be_bytes (data ! i) (data ! (i + 1))"
    have d: "drop i (take n data) = data ! i # data ! (i + 1) # drop (i + 2) (take n data)"
      using True less.prems(1) drop_two [of i "take n data"] by simp
    have a: "unat (acc + ucast ?w) = unat acc + unat ?w"
      using less.prems(2) by (intro u32_add) (simp_all add: d unat_from_be_bytes)
    have "unat (sum_bytes data (i + 2) n (acc + ucast ?w)) = unat (acc + ucast ?w) + word_sum (drop (i + 2) (take n data))"
      using True less.prems a by (intro less.hyps) (simp_all add: d unat_from_be_bytes)
    then show ?thesis
      using a by (simp add: sum_bytes_step [OF True] d unat_from_be_bytes)
  next
    case False
    have w: "sum_words data i n acc = (acc, i)" using False by (simp add: sum_words.simps [of data i n acc])
    show ?thesis
    proof (cases "i < n")
      case True
      then have "n = Suc i" using False by simp
      then have d: "drop i (take n data) = [data ! i]"
        using less.prems(1) by (simp add: take_Suc_conv_app_nth)
      have "unat (push_bit 8 (ucast (data ! i)) :: u32) = unat (data ! i) * 256"
        using u8_less [of "data ! i"] by (simp add: push_bit_eq_mult unat_mult_lem [THEN iffD1] unat_word_ariths)
      then have "unat (acc + push_bit 8 (ucast (data ! i))) = unat acc + unat (data ! i) * 256"
        using less.prems(2) by (intro u32_add) (simp_all add: d)
      then show ?thesis using True by (simp add: sum_bytes_def w d)
    next
      case False
      then show ?thesis using less.prems(1) by (simp add: sum_bytes_def w)
    qed
  qed
qed

section \<open>Folding carries\<close>

text \<open>The representative of a number modulo 65535 in 1 to 65535; zero only for zero.\<close>

definition ones_rep :: "nat \<Rightarrow> nat" where
  "ones_rep n = (if n = 0 then 0 else (n - 1) mod 65535 + 1)"

lemma ones_rep_le: "ones_rep n \<le> 65535"
proof -
  have "(n - 1) mod 65535 + 1 \<le> 65535" by (metis Suc_eq_plus1 Suc_leI mod_less_divisor zero_less_numeral)
  then show ?thesis by (simp only: ones_rep_def split: if_split) simp
qed

lemma ones_rep_self: "ones_rep n \<le> n"
  by (cases n) (simp_all add: ones_rep_def)

lemma ones_rep_small: "n \<le> 65535 \<Longrightarrow> ones_rep n = n"
  by (cases n) (simp_all add: ones_rep_def)

lemma ones_rep_cong:
  assumes "m mod 65535 = n mod 65535" and "m = 0 \<longleftrightarrow> n = 0"
  shows "ones_rep m = ones_rep n"
proof (cases "n = 0")
  case False
  with assms(2) obtain m' n' where m: "m = Suc m'" "n = Suc n'" by (metis not0_implies_Suc)
  with assms(1) have "m' mod 65535 = n' mod 65535" by (simp add: mod_Suc split: if_splits)
  with m show ?thesis by (simp add: ones_rep_def)
qed (use assms in simp)

lemma ones_rep_mod: "ones_rep n mod 65535 = n mod 65535"
proof (cases n)
  case (Suc k)
  then show ?thesis by (simp add: ones_rep_def mod_Suc_eq)
qed (simp add: ones_rep_def)

lemma ones_rep_full: "ones_rep n = 65535 \<longleftrightarrow> n \<noteq> 0 \<and> n mod 65535 = 0"
proof (cases n)
  case (Suc k)
  then show ?thesis using mod_less_divisor [of 65535 k] by (auto simp: ones_rep_def mod_Suc)
qed (simp add: ones_rep_def)

lemma ones_rep_carry: "ones_rep (n mod 65536 + n div 65536) = ones_rep n"
proof (rule ones_rep_cong)
  have "n = 65535 * (n div 65536) + (n mod 65536 + n div 65536)" by simp
  then show "(n mod 65536 + n div 65536) mod 65535 = n mod 65535" by (metis mod_mult_self4)
  show "n mod 65536 + n div 65536 = 0 \<longleftrightarrow> n = 0" by (metis add_is_0 div_0 mod_0 mult_div_mod_eq mult_0_right)
qed

lemma unat_fold16: "unat (fold16 s) = ones_rep (unat s)"
proof (induction s rule: fold16.induct)
  case (1 s)
  show ?case
  proof (cases "drop_bit 16 s \<noteq> 0")
    case True
    then show ?thesis
      using 1 fold_decreases(1) [OF True] by (simp add: fold16.simps [of s] ones_rep_carry)
  next
    case False
    then have "unat s div 65536 = 0" using drop_high16 [of s] by simp
    then have "unat s \<le> 65535" by (simp add: div_eq_0_iff)
    with False show ?thesis by (simp add: fold16.simps [of s] ones_rep_small)
  qed
qed

lemma unat_unfold_checksum: "unat (unfold_checksum s) = ones_rep (unat s)"
proof -
  have "unat (fold16 s) < 65536" using ones_rep_le [of "unat s"] by (simp add: unat_fold16)
  then show ?thesis
    by (simp add: unfold_checksum_def unsigned_ucast_eq take_bit_nat_eq_self_iff unat_fold16)
qed

lemma unat_not_u16: "unat (NOT (x :: u16)) = 65535 - unat x"
proof -
  have "NOT x = - 1 - x" by (simp add: not_eq_complement)
  then show ?thesis using unat_sub [of x "- 1"] by (simp add: unat_minus_1)
qed

lemma unat_fold_checksum: "unat (fold_checksum s) = 65535 - ones_rep (unat s)"
  using unat_unfold_checksum [of s] by (simp add: fold_checksum_def unfold_checksum_def unat_not_u16)

section \<open>Writing a checksum into a packet\<close>

lemma word_sum_update:
  "even k \<Longrightarrow> k + 1 < length xs \<Longrightarrow>
   word_sum (xs[k := h, k + 1 := l]) + (unat (xs ! k) * 256 + unat (xs ! (k + 1))) = word_sum xs + (unat h * 256 + unat l)"
proof (induction xs arbitrary: k rule: word_sum.induct)
  case (1 a b xs)
  show ?case
  proof (cases "k = 0")
    case False
    from 1(2) obtain m where "k = 2 * m" by (rule evenE)
    with False have k: "k = Suc (Suc (2 * (m - 1)))" by simp
    from 1(1) [of "2 * (m - 1)"] 1(3) show ?thesis by (simp add: k)
  qed simp
qed simp_all

lemma be_bytes_sum: "unat (ucast (drop_bit 8 (c :: u16)) :: u8) * 256 + unat (ucast (c AND 0xFF) :: u8) = unat c"
proof -
  have "c AND 0xFF = c mod 256"
    using take_bit_eq_mask [of 8 c] by (simp add: mask_eq_exp_minus_1 take_bit_eq_mod)
  then have "unat (c AND 0xFF) = unat c mod 256" by (simp add: unat_mod)
  moreover have "unat (drop_bit 8 c) = unat c div 256" by (simp add: drop_bit_eq_div unat_div)
  moreover have "unat c div 256 < 256" using u16_less [of c] by (simp add: less_mult_imp_div_less)
  ultimately show ?thesis by (simp add: unat_ucast_small)
qed

lemma word_sum_put:
  assumes "even k" "k + 1 < length xs"
  shows "word_sum (put_be16 k c xs) + (unat (xs ! k) * 256 + unat (xs ! (k + 1))) = word_sum xs + unat c"
  using word_sum_update [OF assms] by (simp add: put_be16_def be_bytes_sum del: One_nat_def add_Suc_right)

lemma ones_rep_complement: "ones_rep (n + (65535 - ones_rep n)) = 65535"
proof -
  note le = ones_rep_le [of n] ones_rep_self [of n]
  have "(n - ones_rep n) mod 65535 = 0"
    using mod_eq_dvd_iff_nat [OF le(2), of 65535] ones_rep_mod [of n] by simp
  moreover have "n + (65535 - ones_rep n) = (n - ones_rep n) + 65535" using le by simp
  ultimately have "(n + (65535 - ones_rep n)) mod 65535 = 0" by simp
  moreover have "n + (65535 - ones_rep n) \<noteq> 0" using le ones_rep_def by auto
  ultimately show ?thesis by (simp add: ones_rep_full)
qed

lemma unat_internet_checksum:
  assumes "length xs \<le> 100000"
  shows "unat (internet_checksum xs) = 65535 - ones_rep (word_sum xs)"
proof -
  have "word_sum xs < 4294967296" using word_sum_bound [of xs] assms by linarith
  then have "unat (sum_bytes xs 0 (length xs) 0) = word_sum xs"
    using unat_sum_bytes [of "length xs" xs 0 0] by simp
  then show ?thesis
    using unat_fold_checksum [of "sum_bytes xs 0 (length xs) 0"]
    by (simp add: internet_checksum_def fold_checksum_def)
qed

lemma checksum_fill:
  assumes "even k" "k + 1 < length xs" "xs ! k = 0" "xs ! (k + 1) = 0" "length xs \<le> 100000"
  shows "internet_checksum (put_be16 k (internet_checksum xs) xs) = 0"
proof -
  let ?c = "internet_checksum xs"
  have "word_sum (put_be16 k ?c xs) = word_sum xs + (65535 - ones_rep (word_sum xs))"
    using word_sum_put [OF assms(1,2), of ?c] assms(3,4) by (simp add: unat_internet_checksum [OF assms(5)])
  then have "ones_rep (word_sum (put_be16 k ?c xs)) = 65535"
    by (simp add: ones_rep_complement)
  moreover have "length (put_be16 k ?c xs) \<le> 100000" using assms(5) by (simp add: put_be16_def)
  ultimately have "unat (internet_checksum (put_be16 k ?c xs)) = 0"
    by (simp add: unat_internet_checksum)
  then show ?thesis by (simp add: unat_eq_zero)
qed

lemma sub_slice_outside: "k < a \<or> b \<le> k \<Longrightarrow> sub_slice a b (xs[k := v]) = sub_slice a b xs"
  by (elim disjE) (simp add: sub_slice_def take_update_swap, simp add: sub_slice_def)

lemma sub_slice_inside: "a \<le> k \<Longrightarrow> sub_slice a b (xs[k := v]) = (sub_slice a b xs)[k - a := v]"
  by (simp add: sub_slice_def take_update_swap drop_update_swap)

lemma length_sub_slice [simp]: "length (sub_slice a b xs) = min b (length xs) - a"
  by (simp add: sub_slice_def)

lemma nth_sub_slice: "a + i < b \<Longrightarrow> a + i < length xs \<Longrightarrow> sub_slice a b xs ! i = xs ! (a + i)"
  by (simp add: sub_slice_def)

lemma length_put [simp]: "length (put_be16 k c xs) = length xs"
  by (simp add: put_be16_def)

lemma nth_put_other: "j \<noteq> k \<Longrightarrow> j \<noteq> k + 1 \<Longrightarrow> put_be16 k c xs ! j = xs ! j"
  by (simp add: put_be16_def)

lemma sub_slice_put_outside: "k + 1 < a \<or> b \<le> k \<Longrightarrow> sub_slice a b (put_be16 k c xs) = sub_slice a b xs"
  by (elim disjE) (simp_all add: put_be16_def sub_slice_outside)

lemma sub_slice_put_inside: "a \<le> k \<Longrightarrow> sub_slice a b (put_be16 k c xs) = put_be16 (k - a) c (sub_slice a b xs)"
  by (simp add: put_be16_def sub_slice_inside Suc_diff_le)

lemma drop_put: "a \<le> k \<Longrightarrow> drop a (put_be16 k c xs) = put_be16 (k - a) c (drop a xs)"
  by (simp add: put_be16_def drop_update_swap Suc_diff_le)

lemma fill_ip_ok:
  assumes "12 \<le> ihl" "14 + ihl \<le> length p" "ihl \<le> 60"
  shows "internet_checksum (sub_slice 14 (14 + ihl) (fill_ip_checksum ihl p)) = 0"
proof -
  let ?q = "p[24 := 0, 25 := 0]"
  let ?h = "sub_slice 14 (14 + ihl) ?q"
  have "sub_slice 14 (14 + ihl) (fill_ip_checksum ihl p) = put_be16 10 (internet_checksum ?h) ?h"
    by (simp add: fill_ip_checksum_def Let_def sub_slice_put_inside)
  moreover have "?h ! 10 = 0" "?h ! (10 + 1) = 0"
    using assms by (simp_all add: nth_sub_slice)
  ultimately show ?thesis
    using checksum_fill [of 10 ?h] assms by simp
qed

lemma fill_ip_length [simp]: "length (fill_ip_checksum ihl p) = length p"
  by (simp add: fill_ip_checksum_def Let_def)

lemma fill_ip_other: "j \<noteq> 24 \<Longrightarrow> j \<noteq> 25 \<Longrightarrow> fill_ip_checksum ihl p ! j = p ! j"
  by (simp add: fill_ip_checksum_def Let_def nth_put_other)

section \<open>Transport checksums over IPv4\<close>

lemma unat_add_le: "unat ((x :: u32) + y) \<le> unat x + unat y"
  by (simp add: unat_word_ariths)

lemma pseudo_bound: "unat (ipv4_pseudo_header_checksum src dst protocol len) \<le> 400000"
proof -
  have step: "unat (acc + ucast (w :: u16)) \<le> n + 65535" if "unat acc \<le> n" for acc :: u32 and n w
    using that unat_add_le [of acc "ucast w"] u16_less [of w] by simp
  have "unat (acc + ucast protocol) \<le> n + 255" if "unat acc \<le> n" for acc :: u32 and n
    using that unat_add_le [of acc "ucast protocol"] u8_less [of protocol] by simp
  note all = step [OF this [OF step [OF step [OF step [OF step [of 0 0]]]]]]
  show ?thesis
    unfolding ipv4_pseudo_header_checksum_def Let_def by (rule order_trans [OF all]) simp_all
qed

lemma unat_transport_sum:
  assumes "length p \<le> 66000"
  shows "unat (transport_sum pr off p) =
    unat (ipv4_pseudo_header_checksum (sub_slice 26 30 p) (sub_slice 30 34 p) pr (of_nat (length p - off))) +
    word_sum (drop off p)"
proof -
  have w: "word_sum (drop off p) \<le> 65535 * 33001"
    using word_sum_bound [of "drop off p"] assms by simp
  then have "unat (partial_checksum p off (length p)) = word_sum (drop off p)"
    using unat_sum_bytes [of "length p" p 0 off] by (simp add: partial_checksum_def)
  then show ?thesis
    unfolding transport_sum_def Let_def
    by (intro u32_add) (use w pseudo_bound [of "sub_slice 26 30 p" "sub_slice 30 34 p" pr "of_nat (length p - off)"] in simp_all)
qed

lemma transport_put:
  assumes "34 \<le> k" "off \<le> k" "even (k - off)" "k + 1 < length p" "p ! k = 0" "p ! (k + 1) = 0" "length p \<le> 66000"
  shows "unat (transport_sum pr off (put_be16 k c p)) = unat (transport_sum pr off p) + unat c"
proof -
  have "k - off + 1 < length (drop off p)" using assms(2,4) by simp
  from word_sum_put [OF assms(3) this, of c] assms(2,4-6)
  have "word_sum (drop off (put_be16 k c p)) = word_sum (drop off p) + unat c"
    by (simp add: drop_put)
  with assms(1,7) show ?thesis by (simp add: unat_transport_sum sub_slice_put_outside)
qed

lemma transport_fill:
  assumes "34 \<le> k" "off \<le> k" "even (k - off)" "k + 1 < length p" "p ! k = 0" "p ! (k + 1) = 0" "length p \<le> 66000"
    and c: "c = fold_checksum (transport_sum pr off p) \<or> fold_checksum (transport_sum pr off p) = 0 \<and> c = 0xFFFF"
  shows "unfold_checksum (transport_sum pr off (put_be16 k c p)) = 0xFFFF"
proof -
  let ?s = "unat (transport_sum pr off p)"
  have "ones_rep (?s + unat c) = 65535"
    using c
  proof
    assume "c = fold_checksum (transport_sum pr off p)"
    then show ?thesis by (simp add: unat_fold_checksum ones_rep_complement)
  next
    assume c: "fold_checksum (transport_sum pr off p) = 0 \<and> c = 0xFFFF"
    then have "65535 - ones_rep ?s = 0" by (metis unat_fold_checksum unat_0)
    then have "ones_rep ?s = 65535" using ones_rep_le [of ?s] by simp
    with c show ?thesis by (simp add: ones_rep_full)
  qed
  then have "unat (unfold_checksum (transport_sum pr off (put_be16 k c p))) = unat (0xFFFF :: u16)"
    using transport_put [OF assms(1-7)] by (simp add: unat_unfold_checksum)
  then show ?thesis by (simp only: word_unat_eq_iff)
qed

lemma header_len_le: "header_len p \<le> 60"
proof -
  have "unat (p ! 14 AND 0x0F) \<le> unat (0x0F :: u8)"
    by (metis word_and_le1 word_le_nat_alt)
  then show ?thesis by simp
qed

lemma header_len_cong: "q ! 14 = p ! 14 \<Longrightarrow> header_len q = header_len p"
  by simp

text \<open>
  C14.  What \<open>compute_ipv4_tcp_checksum\<close> writes, \<open>verify_ipv4_tcp_checksum\<close> accepts: for every Ethernet frame with an
  IPv4 header of at least 20 bytes whose lengths pass the code's checks, both the header and the TCP
  checksum of the frame produced verify, whatever the frame held in the two fields before.
\<close>

theorem tcp_checksum_roundtrip:
  assumes "compute_ipv4_tcp_checksum p st = (True, p', st')"
    and "20 \<le> header_len p" and "length p \<le> 65549"
  shows "fst (verify_ipv4_tcp_checksum p' st') \<and> length p' = length p \<and> tx_computed st' = tx_computed st + 1"
proof -
  define ihl where "ihl = header_len p"
  define off where "off = 14 + ihl"
  define k where "k = off + 16"
  define q where "q = (fill_ip_checksum ihl p)[k := 0, k + 1 := 0]"
  define c where "c = fold_checksum (transport_sum 6 off q)"
  have len: "54 \<le> length p" "off + 20 \<le> length p" and p': "p' = put_be16 k c q" "st' = st\<lparr>tx_computed := tx_computed st + 1\<rparr>"
    using assms(1)
    by (auto simp: compute_ipv4_tcp_checksum_def Let_def ihl_def off_def k_def q_def c_def ac_simps split: if_splits)
  have ihl: "20 \<le> ihl" "ihl \<le> 60" using assms(2) header_len_le [of p] by (simp_all add: ihl_def)
  have lq: "length q = length p" by (simp add: q_def)
  have "p' ! 14 = p ! 14"
    using ihl by (simp add: p'(1) nth_put_other q_def fill_ip_other k_def off_def)
  then have h: "header_len p' = ihl" unfolding ihl_def by (rule header_len_cong)
  have "sub_slice 14 (14 + ihl) p' = sub_slice 14 (14 + ihl) (fill_ip_checksum ihl p)"
    by (simp add: p'(1) sub_slice_put_outside q_def sub_slice_outside k_def off_def)
  then have ip: "internet_checksum (sub_slice 14 (14 + ihl) p') = 0"
    using fill_ip_ok [of ihl p] ihl len by (simp add: off_def)
  have "unfold_checksum (transport_sum 6 off p') = 0xFFFF"
    unfolding p'(1)
    by (rule transport_fill) (use ihl len lq assms(3) in \<open>simp_all add: k_def off_def q_def c_def\<close>)
  with ip h len lq p' show ?thesis
    by (simp add: verify_ipv4_tcp_checksum_def Let_def off_def)
qed

definition sample_frame :: "u8 list" where
  "sample_frame = replicate 14 0 @ 0x45 # replicate 43 0"

theorem tcp_checksum_roundtrip_witness:
  "\<exists>p' st'. compute_ipv4_tcp_checksum sample_frame checksum_stats_new = (True, p', st') \<and>
     header_len sample_frame = 20 \<and> length sample_frame = 58 \<and> fst (verify_ipv4_tcp_checksum p' st')"
proof -
  have h: "header_len sample_frame = 20" "length sample_frame = 58"
    by (simp_all add: sample_frame_def nth_append)
  obtain p' st' where c: "compute_ipv4_tcp_checksum sample_frame checksum_stats_new = (True, p', st')"
    by (simp add: compute_ipv4_tcp_checksum_def h Let_def)
  from tcp_checksum_roundtrip [OF c] c h show ?thesis by auto
qed

text \<open>The UDP checksum written by \<open>compute_ipv4_udp_checksum\<close> makes the segment sum to all ones, and is never zero.\<close>

lemma udp_checksum_sums:
  assumes "compute_ipv4_udp_checksum p st = (True, p', st')"
    and "20 \<le> header_len p" and "length p \<le> 65549"
  shows "unfold_checksum (transport_sum 17 (14 + header_len p) p') = 0xFFFF"
proof -
  define ihl where "ihl = header_len p"
  define off where "off = 14 + ihl"
  define k where "k = off + 6"
  define q where "q = (fill_ip_checksum ihl p)[k := 0, k + 1 := 0]"
  define c where "c = fold_checksum (transport_sum 17 off q)"
  have len: "off + 8 \<le> length p" and p': "p' = put_be16 k (if c = 0 then 0xFFFF else c) q"
    using assms(1)
    by (auto simp: compute_ipv4_udp_checksum_def Let_def ihl_def off_def k_def q_def c_def ac_simps split: if_splits)
  have "20 \<le> ihl" using assms(2) by (simp add: ihl_def)
  moreover have "length q = length p" by (simp add: q_def)
  ultimately have "unfold_checksum (transport_sum 17 off p') = 0xFFFF"
    unfolding p' by (intro transport_fill) (use len assms(3) in \<open>simp_all add: k_def off_def q_def c_def\<close>)
  then show ?thesis by (simp add: off_def ihl_def)
qed

section \<open>Incremental update\<close>

lemma mod_add_cancel:
  fixes a b m n :: nat
  assumes "(a + m) mod n = (b + m) mod n"
  shows "a mod n = b mod n"
proof -
  have "int (a + m) mod int n = int (b + m) mod int n" using assms by (metis zmod_int)
  then have "int n dvd (int a + int m) - (int b + int m)" by (simp add: mod_eq_dvd_iff)
  then have "int a mod int n = int b mod int n" by (simp add: mod_eq_dvd_iff)
  then show ?thesis by (metis of_nat_eq_iff zmod_int)
qed

lemma ones_rep_replace:
  assumes S: "S' + m = S + m'" and m: "m \<le> 65535" and "S' \<noteq> 0"
  shows "ones_rep (ones_rep S + (65535 - m) + m') = ones_rep S'"
proof (rule ones_rep_cong)
  let ?u = "ones_rep S + (65535 - m) + m'"
  have "?u + m = (ones_rep S + m') + 65535" using m by linarith
  then have "(?u + m) mod 65535 = (ones_rep S + m') mod 65535" by (simp only: mod_add_self2)
  also have "\<dots> = (S' + m) mod 65535"
    unfolding S by (metis mod_add_left_eq ones_rep_mod)
  finally show "?u mod 65535 = S' mod 65535" by (rule mod_add_cancel)
  show "?u = 0 \<longleftrightarrow> S' = 0"
    using assms by (cases "S = 0") (simp_all add: ones_rep_def)
qed

text \<open>
  C30.  The incremental update of a checksum agrees with computing it afresh: replacing an aligned 16-bit
  field of the data and calling \<open>update_checksum\<close> with the old and the new value of the field gives the
  checksum of the changed data, as long as that is not all zero.
\<close>

theorem update_checksum_agrees:
  assumes "even k" and "k + 1 < length data" and "length data \<le> 100000"
    and "word_sum (put_be16 k new_value data) \<noteq> 0"
  shows "update_checksum (internet_checksum data) (from_be_bytes (data ! k) (data ! (k + 1))) new_value =
    internet_checksum (put_be16 k new_value data)"
proof -
  let ?m = "from_be_bytes (data ! k) (data ! (k + 1))" and ?S = "word_sum data"
  let ?S' = "word_sum (put_be16 k new_value data)" and ?R = "ones_rep (word_sum data)"
  let ?u = "ucast (NOT (internet_checksum data)) + ucast (NOT ?m) + ucast new_value :: u32"
  have S: "?S' + unat ?m = ?S + unat new_value"
    using word_sum_put [OF assms(1,2), of new_value] by (simp add: unat_from_be_bytes)
  have m: "unat ?m \<le> 65535" "unat new_value \<le> 65535" using u16_less [of ?m] u16_less [of new_value] by simp_all
  have "unat (NOT (internet_checksum data)) = ?R"
    using ones_rep_le [of ?S] by (simp add: unat_not_u16 unat_internet_checksum [OF assms(3)])
  then have "unat (ucast (NOT (internet_checksum data)) + ucast (NOT ?m) :: u32) = ?R + (65535 - unat ?m)"
    using ones_rep_le [of ?S] by (subst u32_add [where n = "65535 - unat ?m"]) (simp_all add: unat_not_u16)
  then have u: "unat ?u = ?R + (65535 - unat ?m) + unat new_value"
    using ones_rep_le [of ?S] m by (subst u32_add [where n = "unat new_value"]) simp_all
  have "ones_rep (unat ?u) = ones_rep ?S'"
    unfolding u using S m(1) assms(4) by (rule ones_rep_replace)
  then have "unat (fold_checksum ?u) = unat (internet_checksum (put_be16 k new_value data))"
    using assms(3) by (simp add: unat_fold_checksum unat_internet_checksum)
  then show ?thesis
    by (simp add: update_checksum_def fold_checksum_def word_unat_eq_iff)
qed

theorem update_checksum_agrees_witness:
  "update_checksum (internet_checksum [0x45, 0, 0, 0x2C]) (from_be_bytes 0 0x2C) 0x0030 =
   internet_checksum (put_be16 2 0x0030 [0x45, 0, 0, 0x2C])"
  using update_checksum_agrees [of 2 "[0x45, 0, 0, 0x2C]" "0x0030"] by (simp add: put_be16_def)

section \<open>Verification over IPv6\<close>

lemma sum_words_bound: "unat (fst (sum_words data i n acc)) \<le> unat acc + 65535 * ((n - i) div 2)"
proof (induction data i n acc rule: sum_words.induct)
  case (1 data i n acc)
  show ?case
  proof (cases "i + 1 < n")
    case True
    let ?w = "from_be_bytes (data ! i) (data ! (i + 1))"
    have "(n - i) div 2 = (n - (i + 2)) div 2 + 1" using True by (simp add: div_if)
    moreover have "unat (acc + ucast ?w) \<le> unat acc + 65535"
      using unat_add_le [of acc "ucast ?w"] u16_less [of ?w] by simp
    ultimately show ?thesis using 1 [OF True] True by (simp add: sum_words.simps [of data i n acc])
  qed (simp add: sum_words.simps [of data i n acc])
qed

lemma pseudo6_bound: "unat (ipv6_pseudo_header_checksum src dst nh len) \<le> 2000000"
proof -
  let ?a = "fst (sum_words src 0 16 0)" and ?l = "drop_bit 16 len" and ?m = "len AND 0xFFFF"
  let ?b = "fst (sum_words dst 0 16 ?a)"
  have "unat ?b \<le> 65535 * 16"
    using sum_words_bound [of src 0 16 0] sum_words_bound [of dst 0 16 ?a] by simp
  moreover have "unat ?l \<le> 65535" "unat ?m \<le> 65535"
    using unsigned_less [of len, where ?'a = nat] mod_less_divisor [of 65536 "unat len"]
    unfolding drop_high16 and_low16 by (simp_all add: less_mult_imp_div_less less_Suc_eq_le [symmetric])
  ultimately show ?thesis
    using unat_add_le [of ?b ?l] unat_add_le [of "?b + ?l" ?m] unat_add_le [of "?b + ?l + ?m" "ucast nh"] u8_less [of nh]
    unfolding ipv6_pseudo_header_checksum_def Let_def by simp
qed

lemma word_sum_append: "even (length xs) \<Longrightarrow> word_sum (xs @ ys) = word_sum xs + word_sum ys"
  by (induction xs rule: word_sum.induct) simp_all

lemma sum_bytes_all:
  "unat acc + word_sum xs < 4294967296 \<Longrightarrow> unat (sum_bytes xs 0 (length xs) acc) = unat acc + word_sum xs"
  using unat_sum_bytes [of "length xs" xs acc 0] by simp

lemma compute6_sum:
  assumes "even d" "d \<le> length seg" "length seg \<le> 65535"
    and "P = ipv6_pseudo_header_checksum src dst nh (of_nat (length seg))"
  shows "unat (sum_bytes (drop d seg) 0 (length (drop d seg)) (sum_bytes (take d seg) 0 (length (take d seg)) P)) =
    unat P + word_sum seg"
proof -
  have b: "unat P \<le> 2000000" unfolding assms(4) by (rule pseudo6_bound)
  have parts: "word_sum seg = word_sum (take d seg) + word_sum (drop d seg)"
    using word_sum_append [of "take d seg" "drop d seg"] assms(1,2) by simp
  have w: "word_sum seg \<le> 65535 * 32768" using word_sum_bound [of seg] assms(3) by linarith
  have t: "unat (sum_bytes (take d seg) 0 (length (take d seg)) P) = unat P + word_sum (take d seg)"
    using b w parts by (intro sum_bytes_all) linarith
  have "unat (sum_bytes (take d seg) 0 (length (take d seg)) P) + word_sum (drop d seg) < 4294967296"
    using b w parts t by linarith
  from sum_bytes_all [OF this] t parts show ?thesis by linarith
qed

lemma verify6_sum:
  assumes "length seg \<le> 65535" and "word_sum seg \<noteq> 0" and "unat c = 65535 - ones_rep (n + word_sum seg) \<or>
    ones_rep (n + word_sum seg) = 65535 \<and> c = 0xFFFF"
  shows "unfold_checksum (sum_bytes seg 0 (length seg) (ucast (c :: u16))) = 0xFFFF \<longleftrightarrow> n mod 65535 = 0"
proof -
  let ?S = "word_sum seg"
  have w: "?S \<le> 65535 * 32768" using word_sum_bound [of seg] assms(1) by linarith
  have s: "unat (sum_bytes seg 0 (length seg) (ucast c)) = unat c + ?S"
    using w u16_less [of c] sum_bytes_all [of "ucast c" seg] by simp
  have "ones_rep ((n + ?S) + unat c) = 65535"
    using assms(3)
  proof
    assume "unat c = 65535 - ones_rep (n + ?S)"
    then show ?thesis using ones_rep_complement [of "n + ?S"] by simp
  next
    assume c: "ones_rep (n + ?S) = 65535 \<and> c = 0xFFFF"
    then show ?thesis by (simp add: ones_rep_full)
  qed
  then have "65535 dvd n + (unat c + ?S)" by (simp add: ones_rep_full dvd_eq_mod_eq_0 ac_simps)
  then have "65535 dvd unat c + ?S \<longleftrightarrow> 65535 dvd n" by (metis dvd_add_left_iff dvd_add_right_iff)
  moreover have "unfold_checksum (sum_bytes seg 0 (length seg) (ucast c)) = 0xFFFF \<longleftrightarrow> ones_rep (unat c + ?S) = 65535"
    by (simp add: word_unat_eq_iff unat_unfold_checksum s)
  ultimately show ?thesis using assms(2) by (simp add: ones_rep_full dvd_eq_mod_eq_0)
qed

text \<open>
  The IPv6 verification does not look at the data: it adds the segment to a checksum that already
  covers the segment, so what remains is the pseudo header.  A segment is accepted exactly when the
  sum of addresses, length and protocol is a multiple of 65535, whether its checksum is right or not.
\<close>

lemma ipv6_verify_ignores_segment:
  assumes "20 \<le> length seg" and "unat (drop_bit 4 (seg ! 12)) * 4 \<le> length seg" and "length seg \<le> 65535"
    and "word_sum seg \<noteq> 0"
  shows "fst (verify_ipv6_tcp_checksum src dst seg st) \<longleftrightarrow>
    unat (ipv6_pseudo_header_checksum src dst 6 (of_nat (length seg))) mod 65535 = 0"
proof -
  let ?d = "unat (drop_bit 4 (seg ! 12)) * 4" and ?P = "ipv6_pseudo_header_checksum src dst 6 (of_nat (length seg))"
  let ?c = "compute_ipv6_tcp_checksum src dst (take ?d seg) (drop ?d seg)"
  have l: "length (take ?d seg) + length (drop ?d seg) = length seg" by simp
  have "unat ?c = 65535 - ones_rep (unat ?P + word_sum seg)"
    using compute6_sum [of ?d seg ?P src dst 6] assms(2,3)
    unfolding compute_ipv6_tcp_checksum_def Let_def l by (simp add: unat_fold_checksum)
  then have "unfold_checksum (sum_bytes seg 0 (length seg) (ucast ?c)) = 0xFFFF \<longleftrightarrow> unat ?P mod 65535 = 0"
    using assms(3,4) by (intro verify6_sum) simp_all
  with assms(1,2) show ?thesis by (simp add: verify_ipv6_tcp_checksum_def Let_def)
qed

definition sample_segment :: "u8 list" where
  "sample_segment = [0, 0, 0, 0, 0, 0, 0, 0, 0, 0, 0, 0, 0x50, 0, 0, 0, 0, 0, 0, 0]"

end
