(* ===== verification/File_Lock.thy ===== *)
theory File_Lock
  imports EchOS_Prelude
begin

text \<open>
  Advisory file locks of \<open>src/src/fs/file_lock.rs\<close>: byte-range locks owned by processes or by open file
  descriptions, whole-file locks, the wait-for graph with its deadlock search, and the two system
  calls.  The tables are key-sorted maps; a set of process ids is a sorted list without duplicates.
  The mutex around each table makes every method one step.
\<close>

section \<open>Model\<close>

abbreviation LOCK_SH :: int where "LOCK_SH \<equiv> 1"
abbreviation LOCK_EX :: int where "LOCK_EX \<equiv> 2"
abbreviation LOCK_UN :: int where "LOCK_UN \<equiv> 8"
abbreviation LOCK_NB :: int where "LOCK_NB \<equiv> 4"
abbreviation F_RDLCK :: int where "F_RDLCK \<equiv> 0"
abbreviation F_WRLCK :: int where "F_WRLCK \<equiv> 1"
abbreviation F_UNLCK :: int where "F_UNLCK \<equiv> 2"
abbreviation F_SETLK :: int where "F_SETLK \<equiv> 6"
abbreviation F_SETLKW :: int where "F_SETLKW \<equiv> 7"
abbreviation F_GETLK :: int where "F_GETLK \<equiv> 5"
abbreviation F_OFD_GETLK :: int where "F_OFD_GETLK \<equiv> 36"
abbreviation F_OFD_SETLK :: int where "F_OFD_SETLK \<equiv> 37"
abbreviation F_OFD_SETLKW :: int where "F_OFD_SETLKW \<equiv> 38"

record file_lock =
  l_type :: int
  l_whence :: int
  l_start :: u64
  l_len :: u64
  l_pid :: u64
  is_ofd :: bool

definition file_lock_new :: "int \<Rightarrow> int \<Rightarrow> u64 \<Rightarrow> u64 \<Rightarrow> u64 \<Rightarrow> file_lock" where
  "file_lock_new t whence start len pid =
     \<lparr>l_type = t, l_whence = whence, l_start = start, l_len = len, l_pid = pid, is_ofd = False\<rparr>"

definition lock_end :: "file_lock \<Rightarrow> u64" where
  "lock_end l = (if l_len l = 0 then - 1 else sat_add (l_start l) (l_len l))"

definition overlaps :: "file_lock \<Rightarrow> file_lock \<Rightarrow> bool" where
  "overlaps l other = (l_start l < lock_end other \<and> l_start other < lock_end l)"

definition conflicts_with :: "file_lock \<Rightarrow> file_lock \<Rightarrow> bool" where
  "conflicts_with l other =
     (if is_ofd l = is_ofd other \<and> l_pid l = l_pid other then False
      else if l_type l = F_UNLCK \<or> l_type other = F_UNLCK then False
      else if l_type l = F_RDLCK \<and> l_type other = F_RDLCK then False
      else overlaps l other)"

definition contains_offset :: "file_lock \<Rightarrow> u64 \<Rightarrow> bool" where
  "contains_offset l offset = (l_start l \<le> offset \<and> offset < lock_end l)"

record flock_lock =
  fk_fd :: u64
  fk_lock_type :: int
  fk_pid :: u64

record lock_manager =
  posix_locks :: "(u64, file_lock list) btree"
  flock_locks :: "(u64, flock_lock list) btree"
  wait_for_graph :: "(u64, u64 list) btree"
  total_locks :: u64
  total_conflicts :: u64

datatype file_lock_error = LockConflict | InvalidLock | LockDeadlock | LockPermissionDenied

definition lm_new :: lock_manager where
  "lm_new = \<lparr>posix_locks = [], flock_locks = [], wait_for_graph = [], total_locks = 0, total_conflicts = 0\<rparr>"

definition held :: "u64 \<Rightarrow> lock_manager \<Rightarrow> file_lock list" where
  "held inode m = (case bt_get (posix_locks m) inode of None \<Rightarrow> [] | Some ls \<Rightarrow> ls)"

definition can_acquire_posix_lock :: "u64 \<Rightarrow> file_lock \<Rightarrow> lock_manager \<Rightarrow> bool" where
  "can_acquire_posix_lock inode lock m = (\<not> list_ex (conflicts_with lock) (held inode m))"

definition acquire_posix_lock :: "u64 \<Rightarrow> file_lock \<Rightarrow> lock_manager \<Rightarrow> (file_lock_error + unit) \<times> lock_manager" where
  "acquire_posix_lock inode lock m =
     (if list_ex (conflicts_with lock) (held inode m) then
        (Inl LockConflict, m\<lparr>total_conflicts := total_conflicts m + 1\<rparr>)
      else if l_type lock = F_UNLCK then
        (case bt_get (posix_locks m) inode of
           None \<Rightarrow> (Inr (), m)
         | Some ls \<Rightarrow>
             (Inr (), m\<lparr>posix_locks :=
                bt_insert inode (filter (\<lambda>l. l_pid l \<noteq> l_pid lock \<or> \<not> overlaps l lock) ls) (posix_locks m)\<rparr>))
      else (Inr (), m\<lparr>posix_locks := bt_insert inode (held inode m @ [lock]) (posix_locks m),
                     total_locks := total_locks m + 1\<rparr>))"

definition get_conflicting_lock :: "u64 \<Rightarrow> file_lock \<Rightarrow> lock_manager \<Rightarrow> file_lock option" where
  "get_conflicting_lock inode lock m = find (conflicts_with lock) (held inode m)"

definition release_all_locks :: "u64 \<Rightarrow> lock_manager \<Rightarrow> lock_manager" where
  "release_all_locks pid m =
     m\<lparr>posix_locks := map (\<lambda>(i, ls). (i, filter (\<lambda>l. is_ofd l \<or> l_pid l \<noteq> pid) ls)) (posix_locks m),
       flock_locks := map (\<lambda>(i, ls). (i, filter (\<lambda>l. fk_pid l \<noteq> pid) ls)) (flock_locks m)\<rparr>"

definition release_ofd_locks :: "u64 \<Rightarrow> lock_manager \<Rightarrow> lock_manager" where
  "release_ofd_locks fd m =
     m\<lparr>posix_locks := map (\<lambda>(i, ls). (i, filter (\<lambda>l. \<not> (is_ofd l \<and> l_pid l = fd)) ls)) (posix_locks m)\<rparr>"

definition flocked :: "u64 \<Rightarrow> lock_manager \<Rightarrow> flock_lock list" where
  "flocked fd m = (case bt_get (flock_locks m) fd of None \<Rightarrow> [] | Some ls \<Rightarrow> ls)"

definition acquire_flock :: "u64 \<Rightarrow> int \<Rightarrow> u64 \<Rightarrow> lock_manager \<Rightarrow> (file_lock_error + unit) \<times> lock_manager" where
  "acquire_flock fd lock_type pid m =
     (if list_ex (\<lambda>l. fk_pid l \<noteq> pid \<and> (lock_type = LOCK_EX \<or> fk_lock_type l = LOCK_EX)) (flocked fd m) then
        (Inl LockConflict, m\<lparr>total_conflicts := total_conflicts m + 1\<rparr>)
      else
        let m = (case bt_get (flock_locks m) fd of
                   None \<Rightarrow> m
                 | Some ls \<Rightarrow> m\<lparr>flock_locks := bt_insert fd (filter (\<lambda>l. fk_pid l \<noteq> pid) ls) (flock_locks m)\<rparr>) in
        if lock_type \<noteq> LOCK_UN then
          (Inr (), m\<lparr>flock_locks := bt_insert fd (flocked fd m @ [\<lparr>fk_fd = fd, fk_lock_type = lock_type, fk_pid = pid\<rparr>])
                       (flock_locks m),
                     total_locks := total_locks m + 1\<rparr>)
        else (Inr (), m))"

definition is_locked :: "u64 \<Rightarrow> u64 \<Rightarrow> bool \<Rightarrow> lock_manager \<Rightarrow> bool" where
  "is_locked inode offset write m =
     list_ex (\<lambda>l. contains_offset l offset \<and> (l_type l = F_WRLCK \<or> l_type l = F_RDLCK \<and> write)) (held inode m)"

definition conflict_holders :: "u64 \<Rightarrow> file_lock \<Rightarrow> lock_manager \<Rightarrow> u64 list" where
  "conflict_holders inode lock m = sort (remdups (map l_pid (filter (conflicts_with lock) (held inode m))))"

lemma unvisited_less:
  assumes "bt_get g p = Some ws" and "p \<notin> set v"
  shows "card (fst ` set g - insert p (set v)) < card (fst ` set g - set v)"
proof (rule psubset_card_mono)
  have "p \<in> fst ` set g - set v" using bt_get_in_set [OF assms(1)] assms(2) by force
  then show "fst ` set g - insert p (set v) \<subset> fst ` set g - set v" by blast
qed simp

lemma unvisited_same: "bt_get g p = None \<Longrightarrow> fst ` set g - insert p A = fst ` set g - A"
  by (simp add: bt_get_None_iff)

text \<open>The search pops from the end of its stack; the list here has the top of the stack first.\<close>

function dl_search :: "(u64, u64 list) btree \<Rightarrow> u64 \<Rightarrow> u64 list \<Rightarrow> u64 list \<Rightarrow> bool" where
  "dl_search graph waiter visited [] = False"
| "dl_search graph waiter visited (pid # stack) =
     (if pid = waiter then True
      else if pid \<in> set visited then dl_search graph waiter visited stack
      else case bt_get graph pid of
             None \<Rightarrow> dl_search graph waiter (pid # visited) stack
           | Some ws \<Rightarrow> dl_search graph waiter (pid # visited) (rev ws @ stack))"
  by pat_completeness auto
termination
  by (relation "measures [\<lambda>(graph, waiter, visited, stack). card (fst ` set graph - set visited),
      \<lambda>(graph, waiter, visited, stack). length stack]")
    (auto simp: unvisited_less unvisited_same)

definition detect_deadlock :: "u64 \<Rightarrow> u64 \<Rightarrow> file_lock \<Rightarrow> lock_manager \<Rightarrow> bool" where
  "detect_deadlock waiter_pid inode lock m =
     (if is_ofd lock then False
      else dl_search (wait_for_graph m) waiter_pid [] (rev (conflict_holders inode lock m)))"

definition add_wait_edges :: "u64 \<Rightarrow> u64 \<Rightarrow> file_lock \<Rightarrow> lock_manager \<Rightarrow> lock_manager" where
  "add_wait_edges waiter_pid inode lock m =
     (if is_ofd lock then m
      else m\<lparr>wait_for_graph := bt_insert waiter_pid (conflict_holders inode lock m) (wait_for_graph m)\<rparr>)"

definition remove_wait_edges :: "u64 \<Rightarrow> lock_manager \<Rightarrow> lock_manager" where
  "remove_wait_edges pid m =
     m\<lparr>wait_for_graph := map (\<lambda>(k, hs). (k, filter (\<lambda>h. h \<noteq> pid) hs)) (bt_remove pid (wait_for_graph m))\<rparr>"

text \<open>A call that has to wait is one pass through its loop; \<open>Wait\<close> says that it yields and tries again.\<close>

datatype lock_result = Ret int | Wait

definition flock_pass :: "u64 \<Rightarrow> int \<Rightarrow> bool \<Rightarrow> u64 \<Rightarrow> lock_manager \<Rightarrow> lock_result \<times> lock_manager" where
  "flock_pass fd lock_type nonblock pid m =
     (case acquire_flock fd lock_type pid m of
        (Inr _, m) \<Rightarrow> (Ret 0, m)
      | (Inl LockConflict, m) \<Rightarrow> if nonblock then (Ret (- 11), m) else (Wait, m)
      | (Inl _, m) \<Rightarrow> (Ret (- 22), m))"

definition sys_flock :: "u64 \<Rightarrow> int \<Rightarrow> int \<Rightarrow> lock_manager \<Rightarrow> lock_result \<times> lock_manager" where
  "sys_flock pid fd operation m =
     (if fd < 0 then (Ret (- 9), m)
      else
        let lock_type = operation AND (NOT LOCK_NB); nonblock = (operation AND LOCK_NB) \<noteq> 0 in
        if lock_type \<noteq> LOCK_SH \<and> lock_type \<noteq> LOCK_EX \<and> lock_type \<noteq> LOCK_UN then (Ret (- 22), m)
        else flock_pass (of_int fd) lock_type nonblock pid m)"

definition path_hash :: "u8 list \<Rightarrow> u64" where
  "path_hash path = foldl (\<lambda>hash b. hash * 33 + ucast b) 5381 path"

definition setlkw_pass :: "u64 \<Rightarrow> file_lock \<Rightarrow> lock_manager \<Rightarrow> lock_result \<times> lock_manager" where
  "setlkw_pass inode lock m =
     (case acquire_posix_lock inode lock m of
        (Inr _, m) \<Rightarrow> (Ret 0, remove_wait_edges (l_pid lock) m)
      | (Inl LockConflict, m) \<Rightarrow> (Wait, m)
      | (Inl _, m) \<Rightarrow> (Ret (- 22), remove_wait_edges (l_pid lock) m))"

definition fcntl_getlk :: "u64 \<Rightarrow> file_lock \<Rightarrow> lock_manager \<Rightarrow> file_lock" where
  "fcntl_getlk inode lock m =
     (case get_conflicting_lock inode lock m of
        Some conflict \<Rightarrow> if is_ofd conflict then conflict\<lparr>l_pid := - 1\<rparr> else conflict
      | None \<Rightarrow> lock\<lparr>l_type := F_UNLCK\<rparr>)"

definition fcntl_setlk :: "u64 \<Rightarrow> file_lock \<Rightarrow> lock_manager \<Rightarrow> lock_result \<times> lock_manager" where
  "fcntl_setlk inode lock m =
     (case acquire_posix_lock inode lock m of
        (Inr _, m) \<Rightarrow> (Ret 0, m)
      | (Inl LockConflict, m) \<Rightarrow> (Ret (- 11), m)
      | (Inl _, m) \<Rightarrow> (Ret (- 22), m))"

definition fcntl_setlkw :: "u64 \<Rightarrow> file_lock \<Rightarrow> lock_manager \<Rightarrow> lock_result \<times> lock_manager" where
  "fcntl_setlkw inode lock m =
     (if detect_deadlock (l_pid lock) inode lock m then (Ret (- 35), m)
      else setlkw_pass inode lock (add_wait_edges (l_pid lock) inode lock m))"

definition sys_fcntl_lock :: "u64 \<Rightarrow> u8 list option \<Rightarrow> int \<Rightarrow> int \<Rightarrow> file_lock \<Rightarrow> lock_manager \<Rightarrow>
    lock_result \<times> file_lock \<times> lock_manager" where
  "sys_fcntl_lock task file_path fd cmd lock m =
     (if fd < 0 then (Ret (- 9), lock, m)
      else if l_type lock \<noteq> F_RDLCK \<and> l_type lock \<noteq> F_WRLCK \<and> l_type lock \<noteq> F_UNLCK then (Ret (- 22), lock, m)
      else
        let ofd = (cmd = F_OFD_GETLK \<or> cmd = F_OFD_SETLK \<or> cmd = F_OFD_SETLKW) in
        if ofd \<and> l_pid lock \<noteq> 0 then (Ret (- 22), lock, m)
        else
          let inode = (case file_path of Some path \<Rightarrow> path_hash path | None \<Rightarrow> of_int fd);
              lock = lock\<lparr>is_ofd := ofd, l_pid := (if ofd then of_int fd else task)\<rparr>;
              posix_cmd = (if cmd = F_OFD_GETLK then F_GETLK else if cmd = F_OFD_SETLK then F_SETLK
                           else if cmd = F_OFD_SETLKW then F_SETLKW else cmd) in
          if posix_cmd = F_GETLK then (Ret 0, fcntl_getlk inode lock m, m)
          else if posix_cmd = F_SETLK then (let (r, m) = fcntl_setlk inode lock m in (r, lock, m))
          else if posix_cmd = F_SETLKW then (let (r, m) = fcntl_setlkw inode lock m in (r, lock, m))
          else (Ret (- 22), lock, m))"

definition is_mandatory_locking_enabled :: "u32 \<Rightarrow> bool" where
  "is_mandatory_locking_enabled mode = (mode AND 0x400 \<noteq> 0 \<and> mode AND 0x20 = 0)"

section \<open>Ranges\<close>

lemma sat_add_gt: "b \<noteq> 0 \<Longrightarrow> a \<noteq> - 1 \<Longrightarrow> a < sat_add a (b :: u64)"
  using sat_add_ge [of a b] by (simp add: order_less_le) (auto simp: sat_add_def)

lemma overlaps_iff: "overlaps a b \<longleftrightarrow> (\<exists>offset. contains_offset a offset \<and> contains_offset b offset)"
proof
  assume o: "overlaps a b"
  have e: "l_start l < lock_end l" if "l_start l < lock_end k" for l k
  proof -
    from that have "l_start l \<noteq> - 1" by (auto simp: word_order.extremum_strict)
    then show ?thesis by (simp add: lock_end_def sat_add_gt word_order.not_eq_extremum)
  qed
  have "contains_offset a (max (l_start a) (l_start b)) \<and> contains_offset b (max (l_start a) (l_start b))"
    using o e [of a b] e [of b a] by (auto simp: overlaps_def contains_offset_def max_def)
  then show "\<exists>offset. contains_offset a offset \<and> contains_offset b offset" by blast
qed (auto simp: overlaps_def contains_offset_def)

lemma overlaps_sym: "overlaps a b \<longleftrightarrow> overlaps b a"
  by (auto simp: overlaps_def)

lemma conflicts_sym: "conflicts_with a b \<longleftrightarrow> conflicts_with b a"
  by (auto simp: conflicts_with_def overlaps_sym [of a b])

section \<open>The wait-for graph\<close>

definition wait_edges :: "(u64, u64 list) btree \<Rightarrow> (u64 \<times> u64) set" where
  "wait_edges g = {(p, q). \<exists>ws. bt_get g p = Some ws \<and> q \<in> set ws}"

lemma leave_visited:
  assumes "(p, w) \<in> E\<^sup>*" and "p \<in> V" and "w \<notin> V" and "E `` V \<subseteq> V \<union> S"
  shows "\<exists>h \<in> S. (h, w) \<in> E\<^sup>*"
  using assms by (induction rule: converse_rtrancl_induct) blast+

lemma dl_search_iff:
  assumes "waiter \<notin> set visited" and "wait_edges g `` set visited \<subseteq> set visited \<union> set stack"
  shows "dl_search g waiter visited stack \<longleftrightarrow> (\<exists>h \<in> set stack. (h, waiter) \<in> (wait_edges g)\<^sup>*)"
  using assms
proof (induction g waiter visited stack rule: dl_search.induct)
  case (2 g waiter visited pid stack)
  let ?E = "wait_edges g"
  consider "pid = waiter" | (old) "pid \<noteq> waiter" "pid \<in> set visited" | (new) "pid \<noteq> waiter" "pid \<notin> set visited" by blast
  then show ?case
  proof cases
    case old
    then have c: "?E `` set visited \<subseteq> set visited \<union> set stack" using 2(5) by auto
    with leave_visited [of pid waiter ?E "set visited" "set stack"] old 2(1) 2(4) show ?thesis by auto
  next
    case new
    let ?succ = "case bt_get g pid of None \<Rightarrow> [] | Some ws \<Rightarrow> ws"
    have s: "q \<in> set ?succ \<longleftrightarrow> (pid, q) \<in> ?E" for q
      by (cases "bt_get g pid") (simp_all add: wait_edges_def)
    have search: "dl_search g waiter visited (pid # stack) = dl_search g waiter (pid # visited) (rev ?succ @ stack)"
      using new by (cases "bt_get g pid") simp_all
    have w: "waiter \<notin> set (pid # visited)" using new 2(4) by simp
    have c: "?E `` set (pid # visited) \<subseteq> set (pid # visited) \<union> set (rev ?succ @ stack)"
      using 2(5) s by auto
    have "dl_search g waiter (pid # visited) (rev ?succ @ stack) \<longleftrightarrow> (\<exists>h \<in> set (rev ?succ @ stack). (h, waiter) \<in> ?E\<^sup>*)"
      using new 2(2,3) w c by (cases "bt_get g pid") simp_all
    also have "\<dots> \<longleftrightarrow> (\<exists>h \<in> set (pid # stack). (h, waiter) \<in> ?E\<^sup>*)"
    proof
      assume "\<exists>h \<in> set (rev ?succ @ stack). (h, waiter) \<in> ?E\<^sup>*"
      then obtain h where "(h, waiter) \<in> ?E\<^sup>*" "(pid, h) \<in> ?E \<or> h \<in> set stack" using s by auto
      then show "\<exists>h \<in> set (pid # stack). (h, waiter) \<in> ?E\<^sup>*"
        by (metis converse_rtrancl_into_rtrancl list.set_intros)
    next
      assume "\<exists>h \<in> set (pid # stack). (h, waiter) \<in> ?E\<^sup>*"
      then show "\<exists>h \<in> set (rev ?succ @ stack). (h, waiter) \<in> ?E\<^sup>*"
        using leave_visited [OF _ _ w c, of pid] by auto
    qed
    finally show ?thesis using search by simp
  qed simp
qed simp

lemma detect_iff:
  "detect_deadlock waiter inode lock m \<longleftrightarrow> \<not> is_ofd lock \<and>
     (\<exists>h \<in> set (conflict_holders inode lock m). (h, waiter) \<in> (wait_edges (wait_for_graph m))\<^sup>*)"
  using dl_search_iff [of waiter "[]" "wait_for_graph m" "rev (conflict_holders inode lock m)"]
  by (simp add: detect_deadlock_def)


section \<open>Reachable managers\<close>

text \<open>Any mix of system calls, further passes of waiting calls and releases at process or descriptor exit.\<close>

inductive lm_reach :: "lock_manager \<Rightarrow> bool" where
  reach_new: "lm_reach lm_new"
| reach_flock: "lm_reach m \<Longrightarrow> lm_reach (snd (sys_flock pid fd operation m))"
| reach_flock_pass: "lm_reach m \<Longrightarrow> lm_reach (snd (flock_pass fd lock_type nonblock pid m))"
| reach_fcntl: "lm_reach m \<Longrightarrow> lm_reach (snd (snd (sys_fcntl_lock task path fd cmd lock m)))"
| reach_fcntl_pass: "lm_reach m \<Longrightarrow> lm_reach (snd (setlkw_pass inode lock m))"
| reach_exit: "lm_reach m \<Longrightarrow> lm_reach (release_all_locks pid m)"
| reach_close: "lm_reach m \<Longrightarrow> lm_reach (release_ofd_locks fdn m)"

definition compatible :: "file_lock \<Rightarrow> file_lock \<Rightarrow> bool" where
  "compatible a b \<longleftrightarrow> \<not> conflicts_with a b"

definition fk_compatible :: "flock_lock \<Rightarrow> flock_lock \<Rightarrow> bool" where
  "fk_compatible a b \<longleftrightarrow> fk_pid a = fk_pid b \<or> (fk_lock_type a \<noteq> LOCK_EX \<and> fk_lock_type b \<noteq> LOCK_EX)"

definition lm_ok :: "lock_manager \<Rightarrow> bool" where
  "lm_ok m \<longleftrightarrow> bt_wf (posix_locks m) \<and> bt_wf (flock_locks m) \<and> bt_wf (wait_for_graph m) \<and>
     (\<forall>i. sorted_wrt compatible (held i m) \<and> (\<forall>l \<in> set (held i m). l_type l \<noteq> F_UNLCK)) \<and>
     (\<forall>fd. sorted_wrt fk_compatible (flocked fd m)) \<and> acyclic (wait_edges (wait_for_graph m))"

lemma bt_get_map: "bt_get (map (\<lambda>(k, v). (k, f v)) m) i = map_option f (bt_get m i)"
  by (induction m) (auto simp: bt_get_def)

lemma bt_wf_map: "bt_wf (map (\<lambda>(k, v). (k, f v)) m) \<longleftrightarrow> bt_wf m"
  by (simp add: bt_wf_def case_prod_beta comp_def)

lemma held_insert:
  "bt_wf (posix_locks m) \<Longrightarrow> held j (m\<lparr>posix_locks := bt_insert i ls (posix_locks m), total_locks := n\<rparr>) = (if j = i then ls else held j m)"
  "bt_wf (posix_locks m) \<Longrightarrow> held j (m\<lparr>posix_locks := bt_insert i ls (posix_locks m)\<rparr>) = (if j = i then ls else held j m)"
  by (simp_all add: held_def bt_get_insert)

lemma held_same [simp]:
  "held j (m\<lparr>total_conflicts := n\<rparr>) = held j m" "held j (m\<lparr>wait_for_graph := g\<rparr>) = held j m"
  "flocked j (m\<lparr>total_conflicts := n\<rparr>) = flocked j m" "flocked j (m\<lparr>wait_for_graph := g\<rparr>) = flocked j m"
  "flocked j (m\<lparr>posix_locks := p\<rparr>) = flocked j m" "flocked j (m\<lparr>posix_locks := p, total_locks := n\<rparr>) = flocked j m"
  "held j (m\<lparr>flock_locks := f\<rparr>) = held j m" "held j (m\<lparr>flock_locks := f, total_locks := n\<rparr>) = held j m"
  by (simp_all add: held_def flocked_def)

lemma lm_ok_acquire_posix:
  assumes ok: "lm_ok m"
  shows "lm_ok (snd (acquire_posix_lock inode lock m))"
proof (cases "list_ex (conflicts_with lock) (held inode m)")
  case True
  with ok show ?thesis by (simp add: acquire_posix_lock_def lm_ok_def)
next
  case False
  show ?thesis
  proof (cases "l_type lock = F_UNLCK")
    case True
    show ?thesis
    proof (cases "bt_get (posix_locks m) inode")
      case None
      with False True ok show ?thesis by (simp add: acquire_posix_lock_def)
    next
      case (Some ls)
      then have "held inode m = ls" by (simp add: held_def)
      with False True Some ok show ?thesis
        by (auto simp: acquire_posix_lock_def lm_ok_def held_insert sorted_wrt_filter)
    qed
  next
    case new: False
    have "\<forall>l \<in> set (held inode m). compatible l lock"
      using False by (simp add: compatible_def conflicts_sym [of _ lock] list_ex_iff)
    with False new ok show ?thesis
      by (simp add: acquire_posix_lock_def lm_ok_def held_insert sorted_wrt_append)
  qed
qed

lemma lm_ok_release: "lm_ok m \<Longrightarrow> lm_ok (release_all_locks pid m)" "lm_ok m \<Longrightarrow> lm_ok (release_ofd_locks fd m)"
proof -
  have h: "held i (m\<lparr>posix_locks := map (\<lambda>(i, ls). (i, filter P ls)) (posix_locks m)\<rparr>) = filter P (held i m)"
    "held i (m\<lparr>posix_locks := map (\<lambda>(i, ls). (i, filter P ls)) (posix_locks m), flock_locks := f\<rparr>) = filter P (held i m)" for i P f
    by (simp_all add: held_def bt_get_map split: option.split)
  have f: "flocked i (m\<lparr>posix_locks := p, flock_locks := map (\<lambda>(i, ls). (i, filter P ls)) (flock_locks m)\<rparr>) = filter P (flocked i m)" for i P p
    by (simp add: flocked_def bt_get_map split: option.split)
  show "lm_ok m \<Longrightarrow> lm_ok (release_all_locks pid m)"
    by (auto simp: release_all_locks_def lm_ok_def h f bt_wf_map sorted_wrt_filter)
  show "lm_ok m \<Longrightarrow> lm_ok (release_ofd_locks fd m)"
    by (auto simp: release_ofd_locks_def lm_ok_def h bt_wf_map sorted_wrt_filter)
qed

lemma lm_ok_flock:
  assumes ok: "lm_ok m"
  shows "lm_ok (snd (acquire_flock fd lock_type pid m))"
proof (cases "list_ex (\<lambda>l. fk_pid l \<noteq> pid \<and> (lock_type = LOCK_EX \<or> fk_lock_type l = LOCK_EX)) (flocked fd m)")
  case True
  with ok show ?thesis by (simp add: acquire_flock_def lm_ok_def)
next
  case False
  define m1 where "m1 = (case bt_get (flock_locks m) fd of None \<Rightarrow> m
    | Some ls \<Rightarrow> m\<lparr>flock_locks := bt_insert fd (filter (\<lambda>l. fk_pid l \<noteq> pid) ls) (flock_locks m)\<rparr>)"
  have wf: "bt_wf (flock_locks m)" using ok by (simp add: lm_ok_def)
  have f1: "flocked i m1 = (if i = fd then filter (\<lambda>l. fk_pid l \<noteq> pid) (flocked fd m) else flocked i m)" for i
    using wf by (cases "bt_get (flock_locks m) fd") (simp_all add: m1_def flocked_def bt_get_insert)
  have ok1: "lm_ok m1"
    using ok f1 wf by (cases "bt_get (flock_locks m) fd") (simp_all add: m1_def lm_ok_def sorted_wrt_filter)
  let ?l = "\<lparr>fk_fd = fd, fk_lock_type = lock_type, fk_pid = pid\<rparr>"
  have "\<forall>l \<in> set (flocked fd m1). fk_compatible l ?l"
    using False by (auto simp: f1 fk_compatible_def list_ex_iff)
  moreover have "flocked i (m1\<lparr>flock_locks := bt_insert fd ls (flock_locks m1), total_locks := n\<rparr>) =
      (if i = fd then ls else flocked i m1)" for i ls n
    using ok1 by (simp add: flocked_def bt_get_insert lm_ok_def)
  ultimately show ?thesis
    using ok1 False by (simp add: acquire_flock_def m1_def [symmetric] lm_ok_def sorted_wrt_append Let_def)
qed

section \<open>Waiting keeps the graph acyclic\<close>

lemma reach_through:
  assumes "(x, w) \<in> (E \<union> {w} \<times> H)\<^sup>*"
  shows "(x, w) \<in> E\<^sup>*"
  using assms by (induction rule: converse_rtrancl_induct) (auto intro: converse_rtrancl_into_rtrancl)

lemma trancl_added:
  assumes "(a, b) \<in> (E \<union> {w} \<times> H)\<^sup>+"
  shows "(a, b) \<in> E\<^sup>+ \<or> (a, w) \<in> E\<^sup>* \<and> (\<exists>h \<in> H. (h, b) \<in> (E \<union> {w} \<times> H)\<^sup>*)"
  using assms
proof (induction rule: trancl_induct)
  case (step b c)
  from step.IH show ?case
  proof
    assume "(a, b) \<in> E\<^sup>+"
    with step.hyps(2) show ?thesis by (auto intro: trancl_into_trancl trancl_into_rtrancl)
  next
    assume "(a, w) \<in> E\<^sup>* \<and> (\<exists>h \<in> H. (h, b) \<in> (E \<union> {w} \<times> H)\<^sup>*)"
    with step.hyps(2) show ?thesis by (meson rtrancl_into_rtrancl)
  qed
qed auto

lemma acyclic_add:
  assumes "acyclic E" and "\<forall>h \<in> H. (h, w) \<notin> E\<^sup>*"
  shows "acyclic (E \<union> {w} \<times> H)"
  unfolding acyclic_def
proof (intro allI notI)
  fix a assume "(a, a) \<in> (E \<union> {w} \<times> H)\<^sup>+"
  then have "(a, a) \<in> E\<^sup>+ \<or> (a, w) \<in> E\<^sup>* \<and> (\<exists>h \<in> H. (h, a) \<in> (E \<union> {w} \<times> H)\<^sup>*)" by (rule trancl_added)
  then show False
  proof
    assume "(a, w) \<in> E\<^sup>* \<and> (\<exists>h \<in> H. (h, a) \<in> (E \<union> {w} \<times> H)\<^sup>*)"
    then obtain h where h: "h \<in> H" "(h, a) \<in> (E \<union> {w} \<times> H)\<^sup>*" "(a, w) \<in> E\<^sup>*" by blast
    from h(3) have "(a, w) \<in> (E \<union> {w} \<times> H)\<^sup>*" by (rule rtrancl_mono [THEN subsetD, rotated]) blast
    with h(2) have "(h, w) \<in> (E \<union> {w} \<times> H)\<^sup>*" by (rule rtrancl_trans)
    then have "(h, w) \<in> E\<^sup>*" by (rule reach_through)
    with h(1) assms(2) show False by blast
  qed (use assms(1) in \<open>simp add: acyclic_def\<close>)
qed

lemma lm_ok_add_wait:
  assumes ok: "lm_ok m" and "\<not> detect_deadlock waiter inode lock m"
  shows "lm_ok (add_wait_edges waiter inode lock m)"
proof (cases "is_ofd lock")
  case False
  let ?E = "wait_edges (wait_for_graph m)" and ?H = "set (conflict_holders inode lock m)"
  have wf: "bt_wf (wait_for_graph m)" using ok by (simp add: lm_ok_def)
  have "acyclic (?E \<union> {waiter} \<times> ?H)"
    using ok assms(2) False by (intro acyclic_add) (simp_all add: detect_iff lm_ok_def)
  moreover have "wait_edges (bt_insert waiter (conflict_holders inode lock m) (wait_for_graph m)) \<subseteq> ?E \<union> {waiter} \<times> ?H"
    using wf by (auto simp: wait_edges_def bt_get_insert split: if_splits)
  ultimately have "acyclic (wait_edges (bt_insert waiter (conflict_holders inode lock m) (wait_for_graph m)))"
    by (rule acyclic_subset)
  with ok wf False show ?thesis by (simp add: add_wait_edges_def lm_ok_def)
qed (simp add: add_wait_edges_def ok)

lemma lm_ok_remove_wait:
  assumes ok: "lm_ok m"
  shows "lm_ok (remove_wait_edges pid m)"
proof -
  let ?g = "map (\<lambda>(k, hs). (k, filter (\<lambda>h. h \<noteq> pid) hs)) (bt_remove pid (wait_for_graph m))"
  have "wait_edges ?g \<subseteq> wait_edges (wait_for_graph m)"
    by (auto simp: wait_edges_def bt_get_map bt_get_remove split: if_splits)
  moreover have "acyclic (wait_edges (wait_for_graph m))" using ok by (simp add: lm_ok_def)
  ultimately have "acyclic (wait_edges ?g)" by (metis acyclic_subset)
  with ok show ?thesis by (simp add: remove_wait_edges_def lm_ok_def bt_wf_map)
qed

lemma lm_ok_setlkw: "lm_ok m \<Longrightarrow> lm_ok (snd (setlkw_pass inode lock m))"
  using lm_ok_acquire_posix [of m inode lock] lm_ok_remove_wait
  by (auto simp: setlkw_pass_def split: prod.split sum.split file_lock_error.split)

lemma lm_ok_flock_pass: "lm_ok m \<Longrightarrow> lm_ok (snd (flock_pass fd lock_type nonblock pid m))"
  using lm_ok_flock [of m fd lock_type pid]
  by (auto simp: flock_pass_def split: prod.split sum.split file_lock_error.split)

lemma lm_ok_sys_flock: "lm_ok m \<Longrightarrow> lm_ok (snd (sys_flock pid fd operation m))"
  by (simp add: sys_flock_def Let_def lm_ok_flock_pass)

lemma lm_ok_fcntl_setlk: "lm_ok m \<Longrightarrow> lm_ok (snd (fcntl_setlk inode lock m))"
  using lm_ok_acquire_posix [of m inode lock]
  by (auto simp: fcntl_setlk_def split: prod.split sum.split file_lock_error.split)

lemma lm_ok_fcntl_setlkw: "lm_ok m \<Longrightarrow> lm_ok (snd (fcntl_setlkw inode lock m))"
  by (simp add: fcntl_setlkw_def lm_ok_setlkw lm_ok_add_wait)

lemma lm_ok_fcntl: "lm_ok m \<Longrightarrow> lm_ok (snd (snd (sys_fcntl_lock task path fd cmd lock m)))"
  unfolding sys_fcntl_lock_def Let_def by (simp add: case_prod_beta lm_ok_fcntl_setlk lm_ok_fcntl_setlkw)

lemma lm_reach_ok: "lm_reach m \<Longrightarrow> lm_ok m"
proof (induction rule: lm_reach.induct)
  case reach_new
  then show ?case
    by (simp add: lm_ok_def lm_new_def held_def flocked_def wait_edges_def acyclic_def)
qed (simp_all add: lm_ok_sys_flock lm_ok_flock_pass lm_ok_fcntl lm_ok_setlkw lm_ok_release)

lemma sorted_wrt_pair:
  assumes "sorted_wrt R xs" and "\<And>a b. R a b \<longleftrightarrow> R b a" and "a \<in> set xs" "b \<in> set xs" "a \<noteq> b"
  shows "R a b"
  using assms by (induction xs) auto

text \<open>
  C13.  Locks exclude: whatever calls were made, two byte-range locks of different owners on one file that
  both contain some byte are both read locks, and of two processes that hold a whole-file lock on one
  descriptor neither holds it exclusively.
\<close>

theorem file_locks_exclude:
  assumes "lm_reach m"
  shows "(a \<in> set (held inode m) \<and> b \<in> set (held inode m) \<and> (is_ofd a, l_pid a) \<noteq> (is_ofd b, l_pid b) \<and>
      contains_offset a offset \<and> contains_offset b offset \<longrightarrow> l_type a = F_RDLCK \<and> l_type b = F_RDLCK) \<and>
    (c \<in> set (flocked fd m) \<and> d \<in> set (flocked fd m) \<and> fk_pid c \<noteq> fk_pid d \<longrightarrow>
      fk_lock_type c \<noteq> LOCK_EX \<and> fk_lock_type d \<noteq> LOCK_EX)"
proof (intro conjI impI)
  have ok: "lm_ok m" using assms by (rule lm_reach_ok)
  assume l: "a \<in> set (held inode m) \<and> b \<in> set (held inode m) \<and> (is_ofd a, l_pid a) \<noteq> (is_ofd b, l_pid b) \<and>
      contains_offset a offset \<and> contains_offset b offset"
  then have "compatible a b"
    using ok conflicts_sym by (intro sorted_wrt_pair [of compatible "held inode m"]) (auto simp: lm_ok_def compatible_def)
  moreover have "overlaps a b" using l overlaps_iff by blast
  moreover have "l_type a \<noteq> F_UNLCK" "l_type b \<noteq> F_UNLCK" using ok l by (auto simp: lm_ok_def)
  ultimately show "l_type a = F_RDLCK" "l_type b = F_RDLCK"
    using l by (auto simp: compatible_def conflicts_with_def split: if_splits)
next
  have ok: "lm_ok m" using assms by (rule lm_reach_ok)
  assume l: "c \<in> set (flocked fd m) \<and> d \<in> set (flocked fd m) \<and> fk_pid c \<noteq> fk_pid d"
  then have "fk_compatible c d"
    using ok by (intro sorted_wrt_pair [of fk_compatible "flocked fd m"]) (auto simp: lm_ok_def fk_compatible_def)
  with l show "fk_lock_type c \<noteq> LOCK_EX" "fk_lock_type d \<noteq> LOCK_EX" by (auto simp: fk_compatible_def)
qed


text \<open>Two readers of a file.\<close>

definition two_readers :: lock_manager where
  "two_readers = snd (snd (sys_fcntl_lock 2 None 3 F_SETLK (file_lock_new F_RDLCK 0 5 10 0)
     (snd (snd (sys_fcntl_lock 1 None 3 F_SETLK (file_lock_new F_RDLCK 0 0 10 0) lm_new)))))"

lemma two_readers_reach: "lm_reach two_readers"
  unfolding two_readers_def by (intro reach_fcntl reach_new)

lemma l_type_new: "l_type (file_lock_new t whence start len pid) = t"
  by (simp add: file_lock_new_def)

lemma read_lock_call:
  "snd (snd (sys_fcntl_lock t None 3 F_SETLK (file_lock_new F_RDLCK 0 start len 0) m)) =
     snd (fcntl_setlk 3 (file_lock_new F_RDLCK 0 start len t) m)"
  by (simp add: sys_fcntl_lock_def file_lock_new_def case_prod_beta Let_def)

lemma read_lock_granted:
  assumes "bt_wf (posix_locks m)" and "\<forall>l \<in> set (held 3 m). l_type l = F_RDLCK"
  shows "held 3 (snd (fcntl_setlk 3 (file_lock_new F_RDLCK 0 start len t) m)) = held 3 m @ [file_lock_new F_RDLCK 0 start len t]"
proof -
  let ?l = "file_lock_new F_RDLCK 0 start len t"
  have "\<not> list_ex (conflicts_with ?l) (held 3 m)"
    using assms(2) by (auto simp: list_ex_iff conflicts_with_def file_lock_new_def)
  moreover have "l_type ?l \<noteq> F_UNLCK" by (simp add: file_lock_new_def)
  ultimately show ?thesis
    using assms(1) by (simp add: fcntl_setlk_def acquire_posix_lock_def held_insert)
qed

lemma two_readers_held: "held 3 two_readers = [file_lock_new F_RDLCK 0 0 10 1, file_lock_new F_RDLCK 0 5 10 2]"
proof -
  let ?m = "snd (fcntl_setlk 3 (file_lock_new F_RDLCK 0 0 10 1) lm_new)"
  have "held 3 lm_new = []" by (simp add: held_def lm_new_def)
  then have h: "held 3 ?m = [file_lock_new F_RDLCK 0 0 10 1]"
    by (subst read_lock_granted) (simp_all add: lm_new_def)
  have "lm_reach ?m"
    using reach_fcntl [OF reach_new, of 1 None 3 F_SETLK "file_lock_new F_RDLCK 0 0 10 0"] by (simp only: read_lock_call)
  then have "bt_wf (posix_locks ?m)" using lm_reach_ok by (simp add: lm_ok_def)
  then show ?thesis
    unfolding two_readers_def read_lock_call by (subst read_lock_granted) (simp_all add: h l_type_new)
qed

theorem file_locks_exclude_witness:
  "lm_reach two_readers \<and> contains_offset (file_lock_new F_RDLCK 0 0 10 1) 7 \<and> contains_offset (file_lock_new F_RDLCK 0 5 10 2) 7 \<and>
   l_type (file_lock_new F_RDLCK 0 0 10 1) = F_RDLCK"
proof -
  have "contains_offset (file_lock_new F_RDLCK 0 0 10 1) 7" "contains_offset (file_lock_new F_RDLCK 0 5 10 2) 7"
    by (simp_all add: contains_offset_def lock_end_def file_lock_new_def sat_add_def)
  with file_locks_exclude [OF two_readers_reach, of "file_lock_new F_RDLCK 0 0 10 1" 3 "file_lock_new F_RDLCK 0 5 10 2" 7]
    two_readers_reach two_readers_held
  show ?thesis by (simp add: file_lock_new_def)
qed


text \<open>Unlocking part of a range gives up the whole lock: the bytes outside the given range are unlocked as well.\<close>

lemma partial_unlock_drops_lock:
  assumes "bt_wf (posix_locks m)" and "bt_get (posix_locks m) inode = Some [file_lock_new F_WRLCK 0 0 100 pid]"
  shows "held inode (snd (acquire_posix_lock inode (file_lock_new F_UNLCK 0 50 10 pid) m)) = []"
proof -
  have "held inode m = [file_lock_new F_WRLCK 0 0 100 pid]" using assms(2) by (simp add: held_def)
  with assms show ?thesis
    by (simp add: acquire_posix_lock_def conflicts_with_def l_type_new held_insert)
      (simp add: overlaps_def lock_end_def file_lock_new_def sat_add_def)
qed

end
