(* ===== verification/Chacha20.thy ===== *)
theory Chacha20
  imports EchOS_Prelude
begin

text \<open>
  The stream cipher and the authenticated encryption built on it in \<open>src/src/crypto/chacha20.rs\<close>, with
  the comparison of tags in \<open>src/src/crypto/mod.rs\<close>.  Arrays are lists of their fixed length.  Nothing is
  abstracted: the block function, the buffering of key stream and the accumulator of the
  authenticator are the code's.
\<close>

section \<open>Model\<close>

definition from_le_bytes :: "u8 \<Rightarrow> u8 \<Rightarrow> u8 \<Rightarrow> u8 \<Rightarrow> u32" where
  "from_le_bytes a b c d =
     ucast a OR push_bit 8 (ucast b) OR push_bit 16 (ucast c) OR push_bit 24 (ucast d)"

definition to_le_bytes :: "u32 \<Rightarrow> u8 list" where
  "to_le_bytes w = [ucast w, ucast (drop_bit 8 w), ucast (drop_bit 16 w), ucast (drop_bit 24 w)]"

definition le_word :: "u8 list \<Rightarrow> nat \<Rightarrow> u32" where
  "le_word xs i = from_le_bytes (xs ! i) (xs ! (i + 1)) (xs ! (i + 2)) (xs ! (i + 3))"

abbreviation CHACHA_CONSTANTS :: "u32 list" where
  "CHACHA_CONSTANTS \<equiv> [0x61707865, 0x3320646e, 0x79622d32, 0x6b206574]"

record chacha20 =
  cc_state :: "u32 list"
  cc_counter :: u64
  cc_buffer :: "u8 list"
  cc_buffer_pos :: nat

definition cc_new :: "u8 list \<Rightarrow> u8 list \<Rightarrow> chacha20" where
  "cc_new key nonce =
     \<lparr>cc_state = CHACHA_CONSTANTS @ map (\<lambda>i. le_word key (i * 4)) [0..<8] @
        [0, le_word nonce 0, le_word nonce 4, le_word nonce 8],
      cc_counter = 0, cc_buffer = replicate 64 0, cc_buffer_pos = 64\<rparr>"

definition cc_new_ietf :: "u8 list \<Rightarrow> u8 list \<Rightarrow> u32 \<Rightarrow> chacha20" where
  "cc_new_ietf key nonce counter =
     \<lparr>cc_state = CHACHA_CONSTANTS @ map (\<lambda>i. le_word key (i * 4)) [0..<8] @
        [counter, 0, le_word nonce 0, le_word nonce 4],
      cc_counter = ucast counter, cc_buffer = replicate 64 0, cc_buffer_pos = 64\<rparr>"

definition quarter_round :: "nat \<Rightarrow> nat \<Rightarrow> nat \<Rightarrow> nat \<Rightarrow> u32 list \<Rightarrow> u32 list" where
  "quarter_round a b c d st =
     (let st = st[a := st ! a + st ! b];
          st = st[d := word_rotl 16 (st ! d XOR st ! a)];
          st = st[c := st ! c + st ! d];
          st = st[b := word_rotl 12 (st ! b XOR st ! c)];
          st = st[a := st ! a + st ! b];
          st = st[d := word_rotl 8 (st ! d XOR st ! a)];
          st = st[c := st ! c + st ! d];
          st = st[b := word_rotl 7 (st ! b XOR st ! c)] in st)"

definition double_round :: "u32 list \<Rightarrow> u32 list" where
  "double_round w =
     (let w = quarter_round 0 4 8 12 w; w = quarter_round 1 5 9 13 w;
          w = quarter_round 2 6 10 14 w; w = quarter_round 3 7 11 15 w;
          w = quarter_round 0 5 10 15 w; w = quarter_round 1 6 11 12 w;
          w = quarter_round 2 7 8 13 w; w = quarter_round 3 4 9 14 w in w)"

definition set_counter :: "u64 \<Rightarrow> chacha20 \<Rightarrow> chacha20" where
  "set_counter counter c =
     c\<lparr>cc_counter := counter,
       cc_state := (cc_state c)[12 := ucast (counter AND 0xFFFFFFFF), 13 := ucast (drop_bit 32 counter AND 0xFFFFFFFF)]\<rparr>"

definition generate_block :: "chacha20 \<Rightarrow> chacha20" where
  "generate_block c =
     (let working = (double_round ^^ 10) (cc_state c);
          working = map2 (+) working (cc_state c) in
      set_counter (cc_counter c + 1) (c\<lparr>cc_buffer := concat (map to_le_bytes working)\<rparr>))"

definition cc_seek :: "u64 \<Rightarrow> chacha20 \<Rightarrow> chacha20" where
  "cc_seek counter c = (set_counter counter c)\<lparr>cc_buffer_pos := 64\<rparr>"

definition refill :: "chacha20 \<Rightarrow> chacha20" where
  "refill c = (if 64 \<le> cc_buffer_pos c then (generate_block c)\<lparr>cc_buffer_pos := 0\<rparr> else c)"

fun cc_process :: "u8 list \<Rightarrow> chacha20 \<Rightarrow> u8 list \<times> chacha20" where
  "cc_process [] c = ([], c)"
| "cc_process (byte # data) c =
     (let c = refill c;
          out = byte XOR cc_buffer c ! cc_buffer_pos c;
          (output, c) = cc_process data (c\<lparr>cc_buffer_pos := cc_buffer_pos c + 1\<rparr>) in
      (out # output, c))"

definition xor_at :: "nat \<Rightarrow> u8 list \<times> chacha20 \<Rightarrow> u8 list \<times> chacha20" where
  "xor_at i = (\<lambda>(data, c).
     let c = refill c in
     (data[i := data ! i XOR cc_buffer c ! cc_buffer_pos c], c\<lparr>cc_buffer_pos := cc_buffer_pos c + 1\<rparr>))"

definition encrypt_in_place :: "u8 list \<Rightarrow> chacha20 \<Rightarrow> u8 list \<times> chacha20" where
  "encrypt_in_place data c = fold xor_at [0..<length data] (data, c)"

record poly1305 =
  po_r :: "u32 list"
  po_s :: "u32 list"
  po_h :: "u32 list"
  po_buffer :: "u8 list"
  po_buffer_len :: nat

definition po_new :: "u8 list \<Rightarrow> poly1305" where
  "po_new key =
     \<lparr>po_r = [le_word key 0 AND 0x0FFFFFFF, drop_bit 2 (le_word key 3 AND 0x0FFFFFFC), drop_bit 2 (le_word key 6 AND 0x0FFFFFFC),
        drop_bit 2 (le_word key 9 AND 0x0FFFFFFC), drop_bit 2 (le_word key 12 AND 0x0FFFFFFC)],
      po_s = map (\<lambda>i. le_word key (16 + i * 4)) [0..<4],
      po_h = replicate 5 0, po_buffer = replicate 16 0, po_buffer_len = 0\<rparr>"

definition po_process_block :: "poly1305 \<Rightarrow> poly1305" where
  "po_process_block p =
     (let b = po_buffer p;
          n = [le_word b 0, le_word b 4, le_word b 8, le_word b 12, push_bit 24 1];
          acc = map2 (\<lambda>h n. ucast h + ucast n :: u64) (po_h p) n in
      p\<lparr>po_h := map (\<lambda>a. ucast (a AND 0xFFFFFFFF)) acc\<rparr>)"

definition po_push :: "u8 \<Rightarrow> poly1305 \<Rightarrow> poly1305" where
  "po_push byte p =
     (let p = p\<lparr>po_buffer := (po_buffer p)[po_buffer_len p := byte], po_buffer_len := po_buffer_len p + 1\<rparr> in
      if po_buffer_len p = 16 then (po_process_block p)\<lparr>po_buffer_len := 0\<rparr> else p)"

definition po_update :: "u8 list \<Rightarrow> poly1305 \<Rightarrow> poly1305" where
  "po_update data p = fold po_push data p"

definition po_pad :: "poly1305 \<Rightarrow> poly1305" where
  "po_pad p =
     (if 0 < po_buffer_len p then
        let n = po_buffer_len p;
            p = p\<lparr>po_buffer := take n (po_buffer p) @ 1 # replicate (15 - n) 0\<rparr> in
        (po_process_block p)\<lparr>po_buffer_len := 0\<rparr>
      else p)"

definition po_finish :: "poly1305 \<Rightarrow> u8 list" where
  "po_finish p = concat (map (\<lambda>i. to_le_bytes (ucast (ucast (po_h p ! i) + ucast (po_s p ! i) :: u64))) [0..<4])"

record aead =
  ae_cipher :: chacha20
  ae_poly_key :: "u8 list"
  ae_poly_state :: poly1305
  ae_aad_len :: u64
  ae_ciphertext_len :: u64
  ae_finished :: bool

definition ae_new :: "u8 list \<Rightarrow> u8 list \<Rightarrow> aead" where
  "ae_new key nonce =
     \<lparr>ae_cipher = cc_new key nonce, ae_poly_key = replicate 32 0, ae_poly_state = po_new (replicate 32 0),
      ae_aad_len = 0, ae_ciphertext_len = 0, ae_finished = False\<rparr>"

definition len_bytes :: "u64 \<Rightarrow> u64 \<Rightarrow> u8 list" where
  "len_bytes aad_len ciphertext_len =
     to_le_bytes (ucast aad_len) @ to_le_bytes (ucast (drop_bit 32 aad_len)) @
     to_le_bytes (ucast ciphertext_len) @ to_le_bytes (ucast (drop_bit 32 ciphertext_len))"

text \<open>The steps encryption and decryption share: derive the one-time key, then absorb data, ciphertext and lengths.\<close>

definition ae_start :: "aead \<Rightarrow> aead" where
  "ae_start a =
     (let cipher = generate_block (ae_cipher a); poly_key = take 32 (cc_buffer cipher) in
      a\<lparr>ae_cipher := cipher, ae_poly_key := poly_key, ae_poly_state := po_new poly_key\<rparr>)"

definition ae_absorb :: "u8 list \<Rightarrow> u8 list \<Rightarrow> aead \<Rightarrow> aead" where
  "ae_absorb aad ciphertext a =
     (let p = po_pad (po_update aad (ae_poly_state a));
          p = po_pad (po_update ciphertext p);
          aad_len = of_nat (length aad); ciphertext_len = of_nat (length ciphertext);
          p = po_update (len_bytes aad_len ciphertext_len) p in
      a\<lparr>ae_poly_state := p, ae_aad_len := aad_len, ae_ciphertext_len := ciphertext_len\<rparr>)"

definition ae_encrypt :: "u8 list \<Rightarrow> u8 list \<Rightarrow> aead \<Rightarrow> (u8 list \<times> u8 list) \<times> aead" where
  "ae_encrypt plaintext aad a =
     (let a = ae_start a;
          (ciphertext, cipher) = cc_process plaintext (ae_cipher a);
          a = ae_absorb aad ciphertext (a\<lparr>ae_cipher := cipher\<rparr>) in
      ((ciphertext, po_finish (ae_poly_state a)), a))"

definition constant_time_eq :: "u8 list \<Rightarrow> u8 list \<Rightarrow> bool" where
  "constant_time_eq lhs rhs =
     (if length lhs \<noteq> length rhs then False
      else fold (\<lambda>(left, right) diff. diff OR (left XOR right)) (zip lhs rhs) (0 :: u8) = 0)"

definition ae_decrypt :: "u8 list \<Rightarrow> u8 list \<Rightarrow> u8 list \<Rightarrow> aead \<Rightarrow> u8 list option \<times> aead" where
  "ae_decrypt ciphertext aad tag a =
     (let a = ae_absorb aad ciphertext (ae_start a);
          computed_tag = po_finish (ae_poly_state a) in
      if \<not> constant_time_eq computed_tag tag then (None, a)
      else let (plaintext, cipher) = cc_process ciphertext (ae_cipher a) in (Some plaintext, a\<lparr>ae_cipher := cipher\<rparr>))"

definition derive_subkey :: "u8 list \<Rightarrow> u8 list \<Rightarrow> u8 list \<times> u8 list" where
  "derive_subkey key nonce =
     (let cipher = cc_new key (replicate 12 0);
          cipher = cipher\<lparr>cc_state := (cc_state cipher)[12 := le_word nonce 0, 13 := le_word nonce 4,
                                                    14 := le_word nonce 8, 15 := le_word nonce 12]\<rparr>;
          cipher = generate_block cipher in
      (take 32 (cc_buffer cipher), replicate 4 0 @ take 8 (drop 16 nonce)))"

definition xchacha_encrypt :: "u8 list \<Rightarrow> u8 list \<Rightarrow> u8 list \<Rightarrow> u8 list \<Rightarrow> u8 list \<times> u8 list" where
  "xchacha_encrypt key nonce plaintext aad =
     (let (subkey, subnonce) = derive_subkey key nonce in fst (ae_encrypt plaintext aad (ae_new subkey subnonce)))"

definition xchacha_decrypt :: "u8 list \<Rightarrow> u8 list \<Rightarrow> u8 list \<Rightarrow> u8 list \<Rightarrow> u8 list \<Rightarrow> u8 list option" where
  "xchacha_decrypt key nonce ciphertext aad tag =
     (let (subkey, subnonce) = derive_subkey key nonce in fst (ae_decrypt ciphertext aad tag (ae_new subkey subnonce)))"

section \<open>The key stream\<close>

definition key_stream :: "nat \<Rightarrow> chacha20 \<Rightarrow> u8 list" where
  "key_stream n c = fst (cc_process (replicate n 0) c)"

definition advance :: "nat \<Rightarrow> chacha20 \<Rightarrow> chacha20" where
  "advance n c = snd (cc_process (replicate n 0) c)"

lemma length_process: "length (fst (cc_process data c)) = length data"
  by (induction data arbitrary: c) (simp_all add: case_prod_beta Let_def)

lemma length_key_stream [simp]: "length (key_stream n c) = n"
  by (simp add: key_stream_def length_process)

lemma cc_process_xor:
  "cc_process data c = (map2 (XOR) data (key_stream (length data) c), advance (length data) c)"
  by (induction data arbitrary: c) (simp_all add: key_stream_def advance_def case_prod_beta Let_def)

lemma map2_xor_cancel: "length ks = length xs \<Longrightarrow> map2 (XOR) (map2 (XOR) xs ks) ks = (xs :: u8 list)"
  by (induction ks xs rule: list_induct2) (simp_all add: xor.assoc)

lemma cc_process_twice: "fst (cc_process (fst (cc_process data c)) c) = data"
proof -
  have "length (map2 (XOR) data (key_stream (length data) c)) = length data" by simp
  then show ?thesis unfolding cc_process_xor by (simp add: map2_xor_cancel)
qed

text \<open>Processing in pieces is processing at once: the buffered key stream carries over.\<close>

lemma cc_process_append:
  "cc_process (xs @ ys) c =
     (let (o1, c1) = cc_process xs c; (o2, c2) = cc_process ys c1 in (o1 @ o2, c2))"
  by (induction xs arbitrary: c) (simp_all add: case_prod_beta Let_def)

lemma xor_from:
  "fold xor_at [length pre..<length pre + length data] (pre @ data, c) =
     (pre @ fst (cc_process data c), snd (cc_process data c))"
proof (induction data arbitrary: pre c)
  case (Cons x data)
  let ?c = "refill c"
  have "fold xor_at [length pre..<length pre + length (x # data)] (pre @ x # data, c) =
      fold xor_at [length (pre @ [x])..<length (pre @ [x]) + length data] (xor_at (length pre) (pre @ x # data, c))"
    using upt_conv_Cons [of "length pre" "length pre + length (x # data)"] by simp
  also have "xor_at (length pre) (pre @ x # data, c) =
      ((pre @ [x XOR cc_buffer ?c ! cc_buffer_pos ?c]) @ data, ?c\<lparr>cc_buffer_pos := cc_buffer_pos ?c + 1\<rparr>)"
    by (simp add: xor_at_def Let_def)
  finally show ?case
    using Cons.IH [of "pre @ [x XOR cc_buffer ?c ! cc_buffer_pos ?c]" "?c\<lparr>cc_buffer_pos := cc_buffer_pos ?c + 1\<rparr>"]
    by (simp add: Let_def case_prod_beta)
qed simp

text \<open>The loop that encrypts in place computes what \<open>process\<close> computes in a new buffer.\<close>

lemma encrypt_in_place_process: "encrypt_in_place data c = cc_process data c"
  using xor_from [of "[]" data c] by (simp add: encrypt_in_place_def)

section \<open>Comparing tags\<close>

lemma fold_or_zero: "fold (\<lambda>(l, r) diff. diff OR (l XOR r)) ps d = 0 \<longleftrightarrow> d = 0 \<and> (\<forall>(l, r) \<in> set ps. l = (r :: u8))"
proof (induction ps arbitrary: d)
  case (Cons p ps)
  have "d OR (fst p XOR snd p) = 0 \<longleftrightarrow> d = 0 \<and> fst p = snd p"
    by (metis or_eq_0_iff xor_self_eq bit.xor_left_self xor.right_neutral)
  with Cons show ?case by (auto simp: case_prod_beta)
qed simp

lemma constant_time_eq_iff: "constant_time_eq a b \<longleftrightarrow> a = b"
proof -
  have "(\<forall>(l, r) \<in> set (zip a b). l = r) \<longleftrightarrow> a = b" if "length a = length b"
    using that by (induction a b rule: list_induct2) auto
  then show ?thesis by (auto simp: constant_time_eq_def fold_or_zero)
qed

section \<open>Authenticated encryption\<close>

lemma absorb_cipher [simp]:
  "ae_cipher (ae_absorb aad ct a) = ae_cipher a"
  "ae_poly_state (ae_absorb aad ct (a\<lparr>ae_cipher := c\<rparr>)) = ae_poly_state (ae_absorb aad ct a)"
  by (simp_all add: ae_absorb_def Let_def)


lemma process_depends:
  assumes "cc_state c = cc_state d" "cc_counter c = cc_counter d" "cc_buffer_pos c = 64" "cc_buffer_pos d = 64"
  shows "fst (cc_process data c) = fst (cc_process data d)"
proof (cases data)
  case (Cons b bs)
  have "refill c = refill d"
    using assms by (simp add: refill_def generate_block_def set_counter_def Let_def)
  with Cons show ?thesis by (simp add: case_prod_beta Let_def)
qed simp

text \<open>
  The first four bytes of the nonce have no influence on the ciphertext: the block counter, once it
  is advanced, is stored over them, and the first block of key stream is spent on the one-time key.
  Two nonces that differ in these bytes only encrypt with the same key stream.
\<close>

lemma aead_ignores_nonce_prefix:
  "fst (fst (ae_encrypt plaintext aad (ae_new key (n0 # n1 # n2 # n3 # rest)))) =
   fst (fst (ae_encrypt plaintext aad' (ae_new key (m0 # m1 # m2 # m3 # rest))))"
proof -
  let ?c = "\<lambda>nonce. ae_cipher (ae_start (ae_new key nonce))"
  have "fst (cc_process plaintext (?c (n0 # n1 # n2 # n3 # rest))) = fst (cc_process plaintext (?c (m0 # m1 # m2 # m3 # rest)))"
    by (rule process_depends)
      (simp_all add: ae_start_def ae_new_def cc_new_def generate_block_def set_counter_def Let_def le_word_def
        upt_conv_Cons numeral_eq_Suc)
  then show ?thesis by (simp add: ae_encrypt_def Let_def case_prod_beta)
qed

section \<open>The authenticator\<close>

text \<open>The block is added to the accumulator word by word; the key words \<open>po_r\<close> are never used.\<close>

definition block_words :: "u8 list \<Rightarrow> u32 list" where
  "block_words b = [le_word b 0, le_word b 4, le_word b 8, le_word b 12, push_bit 24 1]"

lemma low_half_add: "ucast ((ucast (h :: u32) + ucast n :: u64) AND 0xFFFFFFFF) = h + (n :: u32)"
proof -
  have "unat (h + n) = (unat h + unat n) mod 2 ^ 32" by (simp add: unat_word_ariths)
  moreover have "unat (ucast h + ucast n :: u64) = unat h + unat n"
    using unsigned_less [of h, where ?'a = nat] unsigned_less [of n, where ?'a = nat]
    by (simp add: unat_word_ariths unat_ucast_small)
  moreover have "unat (ucast (x AND 0xFFFFFFFF) :: u32) = unat x mod 2 ^ 32" for x :: u64
  proof -
    have "x AND 0xFFFFFFFF = take_bit 32 x" using take_bit_eq_mask [of 32 x] by (simp add: mask_eq_exp_minus_1)
    then show ?thesis by (simp only: unsigned_ucast_eq unsigned_take_bit_eq) (simp add: take_bit_eq_mod)
  qed
  ultimately show ?thesis by (simp only: word_unat_eq_iff)
qed

lemma process_block_h: "po_h (po_process_block p) = map2 (+) (po_h p) (block_words (po_buffer p))"
proof -
  have "(\<lambda>a. ucast (a AND 0xFFFFFFFF)) \<circ> (\<lambda>(h, n). ucast h + ucast n :: u64) = (\<lambda>(h, n). h + n :: u32)"
    by (rule ext) (simp add: case_prod_beta low_half_add)
  then show ?thesis by (simp add: po_process_block_def Let_def block_words_def del: list.map zip_Cons_Cons)
qed

text \<open>Two states that agree on everything that is still read.\<close>

definition po_same :: "poly1305 \<Rightarrow> poly1305 \<Rightarrow> bool" where
  "po_same p q \<longleftrightarrow> po_h p = po_h q \<and> po_s p = po_s q \<and> po_buffer_len p = po_buffer_len q \<and> po_buffer_len p < 16 \<and>
     length (po_buffer p) = 16 \<and> length (po_buffer q) = 16 \<and>
     take (po_buffer_len p) (po_buffer p) = take (po_buffer_len q) (po_buffer q)"

lemma process_block_fields [simp]:
  "po_s (po_process_block p) = po_s p" "po_buffer (po_process_block p) = po_buffer p"
  "po_buffer_len (po_process_block p) = po_buffer_len p"
  by (simp_all add: po_process_block_def Let_def)

lemma take_update_Suc: "n < length xs \<Longrightarrow> take (Suc n) (xs[n := x]) = take n xs @ [x]"
  by (simp add: take_Suc_conv_app_nth)

lemma po_same_push:
  assumes "po_same p q"
  shows "po_same (po_push x p) (po_push x q)"
proof -
  let ?n = "po_buffer_len p"
  have same: "take (Suc ?n) ((po_buffer p)[?n := x]) = take (Suc ?n) ((po_buffer q)[?n := x])"
    using assms unfolding po_same_def by (elim conjE) (simp add: take_update_Suc)
  show ?thesis
  proof (cases "Suc ?n = 16")
    case True
    with same assms have "(po_buffer p)[?n := x] = (po_buffer q)[?n := x]"
      unfolding po_same_def by (elim conjE) simp
    with True assms show ?thesis unfolding po_same_def by (elim conjE) (simp add: po_push_def Let_def process_block_h)
  next
    case False
    with same assms show ?thesis unfolding po_same_def by (elim conjE) (simp add: po_push_def Let_def)
  qed
qed

lemma po_same_update: "po_same p q \<Longrightarrow> po_same (po_update data p) (po_update data q)"
  unfolding po_update_def by (induction data arbitrary: p q) (simp_all add: po_same_push)

lemma po_same_pad: "po_same p q \<Longrightarrow> po_same (po_pad p) (po_pad q)"
  by (auto simp: po_same_def po_pad_def Let_def process_block_h)

lemma po_same_finish: "po_same p q \<Longrightarrow> po_finish p = po_finish q"
  by (simp add: po_same_def po_finish_def)

lemma po_same_refl: "po_buffer_len p < 16 \<Longrightarrow> length (po_buffer p) = 16 \<Longrightarrow> po_same p p"
  by (simp add: po_same_def)

lemma update_partial:
  assumes "po_buffer_len p + length xs < 16" and "length (po_buffer p) = 16"
  shows "po_update xs p = p\<lparr>po_buffer := take (po_buffer_len p) (po_buffer p) @ xs @ drop (po_buffer_len p + length xs) (po_buffer p),
    po_buffer_len := po_buffer_len p + length xs\<rparr>"
  using assms
proof (induction xs arbitrary: p)
  case (Cons x xs)
  let ?n = "po_buffer_len p"
  have push: "po_push x p = p\<lparr>po_buffer := (po_buffer p)[?n := x], po_buffer_len := Suc ?n\<rparr>"
    using Cons.prems by (simp add: po_push_def Let_def)
  have "drop (Suc (?n + length xs)) ((po_buffer p)[?n := x]) = drop (Suc (?n + length xs)) (po_buffer p)" by simp
  with Cons.IH [of "po_push x p"] Cons.prems push show ?case
    by (simp add: po_update_def take_update_Suc)
qed (simp add: po_update_def)

lemma update_block:
  assumes "po_buffer_len p = 0" and "length (po_buffer p) = 16" and "length b = 16"
  shows "po_h (po_update b p) = map2 (+) (po_h p) (block_words b)" and "po_s (po_update b p) = po_s p"
    and "po_buffer_len (po_update b p) = 0" and "length (po_buffer (po_update b p)) = 16"
proof -
  obtain xs x where b: "b = xs @ [x]" "length xs = 15" using assms(3) by (cases b rule: rev_cases) auto
  have "po_update xs p = p\<lparr>po_buffer := xs @ drop 15 (po_buffer p), po_buffer_len := 15\<rparr>"
    using update_partial [of p xs] assms b by simp
  moreover have "(xs @ drop 15 (po_buffer p))[15 := x] = b"
  proof -
    obtain y where "drop 15 (po_buffer p) = [y]"
      using assms(2) length_Suc_conv [of "drop 15 (po_buffer p)" 0] by auto
    with b show ?thesis by (simp add: list_update_append)
  qed
  moreover have "po_update b p = po_push x (po_update xs p)" by (simp add: b(1) po_update_def)
  ultimately have u: "po_update b p = (po_process_block (p\<lparr>po_buffer := b, po_buffer_len := 16\<rparr>))\<lparr>po_buffer_len := 0\<rparr>"
    by (simp add: po_push_def Let_def)
  show "po_h (po_update b p) = map2 (+) (po_h p) (block_words b)" "po_s (po_update b p) = po_s p"
    "po_buffer_len (po_update b p) = 0" "length (po_buffer (po_update b p)) = 16"
    using assms(3) by (simp_all add: u process_block_h)
qed

lemma po_ready: "po_same p p \<Longrightarrow> po_same (po_pad (po_update xs p)) (po_pad (po_update xs p))"
  by (intro po_same_pad po_same_update)

lemma pad_empties: "po_buffer_len (po_pad p) = 0"
  by (simp add: po_pad_def Let_def)

lemma map2_add_swap: "map2 (+) (map2 (+) h a) b = map2 (+) (map2 (+) h b) (a :: u32 list)"
  by (rule nth_equalityI) (auto simp: ac_simps)

lemma update_append: "po_update (xs @ ys) p = po_update ys (po_update xs p)"
  by (simp add: po_update_def)

lemma update_swap:
  assumes "length (po_buffer p) = 16" and "po_buffer_len p = 0" and "length c1 = 16" and "length c2 = 16"
  shows "po_same (po_update (c1 @ c2 @ rest) p) (po_update (c2 @ c1 @ rest) p)"
proof -
  have "po_same (po_update c2 (po_update c1 p)) (po_update c1 (po_update c2 p))"
    unfolding po_same_def using assms by (simp add: update_block map2_add_swap)
  then show ?thesis unfolding update_append by (rule po_same_update)
qed

lemma absorb_swap:
  assumes "length c1 = 16" and "length c2 = 16"
  shows "po_finish (ae_poly_state (ae_absorb aad (c1 @ c2 @ rest) (ae_start a))) =
    po_finish (ae_poly_state (ae_absorb aad (c2 @ c1 @ rest) (ae_start a)))"
proof -
  let ?p = "po_pad (po_update aad (ae_poly_state (ae_start a)))"
  have "po_same (ae_poly_state (ae_start a)) (ae_poly_state (ae_start a))"
    by (simp add: po_same_def ae_start_def Let_def po_new_def)
  then have "po_same ?p ?p" by (rule po_ready)
  then have "po_same (po_update (c1 @ c2 @ rest) ?p) (po_update (c2 @ c1 @ rest) ?p)"
    by (intro update_swap assms pad_empties) (simp add: po_same_def)
  then have "po_finish (po_update ls (po_pad (po_update (c1 @ c2 @ rest) ?p))) =
    po_finish (po_update ls (po_pad (po_update (c2 @ c1 @ rest) ?p)))" for ls
    by (intro po_same_finish po_same_update po_same_pad)
  then show ?thesis by (simp add: ae_absorb_def Let_def add.left_commute)
qed

lemma decrypt_swap:
  assumes "length c1 = 16" and "length c2 = 16"
  shows "fst (ae_decrypt (c1 @ c2 @ rest) aad tag a) = None \<longleftrightarrow> fst (ae_decrypt (c2 @ c1 @ rest) aad tag a) = None"
  using absorb_swap [OF assms] by (simp add: ae_decrypt_def Let_def split: prod.split)

lemma decrypt_encrypt:
  "fst (ae_decrypt (fst (fst (ae_encrypt plaintext aad a))) aad (snd (fst (ae_encrypt plaintext aad a))) a) = Some plaintext"
  by (simp add: ae_decrypt_def ae_encrypt_def Let_def case_prod_beta constant_time_eq_iff cc_process_twice)

lemma length_encrypt: "length (fst (fst (ae_encrypt plaintext aad a))) = length plaintext"
  by (simp add: ae_encrypt_def Let_def case_prod_beta length_process)

text \<open>
  An altered ciphertext is accepted: exchange the first two 16-byte blocks of what \<open>encrypt\<close> returned for
  any plaintext of at least 32 bytes, keep the tag, and \<open>decrypt\<close> does not refuse it, whatever the key, the nonce
  and the associated data are.  \<open>process_block\<close> adds each block to the accumulator and never multiplies by the key
  \<open>r\<close>, so the tag does not depend on the order of the blocks.
\<close>

lemma aead_accepts_swapped_blocks:
  assumes "32 \<le> length plaintext" and "fst (ae_encrypt plaintext aad a) = (c, tag)"
  shows "fst (ae_decrypt (take 16 (drop 16 c) @ take 16 c @ drop 32 c) aad tag a) \<noteq> None"
proof -
  have len: "32 \<le> length c" using assms length_encrypt [of plaintext aad a] by simp
  have "c = take 16 c @ take 16 (drop 16 c) @ drop 32 c"
    using append_take_drop_id [of 16 c] append_take_drop_id [of 16 "drop 16 c"] by simp
  then have "fst (ae_decrypt (take 16 c @ take 16 (drop 16 c) @ drop 32 c) aad tag a) \<noteq> None"
    using decrypt_encrypt [of plaintext aad a] assms(2) by simp
  with decrypt_swap [of "take 16 c" "take 16 (drop 16 c)"] len show ?thesis by simp
qed

end
