(* ===== verification/Ebpf.thy ===== *)
theory Ebpf
  imports EchOS_Prelude
begin

text \<open>
  The eBPF interpreter and verifier of \<open>src/src/ebpf.rs\<close>.  Registers and stack bytes are lists of the
  fixed array lengths.  An operation returns \<^const>\<open>None\<close> where the code would panic (an array index out
  of range); otherwise a result and the machine, with the error on the left.  The time-stamp counter,
  which one helper reads, is an argument.  The texts of verification messages are represented by
  constructors.
\<close>

section \<open>Instructions\<close>

abbreviation BPF_REG_COUNT :: nat where "BPF_REG_COUNT \<equiv> 11"
abbreviation BPF_REG_FP :: nat where "BPF_REG_FP \<equiv> 10"
abbreviation BPF_STACK_SIZE :: nat where "BPF_STACK_SIZE \<equiv> 512"
abbreviation BPF_MAX_INSNS :: nat where "BPF_MAX_INSNS \<equiv> 4096"
abbreviation BPF_MAX_STEPS :: nat where "BPF_MAX_STEPS \<equiv> 1000000"

abbreviation BPF_LD :: u8 where "BPF_LD \<equiv> 0x00"
abbreviation BPF_LDX :: u8 where "BPF_LDX \<equiv> 0x01"
abbreviation BPF_ST :: u8 where "BPF_ST \<equiv> 0x02"
abbreviation BPF_STX :: u8 where "BPF_STX \<equiv> 0x03"
abbreviation BPF_ALU :: u8 where "BPF_ALU \<equiv> 0x04"
abbreviation BPF_JMP :: u8 where "BPF_JMP \<equiv> 0x05"
abbreviation BPF_JMP32 :: u8 where "BPF_JMP32 \<equiv> 0x06"
abbreviation BPF_ALU64 :: u8 where "BPF_ALU64 \<equiv> 0x07"

abbreviation BPF_ADD :: u8 where "BPF_ADD \<equiv> 0x00"
abbreviation BPF_SUB :: u8 where "BPF_SUB \<equiv> 0x10"
abbreviation BPF_MUL :: u8 where "BPF_MUL \<equiv> 0x20"
abbreviation BPF_DIV :: u8 where "BPF_DIV \<equiv> 0x30"
abbreviation BPF_OR :: u8 where "BPF_OR \<equiv> 0x40"
abbreviation BPF_AND :: u8 where "BPF_AND \<equiv> 0x50"
abbreviation BPF_LSH :: u8 where "BPF_LSH \<equiv> 0x60"
abbreviation BPF_RSH :: u8 where "BPF_RSH \<equiv> 0x70"
abbreviation BPF_NEG :: u8 where "BPF_NEG \<equiv> 0x80"
abbreviation BPF_MOD :: u8 where "BPF_MOD \<equiv> 0x90"
abbreviation BPF_XOR :: u8 where "BPF_XOR \<equiv> 0xa0"
abbreviation BPF_MOV :: u8 where "BPF_MOV \<equiv> 0xb0"
abbreviation BPF_ARSH :: u8 where "BPF_ARSH \<equiv> 0xc0"
abbreviation BPF_END :: u8 where "BPF_END \<equiv> 0xd0"

abbreviation BPF_JA :: u8 where "BPF_JA \<equiv> 0x00"
abbreviation BPF_JEQ :: u8 where "BPF_JEQ \<equiv> 0x10"
abbreviation BPF_JGT :: u8 where "BPF_JGT \<equiv> 0x20"
abbreviation BPF_JGE :: u8 where "BPF_JGE \<equiv> 0x30"
abbreviation BPF_JSET :: u8 where "BPF_JSET \<equiv> 0x40"
abbreviation BPF_JNE :: u8 where "BPF_JNE \<equiv> 0x50"
abbreviation BPF_JSGT :: u8 where "BPF_JSGT \<equiv> 0x60"
abbreviation BPF_JSGE :: u8 where "BPF_JSGE \<equiv> 0x70"
abbreviation BPF_CALL :: u8 where "BPF_CALL \<equiv> 0x80"
abbreviation BPF_EXIT :: u8 where "BPF_EXIT \<equiv> 0x90"
abbreviation BPF_JLT :: u8 where "BPF_JLT \<equiv> 0xa0"
abbreviation BPF_JLE :: u8 where "BPF_JLE \<equiv> 0xb0"
abbreviation BPF_JSLT :: u8 where "BPF_JSLT \<equiv> 0xc0"
abbreviation BPF_JSLE :: u8 where "BPF_JSLE \<equiv> 0xd0"

abbreviation BPF_W :: u8 where "BPF_W \<equiv> 0x00"
abbreviation BPF_H :: u8 where "BPF_H \<equiv> 0x08"
abbreviation BPF_B :: u8 where "BPF_B \<equiv> 0x10"
abbreviation BPF_DW :: u8 where "BPF_DW \<equiv> 0x18"
abbreviation BPF_X :: u8 where "BPF_X \<equiv> 0x08"
abbreviation BPF_ATOMIC :: u8 where "BPF_ATOMIC \<equiv> 0xc0"

record bpf_insn =
  opcode :: u8
  insn_regs :: u8
  insn_off :: u16
  insn_imm :: u32

definition dst_reg :: "bpf_insn \<Rightarrow> nat" where
  "dst_reg insn = unat (insn_regs insn AND 0x0f)"

definition src_reg :: "bpf_insn \<Rightarrow> nat" where
  "src_reg insn = unat (drop_bit 4 (insn_regs insn) AND 0x0f)"

definition insn_class :: "bpf_insn \<Rightarrow> u8" where
  "insn_class insn = opcode insn AND 0x07"

definition insn_op :: "bpf_insn \<Rightarrow> u8" where
  "insn_op insn = opcode insn AND 0xf0"

definition src_type :: "bpf_insn \<Rightarrow> u8" where
  "src_type insn = opcode insn AND 0x08"

definition mem_size :: "bpf_insn \<Rightarrow> u8" where
  "mem_size insn = opcode insn AND 0x18"

definition insn_new :: "u8 \<Rightarrow> u8 \<Rightarrow> u8 \<Rightarrow> u16 \<Rightarrow> u32 \<Rightarrow> bpf_insn" where
  "insn_new op dst src off imm =
     \<lparr>opcode = op, insn_regs = push_bit 4 src OR (dst AND 0x0f), insn_off = off, insn_imm = imm\<rparr>"

datatype verify_failure = EmptyProgram | LastNotExit | TargetOutOfRange nat int | BackwardJump nat u16 | MissingSecondSlot nat

datatype bpf_error = DivisionByZero | InvalidRegister nat | StackOutOfBounds int nat | MemoryAccessViolation u64 nat |
  InvalidOpcode u8 | ExceededStepLimit | VerificationFailed verify_failure | UnknownHelper u32 | ReadOnlyRegister |
  UnreachableInstruction nat | ProgramTooLarge nat | InvalidProgram | InvalidInstruction nat | InvalidJumpTarget

section \<open>The virtual machine\<close>

text \<open>A helper takes the time-stamp counter at the time of the call and its five arguments.\<close>

type_synonym bpf_helper = "u64 \<Rightarrow> u64 \<Rightarrow> u64 \<Rightarrow> u64 \<Rightarrow> u64 \<Rightarrow> u64 \<Rightarrow> u64"

record bpf_vm =
  vm_regs :: "u64 list"
  vm_stack :: "u8 list"
  vm_pc :: nat
  vm_steps :: nat
  vm_running :: bool
  vm_helpers :: "bpf_helper option list"

type_synonym bpf_result = "((bpf_error + unit) \<times> bpf_vm) option"

definition vm_new :: bpf_vm where
  "vm_new = \<lparr>vm_regs = (replicate 11 0)[BPF_REG_FP := 512], vm_stack = replicate BPF_STACK_SIZE 0, vm_pc = 0,
     vm_steps = 0, vm_running = False, vm_helpers = replicate 64 None\<rparr>"

definition register_helper :: "u32 \<Rightarrow> bpf_helper \<Rightarrow> bpf_vm \<Rightarrow> bpf_vm" where
  "register_helper i func vm =
     (if unat i < length (vm_helpers vm) then vm\<lparr>vm_helpers := (vm_helpers vm)[unat i := Some func]\<rparr> else vm)"

definition bpf_err :: "bpf_error \<Rightarrow> bpf_vm \<Rightarrow> bpf_result" where
  "bpf_err e vm = Some (Inl e, vm)"

definition bpf_next :: "bpf_vm \<Rightarrow> bpf_result" where
  "bpf_next vm = Some (Inr (), vm\<lparr>vm_pc := vm_pc vm + 1\<rparr>)"

definition set_reg :: "nat \<Rightarrow> u64 \<Rightarrow> bpf_vm \<Rightarrow> bpf_vm" where
  "set_reg r v vm = vm\<lparr>vm_regs := (vm_regs vm)[r := v]\<rparr>"

text \<open>Little-endian bytes and \<open>swap_bytes\<close> of an \<open>n\<close>-byte integer.\<close>

definition le_bytes :: "nat \<Rightarrow> u64 \<Rightarrow> u8 list" where
  "le_bytes n v = map (\<lambda>i. ucast (drop_bit (8 * i) v)) [0..<n]"

fun le_value :: "u8 list \<Rightarrow> u64" where
  "le_value [] = 0"
| "le_value (b # bs) = ucast b OR push_bit 8 (le_value bs)"

definition swap_bytes :: "nat \<Rightarrow> u64 \<Rightarrow> u64" where
  "swap_bytes n v = le_value (rev (le_bytes n v))"

definition alu64_op :: "bpf_insn \<Rightarrow> u64 \<Rightarrow> u64 \<Rightarrow> bpf_error + u64" where
  "alu64_op insn dst src =
     (let op = insn_op insn; n = unat (ucast src :: u32) mod 64 in
      if op = BPF_ADD then Inr (dst + src)
      else if op = BPF_SUB then Inr (dst - src)
      else if op = BPF_MUL then Inr (dst * src)
      else if op = BPF_DIV then (if src = 0 then Inl DivisionByZero else Inr (dst div src))
      else if op = BPF_MOD then (if src = 0 then Inl DivisionByZero else Inr (dst mod src))
      else if op = BPF_OR then Inr (dst OR src)
      else if op = BPF_AND then Inr (dst AND src)
      else if op = BPF_XOR then Inr (dst XOR src)
      else if op = BPF_LSH then Inr (push_bit n dst)
      else if op = BPF_RSH then Inr (drop_bit n dst)
      else if op = BPF_ARSH then Inr (signed_drop_bit n dst)
      else if op = BPF_NEG then Inr (- dst)
      else if op = BPF_MOV then Inr src
      else if op = BPF_END then
        (if insn_imm insn = 16 then Inr (swap_bytes 2 dst)
         else if insn_imm insn = 32 then Inr (swap_bytes 4 dst)
         else if insn_imm insn = 64 then Inr (swap_bytes 8 dst)
         else Inl (InvalidOpcode (opcode insn)))
      else Inl (InvalidOpcode (opcode insn)))"

definition exec_alu64 :: "bpf_insn \<Rightarrow> bpf_vm \<Rightarrow> bpf_result" where
  "exec_alu64 insn vm =
     (let dst = dst_reg insn; src = src_reg insn in
      if BPF_REG_COUNT \<le> dst \<or> dst = BPF_REG_FP then bpf_err (InvalidRegister dst) vm
      else if src_type insn = BPF_X \<and> BPF_REG_COUNT \<le> src then bpf_err (InvalidRegister src) vm
      else
        let src_val = (if src_type insn = BPF_X then vm_regs vm ! src else scast (insn_imm insn)) in
        case alu64_op insn (vm_regs vm ! dst) src_val of
          Inl e \<Rightarrow> bpf_err e vm
        | Inr v \<Rightarrow> bpf_next (set_reg dst v vm))"

definition alu32_op :: "bpf_insn \<Rightarrow> u32 \<Rightarrow> u32 \<Rightarrow> bpf_error + u32" where
  "alu32_op insn dst src =
     (let op = insn_op insn; n = unat src mod 32 in
      if op = BPF_ADD then Inr (dst + src)
      else if op = BPF_SUB then Inr (dst - src)
      else if op = BPF_MUL then Inr (dst * src)
      else if op = BPF_DIV then (if src = 0 then Inl DivisionByZero else Inr (dst div src))
      else if op = BPF_MOD then (if src = 0 then Inl DivisionByZero else Inr (dst mod src))
      else if op = BPF_OR then Inr (dst OR src)
      else if op = BPF_AND then Inr (dst AND src)
      else if op = BPF_XOR then Inr (dst XOR src)
      else if op = BPF_LSH then Inr (push_bit n dst)
      else if op = BPF_RSH then Inr (drop_bit n dst)
      else if op = BPF_ARSH then Inr (signed_drop_bit n dst)
      else if op = BPF_NEG then Inr (- dst)
      else if op = BPF_MOV then Inr src
      else Inl (InvalidOpcode (opcode insn)))"

definition exec_alu32 :: "bpf_insn \<Rightarrow> bpf_vm \<Rightarrow> bpf_result" where
  "exec_alu32 insn vm =
     (let dst = dst_reg insn; src = src_reg insn in
      if BPF_REG_COUNT \<le> dst \<or> dst = BPF_REG_FP then bpf_err (InvalidRegister dst) vm
      else if src_type insn = BPF_X \<and> BPF_REG_COUNT \<le> src then bpf_err (InvalidRegister src) vm
      else
        let src_val = (if src_type insn = BPF_X then ucast (vm_regs vm ! src) else insn_imm insn) in
        case alu32_op insn (ucast (vm_regs vm ! dst)) src_val of
          Inl e \<Rightarrow> bpf_err e vm
        | Inr v \<Rightarrow> bpf_next (set_reg dst (ucast v) vm))"

text \<open>The condition of a jump, at either width; no value for an operation that is not a conditional jump.\<close>

definition jmp_taken :: "u8 \<Rightarrow> 'a::len word \<Rightarrow> 'a word \<Rightarrow> bool option" where
  "jmp_taken op dst src =
     (if op = BPF_JEQ then Some (dst = src)
      else if op = BPF_JNE then Some (dst \<noteq> src)
      else if op = BPF_JGT then Some (src < dst)
      else if op = BPF_JGE then Some (src \<le> dst)
      else if op = BPF_JLT then Some (dst < src)
      else if op = BPF_JLE then Some (dst \<le> src)
      else if op = BPF_JSGT then Some (sint src < sint dst)
      else if op = BPF_JSGE then Some (sint src \<le> sint dst)
      else if op = BPF_JSLT then Some (sint dst < sint src)
      else if op = BPF_JSLE then Some (sint dst \<le> sint src)
      else if op = BPF_JSET then Some (dst AND src \<noteq> 0)
      else None)"

definition jump :: "bpf_insn \<Rightarrow> nat \<Rightarrow> bpf_vm \<Rightarrow> bpf_result" where
  "jump insn prog_len vm =
     (let target = nat ((int (vm_pc vm) + 1 + sint (insn_off insn)) mod 2 ^ 64);
          vm = vm\<lparr>vm_pc := target\<rparr> in
      if prog_len \<le> target then bpf_err (UnreachableInstruction target) vm else Some (Inr (), vm))"

definition cond_jump :: "bool option \<Rightarrow> bpf_insn \<Rightarrow> nat \<Rightarrow> bpf_vm \<Rightarrow> bpf_result" where
  "cond_jump taken insn prog_len vm =
     (case taken of
        None \<Rightarrow> bpf_err (InvalidOpcode (opcode insn)) vm
      | Some True \<Rightarrow> jump insn prog_len vm
      | Some False \<Rightarrow> bpf_next vm)"

text \<open>The registers a jump compares: an index past the eleven registers panics.\<close>

definition jmp_operands :: "bpf_insn \<Rightarrow> u64 \<Rightarrow> bpf_vm \<Rightarrow> (u64 \<times> u64) option" where
  "jmp_operands insn imm vm =
     (if length (vm_regs vm) \<le> dst_reg insn then None
      else if src_type insn = BPF_X then
        (if length (vm_regs vm) \<le> src_reg insn then None else Some (vm_regs vm ! dst_reg insn, vm_regs vm ! src_reg insn))
      else Some (vm_regs vm ! dst_reg insn, imm))"

definition exec_call :: "u64 \<Rightarrow> bpf_insn \<Rightarrow> bpf_vm \<Rightarrow> bpf_result" where
  "exec_call now insn vm =
     (let helper_id = insn_imm insn; r = vm_regs vm in
      case (if unat helper_id < length (vm_helpers vm) then vm_helpers vm ! unat helper_id else None) of
        Some func \<Rightarrow> bpf_next (set_reg 0 (func now (r ! 1) (r ! 2) (r ! 3) (r ! 4) (r ! 5)) vm)
      | None \<Rightarrow> bpf_err (UnknownHelper helper_id) vm)"

definition exec_jmp :: "u64 \<Rightarrow> bpf_insn \<Rightarrow> nat \<Rightarrow> bpf_vm \<Rightarrow> bpf_result" where
  "exec_jmp now insn prog_len vm =
     (let op = insn_op insn in
      if op = BPF_EXIT then Some (Inr (), vm\<lparr>vm_running := False\<rparr>)
      else if op = BPF_CALL then exec_call now insn vm
      else if op = BPF_JA then jump insn prog_len vm
      else
        case jmp_operands insn (scast (insn_imm insn)) vm of
          None \<Rightarrow> None
        | Some (dst_val, src_val) \<Rightarrow> cond_jump (jmp_taken op dst_val src_val) insn prog_len vm)"

definition exec_jmp32 :: "bpf_insn \<Rightarrow> nat \<Rightarrow> bpf_vm \<Rightarrow> bpf_result" where
  "exec_jmp32 insn prog_len vm =
     (case jmp_operands insn (ucast (insn_imm insn)) vm of
        None \<Rightarrow> None
      | Some (dst_val, src_val) \<Rightarrow>
          cond_jump (jmp_taken (insn_op insn) (ucast dst_val :: u32) (ucast src_val)) insn prog_len vm)"

section \<open>The stack\<close>

definition check_stack_bounds :: "u64 \<Rightarrow> nat \<Rightarrow> bpf_error + nat" where
  "check_stack_bounds offset bytes =
     (let off = unat offset in
      if off < bytes \<or> BPF_STACK_SIZE < off then Inl (StackOutOfBounds (sint offset) bytes) else Inr (off - bytes))"

definition stack_read :: "nat \<Rightarrow> u64 \<Rightarrow> bpf_vm \<Rightarrow> (bpf_error + u64) option" where
  "stack_read bytes addr vm =
     (case check_stack_bounds addr bytes of
        Inl e \<Rightarrow> Some (Inl e)
      | Inr idx \<Rightarrow>
          if idx + bytes \<le> length (vm_stack vm) then Some (Inr (le_value (take bytes (drop idx (vm_stack vm))))) else None)"

definition stack_write :: "nat \<Rightarrow> u64 \<Rightarrow> u64 \<Rightarrow> bpf_vm \<Rightarrow> bpf_result" where
  "stack_write bytes addr val vm =
     (case check_stack_bounds addr bytes of
        Inl e \<Rightarrow> bpf_err e vm
      | Inr idx \<Rightarrow>
          if idx + bytes \<le> length (vm_stack vm) then
            Some (Inr (), vm\<lparr>vm_stack := take idx (vm_stack vm) @ le_bytes bytes val @ drop (idx + bytes) (vm_stack vm)\<rparr>)
          else None)"

definition mem_bytes :: "u8 \<Rightarrow> nat option" where
  "mem_bytes m =
     (if m = BPF_B then Some 1 else if m = BPF_H then Some 2 else if m = BPF_W then Some 4
      else if m = BPF_DW then Some 8 else None)"

text \<open>A store advances the program counter when the write succeeds.\<close>

definition store :: "nat \<Rightarrow> u64 \<Rightarrow> u64 \<Rightarrow> bpf_vm \<Rightarrow> bpf_result" where
  "store bytes addr val vm =
     (case stack_write bytes addr val vm of
        None \<Rightarrow> None
      | Some (Inl e, vm) \<Rightarrow> bpf_err e vm
      | Some (Inr _, vm) \<Rightarrow> bpf_next vm)"

definition exec_ldx :: "bpf_insn \<Rightarrow> bpf_vm \<Rightarrow> bpf_result" where
  "exec_ldx insn vm =
     (let dst = dst_reg insn; src = src_reg insn in
      if BPF_REG_COUNT \<le> dst \<or> dst = BPF_REG_FP then bpf_err (InvalidRegister dst) vm
      else if BPF_REG_COUNT \<le> src then bpf_err (InvalidRegister src) vm
      else
        let addr = vm_regs vm ! src + scast (insn_off insn) in
        case mem_bytes (mem_size insn) of
          None \<Rightarrow> bpf_err (InvalidOpcode (opcode insn)) vm
        | Some bytes \<Rightarrow>
            (case stack_read bytes addr vm of
               None \<Rightarrow> None
             | Some (Inl e) \<Rightarrow> bpf_err e vm
             | Some (Inr value) \<Rightarrow> bpf_next (set_reg dst value vm)))"

definition exec_st :: "bpf_insn \<Rightarrow> bpf_vm \<Rightarrow> bpf_result" where
  "exec_st insn vm =
     (let dst = dst_reg insn in
      if BPF_REG_COUNT \<le> dst then bpf_err (InvalidRegister dst) vm
      else
        let addr = vm_regs vm ! dst + scast (insn_off insn) in
        case mem_bytes (mem_size insn) of
          None \<Rightarrow> bpf_err (InvalidOpcode (opcode insn)) vm
        | Some bytes \<Rightarrow> store bytes addr (scast (insn_imm insn)) vm)"

definition exec_stx :: "bpf_insn \<Rightarrow> bpf_vm \<Rightarrow> bpf_result" where
  "exec_stx insn vm =
     (let dst = dst_reg insn; src = src_reg insn in
      if BPF_REG_COUNT \<le> dst then bpf_err (InvalidRegister dst) vm
      else if BPF_REG_COUNT \<le> src then bpf_err (InvalidRegister src) vm
      else
        let addr = vm_regs vm ! dst + scast (insn_off insn); val = vm_regs vm ! src in
        if mem_size insn = BPF_DW \<and> opcode insn AND 0xf0 = BPF_ATOMIC then
          (case stack_read 8 addr vm of
             None \<Rightarrow> None
           | Some (Inl e) \<Rightarrow> bpf_err e vm
           | Some (Inr old) \<Rightarrow> store 8 addr (old + val) vm)
        else
          case mem_bytes (mem_size insn) of
            None \<Rightarrow> bpf_err (InvalidOpcode (opcode insn)) vm
          | Some bytes \<Rightarrow> store bytes addr val vm)"

definition exec_ld :: "bpf_insn \<Rightarrow> bpf_insn list \<Rightarrow> bpf_vm \<Rightarrow> bpf_result" where
  "exec_ld insn program vm =
     (let dst = dst_reg insn in
      if BPF_REG_COUNT \<le> dst \<or> dst = BPF_REG_FP then bpf_err (InvalidRegister dst) vm
      else if mem_size insn = BPF_DW then
        (if length program \<le> vm_pc vm + 1 then bpf_err (UnreachableInstruction (vm_pc vm + 1)) vm
         else
           let next_insn = program ! (vm_pc vm + 1);
               imm_lo = ucast (insn_imm insn); imm_hi = ucast (insn_imm next_insn) in
           Some (Inr (), (set_reg dst (imm_lo OR push_bit 32 imm_hi) vm)\<lparr>vm_pc := vm_pc vm + 2\<rparr>))
      else bpf_err (InvalidOpcode (opcode insn)) vm)"

section \<open>Execution\<close>

definition bpf_exec :: "u64 \<Rightarrow> bpf_insn list \<Rightarrow> bpf_insn \<Rightarrow> bpf_vm \<Rightarrow> bpf_result" where
  "bpf_exec now program insn vm =
     (let c = insn_class insn in
      if c = BPF_ALU64 then exec_alu64 insn vm
      else if c = BPF_ALU then exec_alu32 insn vm
      else if c = BPF_JMP then exec_jmp now insn (length program) vm
      else if c = BPF_JMP32 then exec_jmp32 insn (length program) vm
      else if c = BPF_LDX then exec_ldx insn vm
      else if c = BPF_ST then exec_st insn vm
      else if c = BPF_STX then exec_stx insn vm
      else if c = BPF_LD then exec_ld insn program vm
      else bpf_err (InvalidOpcode (opcode insn)) vm)"

section \<open>What one instruction changes\<close>

text \<open>Faults an instruction may report at run time, for a verified program too.\<close>

fun fault :: "bpf_error \<Rightarrow> bool" where
  "fault DivisionByZero = True"
| "fault (InvalidRegister _) = True"
| "fault (StackOutOfBounds _ _) = True"
| "fault (InvalidOpcode _) = True"
| "fault (UnknownHelper _) = True"
| "fault _ = False"

definition keeps :: "bpf_vm \<Rightarrow> bpf_vm \<Rightarrow> bool" where
  "keeps vm vm' \<longleftrightarrow> vm_steps vm' = vm_steps vm \<and> length (vm_regs vm') = length (vm_regs vm) \<and>
     length (vm_stack vm') = length (vm_stack vm) \<and> vm_regs vm' ! BPF_REG_FP = vm_regs vm ! BPF_REG_FP \<and>
     vm_helpers vm' = vm_helpers vm"

definition vm_wf :: "bpf_vm \<Rightarrow> bool" where
  "vm_wf vm \<longleftrightarrow> length (vm_regs vm) = BPF_REG_COUNT \<and> length (vm_stack vm) = BPF_STACK_SIZE \<and>
     vm_regs vm ! BPF_REG_FP = 512"

text \<open>An instruction that is not a jump reports a fault and changes nothing, or goes on with the next one.\<close>

definition straight :: "bpf_vm \<Rightarrow> bpf_result \<Rightarrow> bool" where
  "straight vm r \<longleftrightarrow>
     (\<exists>e. r = Some (Inl e, vm) \<and> fault e) \<or>
     (\<exists>vm'. r = Some (Inr (), vm') \<and> keeps vm vm' \<and> vm_pc vm' = vm_pc vm + 1 \<and> vm_running vm' = vm_running vm)"

lemma keeps_refl [simp]: "keeps vm vm"
  by (simp add: keeps_def)

lemma keeps_trans: "keeps a b \<Longrightarrow> keeps b c \<Longrightarrow> keeps a c"
  by (simp add: keeps_def)

lemma keeps_control [simp]:
  "keeps vm (vm'\<lparr>vm_pc := p\<rparr>) = keeps vm vm'" "keeps vm (vm'\<lparr>vm_running := b\<rparr>) = keeps vm vm'"
  by (simp_all add: keeps_def)

lemma keeps_wf: "keeps vm vm' \<Longrightarrow> vm_wf vm \<Longrightarrow> vm_wf vm'"
  by (simp add: keeps_def vm_wf_def)

lemma keeps_set_reg [simp]: "r \<noteq> BPF_REG_FP \<Longrightarrow> keeps vm (set_reg r v vm)"
  by (simp add: keeps_def set_reg_def)

lemma set_reg_control [simp]:
  "vm_pc (set_reg r v vm) = vm_pc vm" "vm_running (set_reg r v vm) = vm_running vm"
  by (simp_all add: set_reg_def)

lemma straight_err: "fault e \<Longrightarrow> straight vm (bpf_err e vm)"
  by (simp add: straight_def bpf_err_def)

lemma straight_next: "keeps vm vm' \<Longrightarrow> vm_pc vm' = vm_pc vm \<Longrightarrow> vm_running vm' = vm_running vm \<Longrightarrow> straight vm (bpf_next vm')"
  by (simp add: straight_def bpf_next_def)

lemmas straight_rules = straight_err straight_next

lemma alu64_op_fault: "alu64_op insn d s = Inl e \<Longrightarrow> fault e"
  by (auto simp: alu64_op_def Let_def split: if_splits)

lemma alu32_op_fault: "alu32_op insn d s = Inl e \<Longrightarrow> fault e"
  by (auto simp: alu32_op_def Let_def split: if_splits)

lemma straight_alu64: "straight vm (exec_alu64 insn vm)"
  unfolding exec_alu64_def Let_def
  by (auto intro!: straight_rules dest: alu64_op_fault split: sum.split)

lemma straight_alu32: "straight vm (exec_alu32 insn vm)"
  unfolding exec_alu32_def Let_def
  by (auto intro!: straight_rules dest: alu32_op_fault split: sum.split)

section \<open>Stack accesses\<close>

lemma length_le_bytes [simp]: "length (le_bytes n v) = n"
  by (simp add: le_bytes_def)

lemma bounds_fault: "check_stack_bounds addr n = Inl e \<Longrightarrow> fault e"
  by (auto simp: check_stack_bounds_def Let_def split: if_splits)

lemma bounds_inside: "check_stack_bounds addr n = Inr idx \<Longrightarrow> idx + n \<le> BPF_STACK_SIZE"
  by (auto simp: check_stack_bounds_def Let_def split: if_splits)

lemma stack_read_total:
  assumes "vm_wf vm"
  shows "(\<exists>e. stack_read n addr vm = Some (Inl e) \<and> fault e) \<or> (\<exists>v. stack_read n addr vm = Some (Inr v))"
  using assms by (auto simp: stack_read_def vm_wf_def split: sum.split dest: bounds_fault bounds_inside)

lemma straight_store:
  assumes "vm_wf vm"
  shows "straight vm (store n addr v vm)"
proof (cases "check_stack_bounds addr n")
  case (Inl e)
  then show ?thesis by (auto simp: store_def stack_write_def bpf_err_def straight_def dest: bounds_fault)
next
  case (Inr idx)
  then have "idx + n \<le> 512" by (rule bounds_inside)
  with Inr assms show ?thesis
    by (auto simp: store_def stack_write_def vm_wf_def keeps_def intro!: straight_next)
qed

lemma straight_ldx:
  assumes "vm_wf vm"
  shows "straight vm (exec_ldx insn vm)"
proof -
  have "straight vm (case stack_read n addr vm of None \<Rightarrow> None | Some (Inl e) \<Rightarrow> bpf_err e vm
      | Some (Inr value) \<Rightarrow> bpf_next (set_reg r value vm))" if "r \<noteq> 10" for n addr r
    using stack_read_total [OF assms, of n addr] that by (auto intro!: straight_rules)
  then show ?thesis
    by (auto simp: exec_ldx_def Let_def intro!: straight_err split: option.split)
qed

lemma straight_st: "vm_wf vm \<Longrightarrow> straight vm (exec_st insn vm)"
  by (auto simp: exec_st_def Let_def intro!: straight_err straight_store split: option.split)

lemma straight_stx:
  assumes "vm_wf vm"
  shows "straight vm (exec_stx insn vm)"
proof -
  have "straight vm (case stack_read 8 addr vm of None \<Rightarrow> None | Some (Inl e) \<Rightarrow> bpf_err e vm
      | Some (Inr old) \<Rightarrow> store 8 addr (old + v) vm)" for addr v
    using stack_read_total [OF assms, of 8 addr] by (auto intro!: straight_err straight_store assms)
  then show ?thesis
    by (auto simp: exec_stx_def Let_def intro!: straight_err straight_store assms split: option.split)
qed

lemma straight_call: "straight vm (exec_call now insn vm)"
  by (auto simp: exec_call_def Let_def intro!: straight_rules split: option.split)

section \<open>Jumps\<close>

lemma target_in_range:
  assumes "0 \<le> int i + 1 + sint (off :: u16)" and "int i + 1 + sint off < int n" and "n \<le> BPF_MAX_INSNS"
  shows "nat ((int i + 1 + sint off) mod 2 ^ 64) = nat (int i + 1 + sint off)"
  using assms by simp

section \<open>The loop\<close>

lemma store_steps: "store n addr v vm = Some (r, vm') \<Longrightarrow> vm_steps vm' = vm_steps vm"
  by (auto simp: store_def stack_write_def bpf_err_def bpf_next_def split: option.splits sum.splits if_splits)

lemma jump_steps: "jump insn n vm = Some (r, vm') \<Longrightarrow> vm_steps vm' = vm_steps vm"
  by (auto simp: jump_def Let_def bpf_err_def split: if_splits)

lemma cond_jump_steps: "cond_jump t insn n vm = Some (r, vm') \<Longrightarrow> vm_steps vm' = vm_steps vm"
  by (auto simp: cond_jump_def bpf_err_def bpf_next_def dest: jump_steps split: option.splits bool.splits)

lemma straight_steps: "straight vm res \<Longrightarrow> res = Some (r, vm') \<Longrightarrow> vm_steps vm' = vm_steps vm"
  by (auto simp: straight_def keeps_def)

lemma ldx_steps: "exec_ldx insn vm = Some (r, vm') \<Longrightarrow> vm_steps vm' = vm_steps vm"
  by (auto simp: exec_ldx_def Let_def bpf_err_def bpf_next_def set_reg_def split: if_splits option.splits sum.splits)

lemma st_steps: "exec_st insn vm = Some (r, vm') \<Longrightarrow> vm_steps vm' = vm_steps vm"
  by (auto simp: exec_st_def Let_def bpf_err_def dest: store_steps split: if_splits option.splits)

lemma stx_steps: "exec_stx insn vm = Some (r, vm') \<Longrightarrow> vm_steps vm' = vm_steps vm"
  by (auto simp: exec_stx_def Let_def bpf_err_def dest: store_steps split: if_splits option.splits sum.splits)

lemma ld_steps: "exec_ld insn program vm = Some (r, vm') \<Longrightarrow> vm_steps vm' = vm_steps vm"
  by (auto simp: exec_ld_def Let_def bpf_err_def set_reg_def split: if_splits)

lemma jmp_steps: "exec_jmp now insn n vm = Some (r, vm') \<Longrightarrow> vm_steps vm' = vm_steps vm"
  by (auto simp: exec_jmp_def Let_def dest: jump_steps cond_jump_steps straight_steps [OF straight_call]
      split: if_splits option.splits)

lemma jmp32_steps: "exec_jmp32 insn n vm = Some (r, vm') \<Longrightarrow> vm_steps vm' = vm_steps vm"
  by (auto simp: exec_jmp32_def dest: cond_jump_steps split: option.splits)

lemma exec_steps: "bpf_exec now program insn vm = Some (r, vm') \<Longrightarrow> vm_steps vm' = vm_steps vm"
  by (auto simp: bpf_exec_def Let_def bpf_err_def dest: straight_steps [OF straight_alu64] straight_steps [OF straight_alu32]
      jmp_steps jmp32_steps ldx_steps st_steps stx_steps ld_steps split: if_splits)

function bpf_loop :: "(nat \<Rightarrow> u64) \<Rightarrow> bpf_insn list \<Rightarrow> bpf_vm \<Rightarrow> ((bpf_error + u64) \<times> bpf_vm) option" where
  "bpf_loop tsc program vm =
     (if \<not> vm_running vm then Some (Inr (vm_regs vm ! 0), vm)
      else if length program \<le> vm_pc vm then Some (Inl (UnreachableInstruction (vm_pc vm)), vm)
      else if BPF_MAX_STEPS \<le> vm_steps vm then Some (Inl ExceededStepLimit, vm)
      else
        let insn = program ! vm_pc vm; vm = vm\<lparr>vm_steps := vm_steps vm + 1\<rparr> in
        case bpf_exec (tsc (vm_steps vm)) program insn vm of
          None \<Rightarrow> None
        | Some (Inl e, vm) \<Rightarrow> Some (Inl e, vm)
        | Some (Inr _, vm) \<Rightarrow> bpf_loop tsc program vm)"
  by pat_completeness auto
termination
  by (relation "measure (\<lambda>(tsc, program, vm). BPF_MAX_STEPS - vm_steps vm)") (auto dest: exec_steps)

declare bpf_loop.simps [simp del]

definition execute :: "(nat \<Rightarrow> u64) \<Rightarrow> bpf_insn list \<Rightarrow> u64 \<Rightarrow> bpf_vm \<Rightarrow> ((bpf_error + u64) \<times> bpf_vm) option" where
  "execute tsc program ctx vm =
     bpf_loop tsc program
       (vm\<lparr>vm_regs := (replicate 11 0)[BPF_REG_FP := 512, 1 := ctx], vm_pc := 0, vm_steps := 0, vm_running := True\<rparr>)"

section \<open>The verifier\<close>

abbreviation is_jump :: "bpf_insn \<Rightarrow> bool" where
  "is_jump insn \<equiv> ((insn_class insn = BPF_JMP \<or> insn_class insn = BPF_JMP32) \<and> insn_op insn \<noteq> BPF_EXIT \<and> insn_op insn \<noteq> BPF_CALL)"

abbreviation is_lddw :: "bpf_insn \<Rightarrow> bool" where
  "is_lddw insn \<equiv> (insn_class insn = BPF_LD \<and> mem_size insn = BPF_DW)"

definition verify_insn :: "bpf_insn list \<Rightarrow> nat \<Rightarrow> bpf_error option" where
  "verify_insn program i =
     (let insn = program ! i; dst = dst_reg insn; src = src_reg insn; target = int i + 1 + sint (insn_off insn) in
      if BPF_REG_COUNT \<le> dst then Some (InvalidRegister dst)
      else if src_type insn = BPF_X \<and> BPF_REG_COUNT \<le> src then Some (InvalidRegister src)
      else if (insn_class insn = BPF_ALU \<or> insn_class insn = BPF_ALU64) \<and> dst = BPF_REG_FP then Some ReadOnlyRegister
      else if is_jump insn \<and> (target < 0 \<or> int (length program) \<le> target) then
        Some (VerificationFailed (TargetOutOfRange i target))
      else if is_jump insn \<and> insn_op insn \<noteq> BPF_JA \<and> sint (insn_off insn) < 0 then
        Some (VerificationFailed (BackwardJump i (insn_off insn)))
      else if is_lddw insn \<and> length program \<le> i + 1 then Some (VerificationFailed (MissingSecondSlot i))
      else None)"

function verify_loop :: "bpf_insn list \<Rightarrow> nat \<Rightarrow> bpf_error + unit" where
  "verify_loop program i =
     (if i < length program then
        (case verify_insn program i of
           Some e \<Rightarrow> Inl e
         | None \<Rightarrow> verify_loop program (if is_lddw (program ! i) then i + 2 else i + 1))
      else Inr ())"
  by pat_completeness auto
termination
  by (relation "measure (\<lambda>(program, i). length program - i)") auto

declare verify_loop.simps [simp del]

definition verify :: "bpf_insn list \<Rightarrow> bpf_error + unit" where
  "verify program =
     (if program = [] then Inl (VerificationFailed EmptyProgram)
      else if BPF_MAX_INSNS < length program then Inl (ProgramTooLarge (length program))
      else
        let last_insn = program ! (length program - 1) in
        if insn_class last_insn \<noteq> BPF_JMP \<or> insn_op last_insn \<noteq> BPF_EXIT then Inl (VerificationFailed LastNotExit)
        else verify_loop program 0)"

section \<open>Helpers\<close>

definition bpf_trace_printk :: bpf_helper where
  "bpf_trace_printk now fmt fmt_size arg1 arg2 arg3 = 0"

definition bpf_ktime_get_ns :: bpf_helper where
  "bpf_ktime_get_ns now a b c d e = now"

definition bpf_get_smp_processor_id :: bpf_helper where
  "bpf_get_smp_processor_id now a b c d e = 0"

definition register_default_helpers :: "bpf_vm \<Rightarrow> bpf_vm" where
  "register_default_helpers vm =
     register_helper 8 bpf_get_smp_processor_id (register_helper 6 bpf_trace_printk (register_helper 5 bpf_ktime_get_ns vm))"

definition verify_and_run :: "(nat \<Rightarrow> u64) \<Rightarrow> bpf_insn list \<Rightarrow> u64 \<Rightarrow> (bpf_error + u64) option" where
  "verify_and_run tsc program ctx =
     (case verify program of
        Inl e \<Rightarrow> Some (Inl e)
      | Inr _ \<Rightarrow> map_option fst (execute tsc program ctx (register_default_helpers vm_new)))"

section \<open>Verified programs\<close>

text \<open>The second slot of a 64-bit load carries opcode 0, as the instruction format demands.\<close>

definition lddw_slots_zero :: "bpf_insn list \<Rightarrow> bool" where
  "lddw_slots_zero program = (\<forall>i < length program - 1. is_lddw (program ! i) \<longrightarrow> opcode (program ! Suc i) = 0)"

definition back_ja :: "bpf_insn \<Rightarrow> bool" where
  "back_ja insn = (insn_class insn = BPF_JMP \<and> insn_op insn = BPF_JA \<and> sint (insn_off insn) < 0)"

definition verified :: "bpf_insn list \<Rightarrow> bool" where
  "verified program \<longleftrightarrow> verify program = Inr () \<and> lddw_slots_zero program"

lemma verify_loop_covers:
  assumes "verify_loop program i = Inr ()" and "lddw_slots_zero program" and "i \<le> j" and "j < length program"
  shows "verify_insn program j = None \<or> opcode (program ! j) = 0"
  using assms
proof (induction program i rule: verify_loop.induct)
  case (1 program i)
  from \<open>i \<le> j\<close> \<open>j < length program\<close> have i: "i < length program" by simp
  with "1.prems"(1) have this_ok: "verify_insn program i = None"
    by (subst (asm) verify_loop.simps) (auto split: option.splits)
  show ?case
  proof (cases "j = i \<or> (j = Suc i \<and> is_lddw (program ! i))")
    case True
    with this_ok "1.prems"(2,4) show ?thesis by (auto simp: lddw_slots_zero_def)
  next
    case False
    let ?i = "if is_lddw (program ! i) then i + 2 else i + 1"
    have "verify_loop program ?i = Inr ()"
      using "1.prems"(1) i this_ok by (subst (asm) verify_loop.simps) simp
    moreover have "?i \<le> j" using False \<open>i \<le> j\<close> by auto
    ultimately show ?thesis using "1.IH" [OF i this_ok] "1.prems"(2,4) by blast
  qed
qed

lemma verified_insn: "verified program \<Longrightarrow> j < length program \<Longrightarrow> verify_insn program j = None \<or> opcode (program ! j) = 0"
  by (rule verify_loop_covers [of program 0]) (auto simp: verified_def verify_def Let_def split: if_splits)

lemma verified_last:
  assumes "verified program" and "Suc j = length program"
  shows "insn_class (program ! j) = BPF_JMP" "insn_op (program ! j) = BPF_EXIT"
proof -
  from assms(2) have "j = length program - 1" by simp
  with assms(1) show "insn_class (program ! j) = BPF_JMP" "insn_op (program ! j) = BPF_EXIT"
    by (auto simp: verified_def verify_def Let_def split: if_splits)
qed

lemma verified_length: "verified program \<Longrightarrow> length program \<le> BPF_MAX_INSNS"
  by (auto simp: verified_def verify_def Let_def split: if_splits)

text \<open>What a verified program does in one step: report a fault, exit, or go on inside the program, forwards unless
  the instruction is an unconditional backward jump.\<close>

definition proceeds :: "bpf_insn list \<Rightarrow> bpf_insn \<Rightarrow> bpf_vm \<Rightarrow> bpf_result \<Rightarrow> bool" where
  "proceeds program insn vm r \<longleftrightarrow>
     (\<exists>e vm'. r = Some (Inl e, vm') \<and> fault e \<and> keeps vm vm') \<or>
     (\<exists>vm'. r = Some (Inr (), vm') \<and> keeps vm vm' \<and>
        (vm_running vm' \<longrightarrow> vm_pc vm' < length program \<and> (vm_pc vm < vm_pc vm' \<or> back_ja insn)))"

lemma straight_proceeds:
  "straight vm r \<Longrightarrow> vm_pc vm + 1 < length program \<Longrightarrow> proceeds program insn vm r"
  unfolding straight_def proceeds_def by auto

lemma jump_proceeds:
  assumes "verify_insn program (vm_pc vm) = None" and "is_jump insn" and "insn = program ! vm_pc vm"
    and "length program \<le> BPF_MAX_INSNS" and "sint (insn_off insn) < 0 \<Longrightarrow> back_ja insn"
  shows "proceeds program insn vm (jump insn (length program) vm)"
proof -
  let ?t = "int (vm_pc vm) + 1 + sint (insn_off insn)"
  have t: "0 \<le> ?t" "?t < int (length program)"
    using assms(1-3) by (auto simp: verify_insn_def Let_def split: if_splits)
  have "\<not> length program \<le> nat ?t" using t by linarith
  then have "jump insn (length program) vm = Some (Inr (), vm\<lparr>vm_pc := nat ?t\<rparr>)"
    by (simp only: jump_def Let_def target_in_range [OF t assms(4)] if_False)
  moreover have "vm_pc vm < nat ?t \<or> back_ja insn" using assms(5) by (cases "sint (insn_off insn) < 0") auto
  ultimately show ?thesis using t by (simp add: proceeds_def nat_less_iff)
qed

lemma cond_jump_proceeds:
  assumes "verify_insn program (vm_pc vm) = None" and "insn = program ! vm_pc vm" and "is_jump insn"
    and "insn_op insn \<noteq> BPF_JA \<or> t = None" and "length program \<le> BPF_MAX_INSNS" and "vm_pc vm + 1 < length program"
  shows "proceeds program insn vm (cond_jump t insn (length program) vm)"
proof (cases t)
  case None
  then show ?thesis using assms(6) by (auto simp: cond_jump_def intro!: straight_proceeds straight_err)
next
  case (Some b)
  with assms have "\<not> sint (insn_off insn) < 0" by (auto simp: verify_insn_def Let_def split: if_splits)
  with assms have "proceeds program insn vm (jump insn (length program) vm)"
    by (intro jump_proceeds) auto
  moreover have "proceeds program insn vm (bpf_next vm)"
    using assms(6) by (intro straight_proceeds straight_next) auto
  ultimately show ?thesis using Some by (cases b) (simp_all add: cond_jump_def)
qed

lemma verify_regs:
  assumes "verify_insn program i = None"
  shows "dst_reg (program ! i) < BPF_REG_COUNT" "src_type (program ! i) = BPF_X \<Longrightarrow> src_reg (program ! i) < BPF_REG_COUNT"
  using assms by (simp_all add: verify_insn_def Let_def not_le split: if_splits)

lemma operands_checked:
  assumes "verify_insn program (vm_pc vm) = None" and "insn = program ! vm_pc vm" and "vm_wf vm"
  obtains d s where "jmp_operands insn i vm = Some (d, s)"
proof -
  have "jmp_operands insn i vm \<noteq> None"
    using verify_regs [OF assms(1)] assms(2,3) by (auto simp: jmp_operands_def vm_wf_def)
  then show ?thesis using that by (cases "jmp_operands insn i vm") auto
qed

lemma jmp_taken_ja: "jmp_taken BPF_JA d s = None" "jmp_taken BPF_EXIT d s = None" "jmp_taken BPF_CALL d s = None"
  by (simp_all add: jmp_taken_def)

lemma exec_jmp_proceeds:
  assumes "verify_insn program (vm_pc vm) = None" and insn: "insn = program ! vm_pc vm" and "vm_wf vm"
    and "insn_class insn = BPF_JMP" and len: "length program \<le> BPF_MAX_INSNS"
    and more: "insn_op insn \<noteq> BPF_EXIT \<Longrightarrow> vm_pc vm + 1 < length program"
  shows "proceeds program insn vm (exec_jmp now insn (length program) vm)"
proof -
  consider "insn_op insn = BPF_EXIT" | "insn_op insn = BPF_CALL" | "insn_op insn = BPF_JA"
    | "insn_op insn \<notin> {BPF_EXIT, BPF_CALL, BPF_JA}" by blast
  then show ?thesis
  proof cases
    case 1
    then show ?thesis by (simp add: exec_jmp_def Let_def proceeds_def)
  next
    case 2
    with more show ?thesis by (simp add: exec_jmp_def Let_def straight_proceeds straight_call)
  next
    case 3
    with assms have "proceeds program insn vm (jump insn (length program) vm)"
      by (intro jump_proceeds) (auto simp: back_ja_def)
    with 3 show ?thesis by (simp add: exec_jmp_def Let_def)
  next
    case 4
    obtain d s where "jmp_operands insn (scast (insn_imm insn)) vm = Some (d, s)"
      by (rule operands_checked [OF assms(1-3)])
    with 4 have "exec_jmp now insn (length program) vm = cond_jump (jmp_taken (insn_op insn) d s) insn (length program) vm"
      by (simp add: exec_jmp_def Let_def)
    with 4 assms show ?thesis by (simp only:) (rule cond_jump_proceeds, auto simp:)
  qed
qed

lemma exec_jmp32_proceeds:
  assumes "verify_insn program (vm_pc vm) = None" and insn: "insn = program ! vm_pc vm" and "vm_wf vm"
    and "insn_class insn = BPF_JMP32" and "length program \<le> BPF_MAX_INSNS" and "vm_pc vm + 1 < length program"
  shows "proceeds program insn vm (exec_jmp32 insn (length program) vm)"
proof -
  obtain d s where "jmp_operands insn (ucast (insn_imm insn)) vm = Some (d, s)"
    by (rule operands_checked [OF assms(1-3)])
  then have e: "exec_jmp32 insn (length program) vm =
      cond_jump (jmp_taken (insn_op insn) (ucast d :: u32) (ucast s)) insn (length program) vm"
    by (simp add: exec_jmp32_def)
  show ?thesis
  proof (cases "insn_op insn \<in> {BPF_EXIT, BPF_CALL}")
    case True
    with assms(6) have "cond_jump (jmp_taken (insn_op insn) (ucast d :: u32) (ucast s)) insn (length program) vm =
        bpf_err (InvalidOpcode (opcode insn)) vm"
      by (auto simp: cond_jump_def jmp_taken_ja)
    with assms(6) show ?thesis unfolding e by (auto intro!: straight_proceeds straight_err)
  next
    case False
    with assms show ?thesis unfolding e
      by (intro cond_jump_proceeds) (auto simp: jmp_taken_ja)
  qed
qed

lemma opcode_zero [simp]: "opcode insn = 0 \<Longrightarrow> insn_class insn = 0" "opcode insn = 0 \<Longrightarrow> mem_size insn = 0"
  by (simp_all add: insn_class_def mem_size_def)

lemma exec_ld_proceeds:
  assumes "verified program" and insn: "insn = program ! vm_pc vm" and cls: "insn_class insn = BPF_LD"
    and more: "vm_pc vm + 1 < length program"
  shows "proceeds program insn vm (exec_ld insn program vm)"
proof (cases "dst_reg insn < BPF_REG_COUNT \<and> dst_reg insn \<noteq> BPF_REG_FP \<and> mem_size insn = BPF_DW")
  case True
  with insn cls have "is_lddw (program ! vm_pc vm)" by simp
  with assms have zero: "opcode (program ! (vm_pc vm + 1)) = 0" by (auto simp: verified_def lddw_slots_zero_def)
  have "Suc (vm_pc vm + 1) \<noteq> length program"
    using verified_last(1) [OF assms(1), of "vm_pc vm + 1"] zero by auto
  with more have "vm_pc vm + 2 < length program" by simp
  with True show ?thesis by (simp add: exec_ld_def Let_def proceeds_def)
next
  case False
  with more show ?thesis by (auto simp: exec_ld_def Let_def intro!: straight_proceeds straight_err)
qed

lemma class_range: "insn_class insn \<in> {0, 1, 2, 3, 4, 5, 6, 7}"
proof -
  have "insn_class insn = take_bit 3 (opcode insn)"
    by (simp add: insn_class_def take_bit_eq_mask mask_eq_exp_minus_1)
  then have "unat (insn_class insn) = take_bit 3 (unat (opcode insn))" by (simp only: unsigned_take_bit_eq)
  then have "unat (insn_class insn) < 8" using take_bit_nat_less_exp [of 3 "unat (opcode insn)"] by simp
  then have "unat (insn_class insn) \<in> {0, 1, 2, 3, 4, 5, 6, 7}" by auto
  then show ?thesis by (auto simp: word_unat_eq_iff)
qed

lemma exec_proceeds:
  assumes "verified program" and "vm_wf vm" and "vm_pc vm < length program"
  shows "proceeds program (program ! vm_pc vm) vm (bpf_exec now program (program ! vm_pc vm) vm)"
proof -
  let ?insn = "program ! vm_pc vm"
  have len: "length program \<le> 4096" by (rule verified_length [OF assms(1)])
  have more: "vm_pc vm + 1 < length program" if "insn_class ?insn \<noteq> BPF_JMP \<or> insn_op ?insn \<noteq> BPF_EXIT"
    using verified_last [OF assms(1), of "vm_pc vm"] that assms(3) by (cases "Suc (vm_pc vm) = length program") auto
  note straight = straight_alu64 straight_alu32 straight_ldx straight_st straight_stx
  show ?thesis
  proof (cases "opcode ?insn = 0")
    case True
    with more assms show ?thesis by (simp add: bpf_exec_def exec_ld_proceeds)
  next
    case False
    then have "verify_insn program (vm_pc vm) = None" using verified_insn [OF assms(1,3)] by simp
    with class_range [of ?insn] more len assms show ?thesis
      by (auto simp: bpf_exec_def straight_proceeds straight exec_ld_proceeds exec_jmp_proceeds exec_jmp32_proceeds)
  qed
qed

lemma proceeds_cases:
  assumes "proceeds program insn vm r"
  obtains e vm' where "r = Some (Inl e, vm')" "fault e" "keeps vm vm'"
  | vm' where "r = Some (Inr (), vm')" "keeps vm vm'"
      "vm_running vm' \<Longrightarrow> vm_pc vm' < length program" "vm_running vm' \<Longrightarrow> vm_pc vm < vm_pc vm' \<or> back_ja insn"
  using assms unfolding proceeds_def by blast

lemma loop_step:
  assumes "vm_running vm" and "vm_pc vm < length program" and "vm_steps vm < BPF_MAX_STEPS"
    and "vm1 = vm\<lparr>vm_steps := vm_steps vm + 1\<rparr>"
  shows "bpf_loop tsc program vm =
    (case bpf_exec (tsc (vm_steps vm1)) program (program ! vm_pc vm) vm1 of
       None \<Rightarrow> None | Some (Inl e, vm) \<Rightarrow> Some (Inl e, vm) | Some (Inr _, vm) \<Rightarrow> bpf_loop tsc program vm)"
  using assms by (subst bpf_loop.simps) (simp add: Let_def)

lemma loop_verified:
  assumes "verified program" and "vm_wf vm" and "vm_running vm \<Longrightarrow> vm_pc vm < length program"
  shows "\<exists>r vm'. bpf_loop tsc program vm = Some (r, vm') \<and> vm_wf vm' \<and> (\<forall>e. r = Inl e \<longrightarrow> fault e \<or> e = ExceededStepLimit)"
  using assms
proof (induction "BPF_MAX_STEPS - vm_steps vm" arbitrary: vm rule: less_induct)
  case less
  show ?case
  proof (cases "vm_running vm \<and> vm_steps vm < BPF_MAX_STEPS")
    case True
    define vm1 where "vm1 = vm\<lparr>vm_steps := vm_steps vm + 1\<rparr>"
    have pc: "vm_pc vm < length program" using less.prems True by simp
    note loop = loop_step [OF _ pc _ vm1_def, of tsc]
    have "vm_wf vm1" "vm_pc vm1 < length program" using less.prems(2) pc by (simp_all add: vm1_def vm_wf_def)
    then have "proceeds program (program ! vm_pc vm1) vm1 (bpf_exec (tsc (vm_steps vm1)) program (program ! vm_pc vm1) vm1)"
      by (rule exec_proceeds [OF less.prems(1)])
    then show ?thesis
    proof (cases rule: proceeds_cases)
      case (1 e vm')
      with \<open>vm_wf vm1\<close> loop True show ?thesis by (simp add: vm1_def keeps_wf)
    next
      case (2 vm')
      from 2(2) have "vm_steps vm' = vm_steps vm + 1" by (simp add: keeps_def vm1_def)
      then have "\<exists>r vm''. bpf_loop tsc program vm' = Some (r, vm'') \<and> vm_wf vm'' \<and> (\<forall>e. r = Inl e \<longrightarrow> fault e \<or> e = ExceededStepLimit)"
        using True 2(3) less.prems(1) keeps_wf [OF 2(2) \<open>vm_wf vm1\<close>] by (intro less.hyps) auto
      with 2(1) loop True show ?thesis by (simp add: vm1_def)
    qed
  next
    case False
    with less.prems show ?thesis by (subst (1) bpf_loop.simps) auto
  qed
qed

lemma loop_forward:
  assumes "verified program" and "\<forall>insn \<in> set program. \<not> back_ja insn" and "vm_wf vm"
    and "vm_running vm \<Longrightarrow> vm_pc vm < length program \<and> vm_steps vm \<le> vm_pc vm" and "vm_steps vm \<le> length program"
  shows "\<exists>r vm'. bpf_loop tsc program vm = Some (r, vm') \<and> vm_steps vm' \<le> length program \<and> (\<forall>e. r = Inl e \<longrightarrow> fault e)"
  using assms
proof (induction "BPF_MAX_STEPS - vm_steps vm" arbitrary: vm rule: less_induct)
  case less
  show ?case
  proof (cases "vm_running vm")
    case True
    define vm1 where "vm1 = vm\<lparr>vm_steps := vm_steps vm + 1\<rparr>"
    have pc: "vm_pc vm < length program" and le: "vm_steps vm \<le> vm_pc vm" using less.prems(4) True by simp_all
    have few: "vm_steps vm < BPF_MAX_STEPS" using pc le verified_length [OF less.prems(1)] by linarith
    note loop = loop_step [OF True pc few vm1_def, of tsc]
    have "vm_wf vm1" "vm_pc vm1 < length program" using less.prems(3) pc by (simp_all add: vm1_def vm_wf_def)
    then have "proceeds program (program ! vm_pc vm1) vm1 (bpf_exec (tsc (vm_steps vm1)) program (program ! vm_pc vm1) vm1)"
      by (rule exec_proceeds [OF less.prems(1)])
    then show ?thesis
    proof (cases rule: proceeds_cases)
      case (1 e vm')
      with loop pc le show ?thesis by (simp add: vm1_def keeps_def)
    next
      case (2 vm')
      from 2(2) have steps: "vm_steps vm' = vm_steps vm + 1" by (simp add: keeps_def vm1_def)
      have "vm_pc vm < vm_pc vm'" if "vm_running vm'"
        using 2(4) [OF that] less.prems(2) pc by (auto simp: vm1_def)
      then have "\<exists>r vm''. bpf_loop tsc program vm' = Some (r, vm'') \<and> vm_steps vm'' \<le> length program \<and> (\<forall>e. r = Inl e \<longrightarrow> fault e)"
        using steps pc le few 2(3) less.prems(1,2) keeps_wf [OF 2(2) \<open>vm_wf vm1\<close>]
        by (intro less.hyps) (auto simp: Suc_le_eq intro: le_less_trans)
      with 2(1) loop show ?thesis by (simp add: vm1_def)
    qed
  next
    case False
    with less.prems show ?thesis by (subst (1) bpf_loop.simps) auto
  qed
qed

lemma verified_nonempty: "verified program \<Longrightarrow> 0 < length program"
  by (auto simp: verified_def verify_def split: if_splits)

lemma execute_verified:
  assumes "verified program" and "length (vm_stack vm) = BPF_STACK_SIZE"
  shows "\<exists>r vm'. execute tsc program ctx vm = Some (r, vm') \<and> vm_wf vm' \<and> (\<forall>e. r = Inl e \<longrightarrow> fault e \<or> e = ExceededStepLimit)"
  unfolding execute_def
  using assms verified_nonempty [of program] by (intro loop_verified) (auto simp: vm_wf_def)

text \<open>
  C2.  The verifier is sound: a program that \<open>verify\<close> accepts, and whose 64-bit loads have a second slot with
  opcode 0, runs without a panic and never leaves the program.  It returns a value, stops with a fault of
  one instruction (a division by zero, a register or an opcode that is not allowed there, an access outside
  the 512 bytes of stack, an unknown helper) or is cut off at the step limit, and the frame pointer and the
  sizes of the register file and the stack are as they were.
\<close>

theorem bpf_verified_programs_are_safe:
  assumes "verify program = Inr ()" and "lddw_slots_zero program" and "length (vm_stack vm) = BPF_STACK_SIZE"
  shows "\<exists>r vm'. execute tsc program ctx vm = Some (r, vm') \<and> vm_wf vm' \<and>
    (\<forall>e. r = Inl e \<longrightarrow> fault e \<or> e = ExceededStepLimit)"
  using assms by (intro execute_verified) (simp_all add: verified_def)


section \<open>The stack as a memory\<close>

lemma le_bytes_Suc: "le_bytes (Suc n) v = ucast v # le_bytes n (drop_bit 8 v)"
  unfolding le_bytes_def by (simp add: upt_conv_Cons map_Suc_upt [symmetric] add.commute del: upt_Suc)

lemma le_value_le_bytes: "le_value (le_bytes n v) = take_bit (8 * n) v"
proof (induction n arbitrary: v)
  case (Suc n)
  have "ucast (ucast v :: u8) OR push_bit 8 (take_bit (8 * n) (drop_bit 8 v)) = take_bit (8 * Suc n) v"
    by (rule bit_word_eqI) (auto simp: bit_simps)
  then show ?case by (simp add: le_bytes_Suc Suc.IH)
qed (simp add: le_bytes_def)

lemma stack_write_cases:
  assumes "stack_write n addr v vm = Some (Inr (), vm')"
  shows "n \<le> unat addr" "unat addr \<le> BPF_STACK_SIZE" "unat addr \<le> length (vm_stack vm)"
    "vm' = vm\<lparr>vm_stack := take (unat addr - n) (vm_stack vm) @ le_bytes n v @ drop (unat addr) (vm_stack vm)\<rparr>"
  using assms
  by (auto simp: stack_write_def check_stack_bounds_def Let_def bpf_err_def split: sum.splits if_splits)

lemma read_frame:
  assumes "b + n \<le> length xs" and "length ys = n" and "k + m \<le> b \<or> b + n \<le> k"
  shows "take m (drop k (take b xs @ ys @ drop (b + n) xs)) = take m (drop k xs)"
  using assms(3)
proof
  assume "k + m \<le> b"
  then have "take (m + k) (take b xs @ ys @ drop (b + n) xs) = take (m + k) xs" using assms(1) by (simp add: min_def)
  then show ?thesis by (simp only: take_drop)
next
  assume "b + n \<le> k"
  then show ?thesis using assms(1,2) by simp
qed

text \<open>
  C28.  The stack is a memory: after a successful store, a load of the same width at the same address returns the
  value stored, cut to the width, and a load of any width from bytes the store did not touch returns what it
  returned before.
\<close>

theorem bpf_stack_is_memory:
  assumes "stack_write n addr v vm = Some (Inr (), vm')"
  shows "stack_read n addr vm' = Some (Inr (take_bit (8 * n) v)) \<and>
    (\<forall>m a. unat a + n \<le> unat addr \<or> unat addr + m \<le> unat a \<longrightarrow> stack_read m a vm' = stack_read m a vm)"
proof -
  note w = stack_write_cases [OF assms]
  have "stack_read n addr vm' = Some (Inr (take_bit (8 * n) v))"
    using w by (simp add: stack_read_def check_stack_bounds_def Let_def le_value_le_bytes)
  moreover have "stack_read m a vm' = stack_read m a vm" if "unat a + n \<le> unat addr \<or> unat addr + m \<le> unat a" for m a
  proof (cases "m \<le> unat a \<and> unat a \<le> BPF_STACK_SIZE")
    case True
    have "unat a - m + m \<le> unat addr - n \<or> unat addr - n + n \<le> unat a - m" using w(1) True that by linarith
    then have "take m (drop (unat a - m) (vm_stack vm')) = take m (drop (unat a - m) (vm_stack vm))"
      using w read_frame [of "unat addr - n" n "vm_stack vm" "le_bytes n v" "unat a - m" m] by simp
    moreover have "length (vm_stack vm') = length (vm_stack vm)" using w by simp
    moreover have "check_stack_bounds a m = Inr (unat a - m)" using True by (simp add: check_stack_bounds_def Let_def)
    ultimately show ?thesis by (simp add: stack_read_def)
  next
    case False
    then show ?thesis by (auto simp: stack_read_def check_stack_bounds_def Let_def)
  qed
  ultimately show ?thesis by blast
qed

section \<open>Concrete programs\<close>

definition sum_program :: "bpf_insn list" where
  "sum_program = [insn_new 0x18 1 0 0 5, insn_new 0 0 0 0 0, insn_new 0xb7 0 0 0 2, insn_new 0x0f 0 1 0 0,
     insn_new 0x15 0 0 1 9, insn_new 0x7b 10 0 0 0, insn_new 0x95 0 0 0 0]"

lemma sum_program_verifies:
  "verify sum_program = Inr ()" "lddw_slots_zero sum_program" "\<forall>insn \<in> set sum_program. \<not> back_ja insn"
  by code_simp+

lemma new_stack: "length (vm_stack vm_new) = BPF_STACK_SIZE"
  by (simp add: vm_new_def)

theorem bpf_verified_programs_are_safe_witness:
  "verify sum_program = Inr () \<and> lddw_slots_zero sum_program \<and>
   (\<exists>r vm'. execute (\<lambda>_. 0) sum_program 0 vm_new = Some (r, vm') \<and> vm_wf vm' \<and>
      (\<forall>e. r = Inl e \<longrightarrow> fault e \<or> e = ExceededStepLimit))"
  using bpf_verified_programs_are_safe [OF sum_program_verifies(1,2) new_stack] sum_program_verifies(1,2) by blast


theorem bpf_stack_is_memory_witness:
  "\<exists>vm'. stack_write 2 512 0x1234 vm_new = Some (Inr (), vm') \<and> stack_read 2 512 vm' = Some (Inr 0x1234)"
proof -
  have "\<exists>vm'. stack_write 2 512 0x1234 vm_new = Some (Inr (), vm')"
    by (simp add: stack_write_def check_stack_bounds_def vm_new_def)
  then obtain vm' where w: "stack_write 2 512 0x1234 vm_new = Some (Inr (), vm')" ..
  with bpf_stack_is_memory [OF w] show ?thesis by (simp add: take_bit_eq_mod)
qed

section \<open>Where the verifier and the machine fall short\<close>

text \<open>A jump into the second slot of a 64-bit load reaches an instruction that was never checked.\<close>

definition slot_program :: "bpf_insn list" where
  "slot_program = [insn_new 0x05 0 0 1 0, insn_new 0x18 0 0 0 0, insn_new 0x15 15 0 0 0, insn_new 0x95 0 0 0 0]"

lemma slot_program_verifies: "verify slot_program = Inr ()"
  by code_simp

lemmas insn_simps = insn_new_def insn_class_def insn_op_def src_type_def mem_size_def dst_reg_def src_reg_def

lemma slot_program_ja: "vm_pc vm = 0 \<Longrightarrow> bpf_exec now slot_program (slot_program ! 0) vm = Some (Inr (), vm\<lparr>vm_pc := 2\<rparr>)"
  by (simp add: slot_program_def insn_simps bpf_exec_def exec_jmp_def jump_def)

lemma slot_program_panics:
  "length (vm_regs vm) = BPF_REG_COUNT \<Longrightarrow> bpf_exec now slot_program (slot_program ! 2) vm = None"
  by (simp add: slot_program_def insn_simps bpf_exec_def exec_jmp_def jmp_operands_def)

lemma slot_program_length: "length slot_program = 4"
  by (simp add: slot_program_def)

text \<open>
  The verifier accepts a program of four instructions that makes the kernel panic, whatever its context: a
  jump lands on the second slot of a 64-bit load, which \<open>verify\<close> skips, and the conditional jump hidden
  there reads register 15.
\<close>

lemma bpf_verifier_misses_second_slot:
  "verify slot_program = Inr () \<and> execute tsc slot_program ctx vm = None"
proof
  show "execute tsc slot_program ctx vm = None"
    unfolding execute_def
    by (subst loop_step [OF _ _ _ refl], simp_all add: slot_program_length slot_program_ja)
      (subst loop_step [OF _ _ _ refl], simp_all add: slot_program_length slot_program_panics)
qed (rule slot_program_verifies)

text \<open>An unconditional jump to itself is accepted too and runs until the step limit.\<close>

definition spin_program :: "bpf_insn list" where
  "spin_program = [insn_new 0x05 0 0 0xffff 0, insn_new 0x95 0 0 0 0]"

lemma spin_program_verifies: "verify spin_program = Inr ()"
  by code_simp

lemma spin_step: "vm_pc vm = 0 \<Longrightarrow> bpf_exec now spin_program (spin_program ! 0) vm = Some (Inr (), vm\<lparr>vm_pc := 0\<rparr>)"
  by (simp add: spin_program_def insn_simps bpf_exec_def exec_jmp_def jump_def)

lemma spin_loop:
  "vm_running vm \<Longrightarrow> vm_pc vm = 0 \<Longrightarrow> map_option fst (bpf_loop tsc spin_program vm) = Some (Inl ExceededStepLimit)"
proof (induction "BPF_MAX_STEPS - vm_steps vm" arbitrary: vm rule: less_induct)
  case less
  have len: "0 < length spin_program" by (simp add: spin_program_def)
  show ?case
  proof (cases "vm_steps vm < BPF_MAX_STEPS")
    case True
    let ?vm = "vm\<lparr>vm_steps := vm_steps vm + 1, vm_pc := 0\<rparr>"
    have "map_option fst (bpf_loop tsc spin_program ?vm) = Some (Inl ExceededStepLimit)"
      using True less.prems by (intro less.hyps) auto
    with True less.prems len show ?thesis by (subst loop_step [OF _ _ _ refl]) (simp_all add: spin_step)
  next
    case False
    with less.prems len show ?thesis by (subst bpf_loop.simps) simp
  qed
qed

lemma spin_program_spins:
  "verify spin_program = Inr () \<and> map_option fst (execute tsc spin_program ctx vm) = Some (Inl ExceededStepLimit)"
  using spin_program_verifies by (simp add: execute_def spin_loop)

text \<open>The atomic addition of \<open>exec_stx\<close> is never reached: its two conditions exclude each other, so the instruction
  stores its operand instead of adding it.\<close>

lemma atomic_branch_is_dead: "mem_size insn = BPF_DW \<Longrightarrow> opcode insn AND 0xf0 \<noteq> BPF_ATOMIC"
proof
  assume "mem_size insn = BPF_DW" and "opcode insn AND 0xf0 = BPF_ATOMIC"
  then have "bit (opcode insn AND 0x18) 4" "\<not> bit (opcode insn AND 0xf0) 4"
    by (simp_all add: mem_size_def bit_simps)
  then show False by (simp add: bit_simps)
qed

text \<open>An access covers the bytes below its address, so a byte load at the address of a 64-bit store reads the
  most significant byte.\<close>

lemma byte_load_reads_top_byte:
  assumes "stack_write 8 addr v vm = Some (Inr (), vm')"
  shows "stack_read 1 addr vm' = Some (Inr (drop_bit 56 v))"
proof -
  note w = stack_write_cases [OF assms]
  have d: "unat addr - 1 = (unat addr - 8) + 7" using w(1) by simp
  have "take 1 (drop (unat addr - 1) (vm_stack vm')) = take 1 (drop 7 (le_bytes 8 v))"
    using w unfolding d by simp
  also have "\<dots> = [ucast (drop_bit 56 v)]" by (simp add: le_bytes_def upt_conv_Cons)
  finally have "le_value (take 1 (drop (unat addr - 1) (vm_stack vm'))) = drop_bit 56 v"
    by (simp, intro bit_word_eqI) (auto simp: bit_simps dest: bit_imp_le_length)
  then show ?thesis using w by (simp add: stack_read_def check_stack_bounds_def Let_def)
qed

end
