(* ===== verification/Ebpf_Prog.thy ===== *)
theory Ebpf_Prog
  imports Ebpf
begin

text \<open>
  Loading, attaching and running eBPF programs: the program registry and the hook tables of
  \<open>src/src/ebpf.rs\<close>.  The global tables are one record of maps.  Running a program takes the time-stamp
  counter readings as an argument; a panic of the interpreter is \<^const>\<open>None\<close>.
\<close>

section \<open>Programs\<close>

datatype bpf_prog_type = SocketFilter | Kprobe | Kretprobe | Tracepoint | Xdp | SchedCls | CgroupSkb

datatype bpf_attach_point = Socket nat | KernelFunc string | TracepointAt string string | NetDevice u32 | TcQdisc u32

datatype xdp_action = XdpDrop | XdpPass | XdpTx | XdpRedirect | XdpAborted

definition xdp_from_u64 :: "u64 \<Rightarrow> xdp_action" where
  "xdp_from_u64 val =
     (if val = 1 then XdpDrop else if val = 2 then XdpPass else if val = 3 then XdpTx
      else if val = 4 then XdpRedirect else XdpAborted)"

record bpf_program =
  bp_id :: u32
  bp_type :: bpf_prog_type
  bp_insns :: "bpf_insn list"
  bp_name :: string
  bp_attach_point :: "bpf_attach_point option"
  bp_run_count :: u64
  bp_run_time_ns :: u64

definition prog_load :: "u32 \<Rightarrow> bpf_prog_type \<Rightarrow> bpf_insn list \<Rightarrow> string \<Rightarrow> bpf_error + bpf_program" where
  "prog_load i prog_type insns name =
     (case verify insns of
        Inl e \<Rightarrow> Inl e
      | Inr _ \<Rightarrow> Inr \<lparr>bp_id = i, bp_type = prog_type, bp_insns = insns, bp_name = name, bp_attach_point = None,
                     bp_run_count = 0, bp_run_time_ns = 0\<rparr>)"

fun compatible :: "bpf_prog_type \<Rightarrow> bpf_attach_point \<Rightarrow> bool" where
  "compatible SocketFilter (Socket _) = True"
| "compatible Kprobe (KernelFunc _) = True"
| "compatible Kretprobe (KernelFunc _) = True"
| "compatible Tracepoint (TracepointAt _ _) = True"
| "compatible Xdp (NetDevice _) = True"
| "compatible SchedCls (TcQdisc _) = True"
| "compatible _ _ = False"

definition prog_attach :: "bpf_attach_point \<Rightarrow> bpf_program \<Rightarrow> bpf_error + bpf_program" where
  "prog_attach point prog =
     (if compatible (bp_type prog) point then Inr (prog\<lparr>bp_attach_point := Some point\<rparr>) else Inl InvalidProgram)"

definition prog_detach :: "bpf_program \<Rightarrow> bpf_program" where
  "prog_detach prog = prog\<lparr>bp_attach_point := None\<rparr>"

text \<open>The readings of one run: the counter as helpers see it, before the run and after it.\<close>

type_synonym run_clock = "(nat \<Rightarrow> u64) \<times> u64 \<times> u64"

definition prog_run :: "run_clock \<Rightarrow> u64 \<Rightarrow> bpf_program \<Rightarrow> ((bpf_error + u64) \<times> bpf_program) option" where
  "prog_run clock ctx prog =
     (let (tsc, start, stop) = clock in
      case execute tsc (bp_insns prog) ctx (register_default_helpers vm_new) of
        None \<Rightarrow> None
      | Some (result, _) \<Rightarrow>
          Some (result, prog\<lparr>bp_run_count := bp_run_count prog + 1, bp_run_time_ns := bp_run_time_ns prog + (stop - start)\<rparr>))"

section \<open>The registry\<close>

record bpf_registry =
  bpf_programs :: "u32 \<rightharpoonup> bpf_program"
  kprobe_hooks :: "u64 \<rightharpoonup> u32 list"
  socket_filters :: "nat \<rightharpoonup> u32"
  xdp_programs :: "u32 \<rightharpoonup> u32"
  next_prog_id :: u32
  jit_helper_table :: "u64 list"

definition bpf_registry_new :: bpf_registry where
  "bpf_registry_new = \<lparr>bpf_programs = Map.empty, kprobe_hooks = Map.empty, socket_filters = Map.empty,
     xdp_programs = Map.empty, next_prog_id = 1, jit_helper_table = replicate 64 0\<rparr>"

definition get_helper_address :: "u32 \<Rightarrow> bpf_registry \<Rightarrow> u64" where
  "get_helper_address helper_id r =
     (if unat helper_id < length (jit_helper_table r) then jit_helper_table r ! unat helper_id else 0)"

definition register_jit_helper :: "u32 \<Rightarrow> u64 \<Rightarrow> bpf_registry \<Rightarrow> bpf_registry" where
  "register_jit_helper helper_id func r =
     (if unat helper_id < length (jit_helper_table r)
      then r\<lparr>jit_helper_table := (jit_helper_table r)[unat helper_id := func]\<rparr> else r)"

definition bpf_prog_load :: "bpf_prog_type \<Rightarrow> bpf_insn list \<Rightarrow> string \<Rightarrow> bpf_registry \<Rightarrow> (bpf_error + u32) \<times> bpf_registry" where
  "bpf_prog_load prog_type insns name r =
     (let i = next_prog_id r; r = r\<lparr>next_prog_id := i + 1\<rparr> in
      case prog_load i prog_type insns name of
        Inl e \<Rightarrow> (Inl e, r)
      | Inr prog \<Rightarrow> (Inr i, r\<lparr>bpf_programs := (bpf_programs r)(i \<mapsto> prog)\<rparr>))"

definition simple_hash :: "string \<Rightarrow> u64" where
  "simple_hash data = fold (\<lambda>b hash. hash * 33 + of_char b) data 5381"

definition attach_hook :: "u32 \<Rightarrow> bpf_attach_point \<Rightarrow> bpf_registry \<Rightarrow> bpf_registry" where
  "attach_hook prog_id point r =
     (case point of
        KernelFunc func_name \<Rightarrow>
          (let addr = simple_hash func_name;
               ids = (case kprobe_hooks r addr of None \<Rightarrow> [] | Some ids \<Rightarrow> ids) in
           r\<lparr>kprobe_hooks := (kprobe_hooks r)(addr \<mapsto> ids @ [prog_id])\<rparr>)
      | Socket fd \<Rightarrow> r\<lparr>socket_filters := (socket_filters r)(fd \<mapsto> prog_id)\<rparr>
      | NetDevice ifindex \<Rightarrow> r\<lparr>xdp_programs := (xdp_programs r)(ifindex \<mapsto> prog_id)\<rparr>
      | _ \<Rightarrow> r)"

definition bpf_prog_attach :: "u32 \<Rightarrow> bpf_attach_point \<Rightarrow> bpf_registry \<Rightarrow> (bpf_error + unit) \<times> bpf_registry" where
  "bpf_prog_attach prog_id point r =
     (case bpf_programs r prog_id of
        None \<Rightarrow> (Inl InvalidProgram, r)
      | Some prog \<Rightarrow>
          (case prog_attach point prog of
             Inl e \<Rightarrow> (Inl e, r)
           | Inr prog \<Rightarrow>
               (Inr (), attach_hook prog_id point (r\<lparr>bpf_programs := (bpf_programs r)(prog_id \<mapsto> prog)\<rparr>))))"

definition retain_ids :: "u32 \<Rightarrow> u32 list \<Rightarrow> u32 list option" where
  "retain_ids prog_id ids = (let ids = filter (\<lambda>i. i \<noteq> prog_id) ids in if ids = [] then None else Some ids)"

definition bpf_prog_unload :: "u32 \<Rightarrow> bpf_registry \<Rightarrow> bool \<times> bpf_registry" where
  "bpf_prog_unload prog_id r =
     (bpf_programs r prog_id \<noteq> None,
      r\<lparr>kprobe_hooks := (\<lambda>a. Option.bind (kprobe_hooks r a) (retain_ids prog_id)),
        socket_filters := (\<lambda>fd. if socket_filters r fd = Some prog_id then None else socket_filters r fd),
        xdp_programs := (\<lambda>i. if xdp_programs r i = Some prog_id then None else xdp_programs r i),
        bpf_programs := (bpf_programs r)(prog_id := None)\<rparr>)"

text \<open>Running the program with an identifier, if it is loaded, and keeping its counters.\<close>

definition run_id :: "run_clock \<Rightarrow> u64 \<Rightarrow> u32 \<Rightarrow> bpf_registry \<Rightarrow> ((bpf_error + u64) option \<times> bpf_registry) option" where
  "run_id clock ctx prog_id r =
     (case bpf_programs r prog_id of
        None \<Rightarrow> Some (None, r)
      | Some prog \<Rightarrow>
          (case prog_run clock ctx prog of
             None \<Rightarrow> None
           | Some (result, prog) \<Rightarrow> Some (Some result, r\<lparr>bpf_programs := (bpf_programs r)(prog_id \<mapsto> prog)\<rparr>)))"

fun run_ids :: "(nat \<Rightarrow> run_clock) \<Rightarrow> u64 \<Rightarrow> u32 list \<Rightarrow> bpf_registry \<Rightarrow> bpf_registry option" where
  "run_ids clock ctx [] r = Some r"
| "run_ids clock ctx (prog_id # ids) r =
     (case run_id (clock 0) ctx prog_id r of
        None \<Rightarrow> None
      | Some (_, r) \<Rightarrow> run_ids (\<lambda>k. clock (Suc k)) ctx ids r)"

definition kprobe_fire :: "(nat \<Rightarrow> run_clock) \<Rightarrow> u64 \<Rightarrow> u64 \<Rightarrow> bpf_registry \<Rightarrow> bpf_registry option" where
  "kprobe_fire clock func_addr regs_ptr r =
     (case kprobe_hooks r func_addr of None \<Rightarrow> Some r | Some ids \<Rightarrow> run_ids clock regs_ptr ids r)"

definition socket_filter_run :: "run_clock \<Rightarrow> nat \<Rightarrow> u64 \<Rightarrow> bpf_registry \<Rightarrow> (bool \<times> bpf_registry) option" where
  "socket_filter_run clock fd skb_ptr r =
     (case socket_filters r fd of
        None \<Rightarrow> Some (True, r)
      | Some prog_id \<Rightarrow>
          (case run_id clock skb_ptr prog_id r of
             None \<Rightarrow> None
           | Some (Some (Inr ret), r) \<Rightarrow> Some (ret \<noteq> 0, r)
           | Some (_, r) \<Rightarrow> Some (True, r)))"

definition xdp_run :: "run_clock \<Rightarrow> u32 \<Rightarrow> u64 \<Rightarrow> bpf_registry \<Rightarrow> (xdp_action \<times> bpf_registry) option" where
  "xdp_run clock ifindex xdp_md_ptr r =
     (case xdp_programs r ifindex of
        None \<Rightarrow> Some (XdpPass, r)
      | Some prog_id \<Rightarrow>
          (case run_id clock xdp_md_ptr prog_id r of
             None \<Rightarrow> None
           | Some (Some (Inr ret), r) \<Rightarrow> Some (xdp_from_u64 ret, r)
           | Some (Some (Inl _), r) \<Rightarrow> Some (XdpAborted, r)
           | Some (None, r) \<Rightarrow> Some (XdpPass, r)))"

section \<open>Reachable registries\<close>

text \<open>Any sequence of calls; \<open>n\<close> counts the loads, each of which uses up an identifier.\<close>

inductive bpf_reach :: "nat \<Rightarrow> bpf_registry \<Rightarrow> bool" where
  init: "bpf_reach 0 bpf_registry_new"
| load: "bpf_reach n r \<Longrightarrow> bpf_reach (Suc n) (snd (bpf_prog_load t insns name r))"
| attach: "bpf_reach n r \<Longrightarrow> bpf_reach n (snd (bpf_prog_attach i point r))"
| unload: "bpf_reach n r \<Longrightarrow> bpf_reach n (snd (bpf_prog_unload i r))"
| jit: "bpf_reach n r \<Longrightarrow> bpf_reach n (register_jit_helper i func r)"
| fire: "bpf_reach n r \<Longrightarrow> kprobe_fire clocks addr ctx r = Some r' \<Longrightarrow> bpf_reach n r'"
| filter: "bpf_reach n r \<Longrightarrow> socket_filter_run clock fd ctx r = Some (b, r') \<Longrightarrow> bpf_reach n r'"
| xdp: "bpf_reach n r \<Longrightarrow> xdp_run clock ifindex ctx r = Some (a, r') \<Longrightarrow> bpf_reach n r'"

text \<open>The part of a program that running and attaching it leave alone.\<close>

definition code_of :: "bpf_registry \<Rightarrow> u32 \<Rightarrow> (u32 \<times> bpf_prog_type \<times> bpf_insn list) option" where
  "code_of r i = map_option (\<lambda>p. (bp_id p, bp_type p, bp_insns p)) (bpf_programs r i)"

definition has_type :: "bpf_registry \<Rightarrow> bpf_prog_type set \<Rightarrow> u32 \<Rightarrow> bool" where
  "has_type r ts i \<longleftrightarrow> (\<exists>j t c. code_of r i = Some (j, t, c) \<and> t \<in> ts)"

definition hooks_ok :: "bpf_registry \<Rightarrow> bool" where
  "hooks_ok r \<longleftrightarrow>
     (\<forall>fd i. socket_filters r fd = Some i \<longrightarrow> has_type r {SocketFilter} i) \<and>
     (\<forall>x i. xdp_programs r x = Some i \<longrightarrow> has_type r {Xdp} i) \<and>
     (\<forall>a ids i. kprobe_hooks r a = Some ids \<longrightarrow> i \<in> set ids \<longrightarrow> has_type r {Kprobe, Kretprobe} i)"

definition code_ok :: "bpf_registry \<Rightarrow> bool" where
  "code_ok r \<longleftrightarrow> (\<forall>i j t c. code_of r i = Some (j, t, c) \<longrightarrow> j = i \<and> verify c = Inr ())"

text \<open>Identifiers in use are below the next one.\<close>

definition ids_ok :: "nat \<Rightarrow> bpf_registry \<Rightarrow> bool" where
  "ids_ok n r \<longleftrightarrow> unat (next_prog_id r) = Suc n \<and> (\<forall>i \<in> dom (code_of r). unat i \<le> n)"

definition same_code :: "bpf_registry \<Rightarrow> bpf_registry \<Rightarrow> bool" where
  "same_code r r' \<longleftrightarrow> code_of r' = code_of r \<and> socket_filters r' = socket_filters r \<and> xdp_programs r' = xdp_programs r \<and>
     kprobe_hooks r' = kprobe_hooks r \<and> next_prog_id r' = next_prog_id r"

lemma same_code_refl [simp]: "same_code r r"
  by (simp add: same_code_def)

lemma same_code_trans: "same_code r r' \<Longrightarrow> same_code r' r'' \<Longrightarrow> same_code r r''"
  by (simp add: same_code_def)

lemma same_code_ok:
  assumes "same_code r r'"
  shows "hooks_ok r \<Longrightarrow> hooks_ok r'" "code_ok r \<Longrightarrow> code_ok r'" "ids_ok n r \<Longrightarrow> ids_ok n r'"
  using assms by (simp_all add: same_code_def hooks_ok_def code_ok_def ids_ok_def has_type_def)

lemma prog_run_code:
  "prog_run clock ctx p = Some (x, p') \<Longrightarrow> (bp_id p', bp_type p', bp_insns p') = (bp_id p, bp_type p, bp_insns p)"
  by (auto simp: prog_run_def split: prod.splits option.splits)

lemma run_id_same: "run_id clock ctx i r = Some (x, r') \<Longrightarrow> same_code r r'"
  by (auto simp: run_id_def same_code_def code_of_def fun_eq_iff dest: prog_run_code split: option.splits)

lemma run_ids_same: "run_ids clocks ctx ids r = Some r' \<Longrightarrow> same_code r r'"
  by (induction clocks ctx ids r rule: run_ids.induct)
    (auto split: option.splits dest: run_id_same intro: same_code_trans)

lemma fire_same: "kprobe_fire clocks addr ctx r = Some r' \<Longrightarrow> same_code r r'"
  by (auto simp: kprobe_fire_def dest: run_ids_same split: option.splits)

lemma filter_same: "socket_filter_run clock fd ctx r = Some (b, r') \<Longrightarrow> same_code r r'"
  by (auto simp: socket_filter_run_def dest: run_id_same split: option.splits sum.splits)

lemma xdp_same: "xdp_run clock ifindex ctx r = Some (a, r') \<Longrightarrow> same_code r r'"
  by (auto simp: xdp_run_def dest: run_id_same split: option.splits sum.splits)

lemma jit_same: "same_code r (register_jit_helper i func r)"
  by (simp add: register_jit_helper_def same_code_def code_of_def fun_eq_iff)

section \<open>Loading, attaching, unloading\<close>

lemma load_code_of:
  "code_of (snd (bpf_prog_load t insns name r)) =
     (if verify insns = Inr () then (code_of r)(next_prog_id r \<mapsto> (next_prog_id r, t, insns)) else code_of r)"
  by (auto simp: bpf_prog_load_def prog_load_def code_of_def fun_eq_iff Let_def split: sum.splits)

lemma load_tables:
  "socket_filters (snd (bpf_prog_load t insns name r)) = socket_filters r"
  "xdp_programs (snd (bpf_prog_load t insns name r)) = xdp_programs r"
  "kprobe_hooks (snd (bpf_prog_load t insns name r)) = kprobe_hooks r"
  "next_prog_id (snd (bpf_prog_load t insns name r)) = next_prog_id r + 1"
  by (simp_all add: bpf_prog_load_def Let_def split: sum.split)

lemma load_code_ok: "code_ok r \<Longrightarrow> code_ok (snd (bpf_prog_load t insns name r))"
  by (simp add: code_ok_def load_code_of)

lemma load_hooks_ok:
  assumes "hooks_ok r" and "ids_ok n r"
  shows "hooks_ok (snd (bpf_prog_load t insns name r))"
proof -
  have "code_of r (next_prog_id r) = None"
    using assms(2) unfolding ids_ok_def by (metis Suc_n_not_le_n domIff)
  then have "has_type r ts i \<Longrightarrow> has_type (snd (bpf_prog_load t insns name r)) ts i" for ts i
    by (auto simp: has_type_def load_code_of)
  with assms(1) show ?thesis by (auto simp: hooks_ok_def load_tables)
qed

lemma load_ids_ok:
  assumes "ids_ok n r" and "Suc n < 2 ^ 32 - 1"
  shows "ids_ok (Suc n) (snd (bpf_prog_load t insns name r))"
proof -
  have n: "unat (next_prog_id r) = Suc n" and le: "\<And>i. i \<in> dom (code_of r) \<Longrightarrow> unat i \<le> n"
    using assms(1) by (auto simp: ids_ok_def)
  have "unat (next_prog_id r + 1) = Suc (Suc n)"
    using n assms(2) by (simp add: unat_word_ariths)
  moreover have "unat i \<le> Suc n" if "i \<in> dom (code_of (snd (bpf_prog_load t insns name r)))" for i
    using that n le [of i] le_SucI by (fastforce simp: load_code_of split: if_splits)
  ultimately show ?thesis by (simp add: ids_ok_def load_tables)
qed

lemma attach_cases:
  obtains "bpf_prog_attach i point r = (Inl InvalidProgram, r)"
  | p where "bpf_programs r i = Some p" "compatible (bp_type p) point"
      "bpf_prog_attach i point r =
        (Inr (), attach_hook i point (r\<lparr>bpf_programs := (bpf_programs r)(i \<mapsto> p\<lparr>bp_attach_point := Some point\<rparr>)\<rparr>))"
proof (cases "bpf_programs r i")
  case None
  then show ?thesis using that(1) by (simp add: bpf_prog_attach_def)
next
  case (Some p)
  then show ?thesis using that
    by (cases "compatible (bp_type p) point") (simp_all add: bpf_prog_attach_def prog_attach_def)
qed

lemma compatible_types:
  "compatible t (Socket fd) = (t = SocketFilter)" "compatible t (NetDevice x) = (t = Xdp)"
  "compatible t (KernelFunc f) = (t = Kprobe \<or> t = Kretprobe)"
  by (cases t; simp)+

lemma attach_hook_code [simp]: "code_of (attach_hook i point r) = code_of r" "next_prog_id (attach_hook i point r) = next_prog_id r"
  by (auto simp: attach_hook_def code_of_def Let_def fun_eq_iff split: bpf_attach_point.split)

lemma attach_hook_ok:
  assumes "hooks_ok r" and "\<And>ts. (\<And>t. compatible t point \<Longrightarrow> t \<in> ts) \<Longrightarrow> has_type r ts i"
  shows "hooks_ok (attach_hook i point r)"
proof -
  have ht: "has_type (attach_hook i point r) = has_type r" by (simp add: has_type_def fun_eq_iff)
  have kprobe: "j = i \<and> (\<exists>f. point = KernelFunc f) \<or> (\<exists>ids. kprobe_hooks r a = Some ids \<and> j \<in> set ids)"
    if "kprobe_hooks (attach_hook i point r) a = Some ids" "j \<in> set ids" for a ids j
    using that by (cases point) (force simp: attach_hook_def Let_def split: option.splits if_splits)+
  have "has_type r {Kprobe, Kretprobe} j" if "kprobe_hooks (attach_hook i point r) a = Some ids" "j \<in> set ids" for a ids j
    using kprobe [OF that] assms by (auto simp: hooks_ok_def compatible_types)
  then show ?thesis
    using assms unfolding hooks_ok_def ht
    by (cases point) (auto simp: attach_hook_def Let_def compatible_types split: if_splits)
qed

lemma attach_ok:
  shows "code_ok r \<Longrightarrow> code_ok (snd (bpf_prog_attach i point r))"
    and "ids_ok n r \<Longrightarrow> ids_ok n (snd (bpf_prog_attach i point r))"
    and "hooks_ok r \<Longrightarrow> hooks_ok (snd (bpf_prog_attach i point r))"
proof -
  have "(code_ok r \<longrightarrow> code_ok (snd (bpf_prog_attach i point r))) \<and> (ids_ok n r \<longrightarrow> ids_ok n (snd (bpf_prog_attach i point r))) \<and>
      (hooks_ok r \<longrightarrow> hooks_ok (snd (bpf_prog_attach i point r)))"
  proof (cases rule: attach_cases [of i point r])
    case (2 p)
    let ?r = "r\<lparr>bpf_programs := (bpf_programs r)(i \<mapsto> p\<lparr>bp_attach_point := Some point\<rparr>)\<rparr>"
    have same: "same_code r ?r" using 2(1) by (simp add: same_code_def code_of_def fun_eq_iff)
    have "has_type ?r ts i" if "\<And>t. compatible t point \<Longrightarrow> t \<in> ts" for ts
      using 2(1,2) that by (simp add: has_type_def code_of_def)
    then have "hooks_ok r \<longrightarrow> hooks_ok (attach_hook i point ?r)"
      using same_code_ok(1) [OF same] attach_hook_ok [of ?r point i] by blast
    moreover have "code_ok (attach_hook i point ?r) = code_ok ?r" by (simp only: code_ok_def attach_hook_code)
    moreover have "ids_ok n (attach_hook i point ?r) = ids_ok n ?r" by (simp only: ids_ok_def attach_hook_code)
    ultimately show ?thesis using same_code_ok(2,3) [OF same] unfolding 2(3) snd_conv by blast
  qed simp
  then show "code_ok r \<Longrightarrow> code_ok (snd (bpf_prog_attach i point r))" "ids_ok n r \<Longrightarrow> ids_ok n (snd (bpf_prog_attach i point r))"
    "hooks_ok r \<Longrightarrow> hooks_ok (snd (bpf_prog_attach i point r))" by blast+
qed

lemma unload_code_of: "code_of (snd (bpf_prog_unload i r)) = (code_of r)(i := None)"
  by (simp add: bpf_prog_unload_def code_of_def fun_eq_iff)

lemma unload_ok:
  shows "code_ok r \<Longrightarrow> code_ok (snd (bpf_prog_unload i r))"
    and "ids_ok n r \<Longrightarrow> ids_ok n (snd (bpf_prog_unload i r))"
    and "hooks_ok r \<Longrightarrow> hooks_ok (snd (bpf_prog_unload i r))"
proof -
  have ht: "has_type (snd (bpf_prog_unload i r)) ts j = has_type r ts j" if "j \<noteq> i" for ts j
    using that by (simp add: has_type_def unload_code_of)
  show "hooks_ok (snd (bpf_prog_unload i r))" if "hooks_ok r"
    unfolding hooks_ok_def
  proof (intro conjI allI impI)
    fix a ids j assume "kprobe_hooks (snd (bpf_prog_unload i r)) a = Some ids" "j \<in> set ids"
    then have "\<exists>ids. kprobe_hooks r a = Some ids \<and> j \<in> set ids" "j \<noteq> i"
      by (auto simp: bpf_prog_unload_def retain_ids_def Let_def bind_eq_Some_conv split: if_splits)
    with that ht show "has_type (snd (bpf_prog_unload i r)) {Kprobe, Kretprobe} j" by (auto simp: hooks_ok_def)
  qed (use that ht in \<open>auto simp: hooks_ok_def bpf_prog_unload_def split: if_splits\<close>)
qed (auto simp: code_ok_def ids_ok_def unload_code_of, simp add: bpf_prog_unload_def)

section \<open>Every reachable registry\<close>

lemma code_ok_program:
  assumes "code_ok r" and "bpf_programs r i = Some p"
  shows "bp_id p = i" "verify (bp_insns p) = Inr ()"
proof -
  have "code_of r i = Some (bp_id p, bp_type p, bp_insns p)" using assms(2) by (simp add: code_of_def)
  with assms(1) show "bp_id p = i" "verify (bp_insns p) = Inr ()" unfolding code_ok_def by blast+
qed

lemma reach_code_ok: "bpf_reach n r \<Longrightarrow> code_ok r"
proof (induction rule: bpf_reach.induct)
  case init
  then show ?case by (simp add: code_ok_def code_of_def bpf_registry_new_def)
qed (auto intro: load_code_ok attach_ok(1) unload_ok(1) same_code_ok(2) fire_same filter_same xdp_same jit_same)

lemma reach_hooks_ok: "bpf_reach n r \<Longrightarrow> n < 2 ^ 32 - 1 \<Longrightarrow> ids_ok n r \<and> hooks_ok r"
proof (induction rule: bpf_reach.induct)
  case init
  then show ?case by (auto simp: ids_ok_def hooks_ok_def code_of_def bpf_registry_new_def)
next
  case (load n r t insns name)
  then have "ids_ok n r \<and> hooks_ok r" by simp
  with load.prems show ?case by (blast intro: load_ids_ok load_hooks_ok)
next
  case (attach n r i point)
  then show ?case by (blast intro: attach_ok(2,3))
next
  case (unload n r i)
  then show ?case by (blast intro: unload_ok(2,3))
qed (blast intro: same_code_ok(1,3) fire_same filter_same xdp_same jit_same)+


definition filtered_registry :: bpf_registry where
  "filtered_registry = snd (bpf_prog_attach 1 (Socket 3) (snd (bpf_prog_load SocketFilter sum_program ''sum'' bpf_registry_new)))"

lemma filtered_reach: "bpf_reach 1 filtered_registry"
  unfolding filtered_registry_def One_nat_def by (intro bpf_reach.intros)

lemma filtered_program:
  "bpf_programs filtered_registry i = (if i = 1 then Some \<lparr>bp_id = 1, bp_type = SocketFilter, bp_insns = sum_program,
     bp_name = ''sum'', bp_attach_point = Some (Socket 3), bp_run_count = 0, bp_run_time_ns = 0\<rparr> else None)"
  "socket_filters filtered_registry = [3 \<mapsto> 1]"
  by (simp_all add: filtered_registry_def bpf_prog_load_def prog_load_def sum_program_verifies bpf_registry_new_def
      bpf_prog_attach_def prog_attach_def attach_hook_def)


lemma run_id_total:
  assumes "code_ok r" and "\<forall>p \<in> ran (bpf_programs r). lddw_slots_zero (bp_insns p)"
  shows "run_id clock ctx i r \<noteq> None"
proof (cases "bpf_programs r i")
  case (Some p)
  obtain tsc start stop where c: "clock = (tsc, start, stop)" by (cases clock)
  have "verified (bp_insns p)"
    using code_ok_program(2) [OF assms(1) Some] assms(2) Some by (auto simp: verified_def ran_def)
  moreover have "length (vm_stack (register_default_helpers vm_new)) = BPF_STACK_SIZE"
    by (simp add: register_default_helpers_def register_helper_def vm_new_def)
  ultimately obtain x vm where "execute tsc (bp_insns p) ctx (register_default_helpers vm_new) = Some (x, vm)"
    using execute_verified by blast
  then show ?thesis by (simp add: run_id_def Some prog_run_def c)
qed (simp add: run_id_def)

lemma same_code_slots:
  assumes "same_code r r'" and "\<forall>p \<in> ran (bpf_programs r). lddw_slots_zero (bp_insns p)"
  shows "\<forall>p \<in> ran (bpf_programs r'). lddw_slots_zero (bp_insns p)"
proof
  fix p assume "p \<in> ran (bpf_programs r')"
  then obtain i where "code_of r' i = Some (bp_id p, bp_type p, bp_insns p)" by (auto simp: ran_def code_of_def)
  then have "code_of r i = Some (bp_id p, bp_type p, bp_insns p)" using assms(1) by (simp add: same_code_def)
  with assms(2) show "lddw_slots_zero (bp_insns p)" by (auto simp: code_of_def ran_def)
qed

lemma run_ids_total:
  "code_ok r \<Longrightarrow> \<forall>p \<in> ran (bpf_programs r). lddw_slots_zero (bp_insns p) \<Longrightarrow> run_ids clocks ctx ids r \<noteq> None"
proof (induction ids arbitrary: clocks r)
  case (Cons i ids)
  obtain x r' where run: "run_id (clocks 0) ctx i r = Some (x, r')"
    using run_id_total [OF Cons.prems, of "clocks 0" ctx i] by auto
  then have "same_code r r'" by (rule run_id_same)
  then have "run_ids (\<lambda>k. clocks (Suc k)) ctx ids r' \<noteq> None"
    by (intro Cons.IH same_code_ok(2) [OF _ Cons.prems(1)] same_code_slots [OF _ Cons.prems(2)])
  with run show ?case by simp
qed simp

text \<open>
  C16.  In every reachable registry whose programs have the second slots of their 64-bit loads in order, no hook
  can bring the kernel down: firing a kernel probe, filtering a packet and running an XDP program return.
\<close>

theorem bpf_hooks_never_panic:
  assumes "bpf_reach n r" and "\<forall>p \<in> ran (bpf_programs r). lddw_slots_zero (bp_insns p)"
  shows "kprobe_fire clocks addr ctx r \<noteq> None \<and> socket_filter_run clock fd ctx r \<noteq> None \<and> xdp_run clock ifindex ctx r \<noteq> None"
proof (intro conjI)
  have run: "\<exists>x r'. run_id clock ctx i r = Some (x, r')" for i
    using run_id_total [OF reach_code_ok [OF assms(1)] assms(2), of clock ctx i] by auto
  show "kprobe_fire clocks addr ctx r \<noteq> None"
    using run_ids_total [OF reach_code_ok [OF assms(1)] assms(2)] by (simp add: kprobe_fire_def split: option.split)
  show "socket_filter_run clock fd ctx r \<noteq> None"
  proof (cases "socket_filters r fd")
    case (Some i)
    with run [of i] show ?thesis by (auto simp: socket_filter_run_def split: option.split sum.split)
  qed (simp add: socket_filter_run_def)
  show "xdp_run clock ifindex ctx r \<noteq> None"
  proof (cases "xdp_programs r ifindex")
    case (Some i)
    with run [of i] show ?thesis by (auto simp: xdp_run_def split: option.split sum.split)
  qed (simp add: xdp_run_def)
qed

theorem bpf_hooks_never_panic_witness:
  "bpf_reach 1 filtered_registry \<and> lddw_slots_zero sum_program \<and>
   socket_filter_run (\<lambda>_. 0, 0, 7) 3 0 filtered_registry \<noteq> None"
proof -
  have slots: "\<forall>p \<in> ran (bpf_programs filtered_registry). lddw_slots_zero (bp_insns p)"
    by (auto simp: ran_def filtered_program sum_program_verifies split: if_splits)
  from bpf_hooks_never_panic [OF filtered_reach slots] filtered_reach sum_program_verifies(2) show ?thesis by blast
qed

end
