(* ===== verification/Block_Device.thy ===== *)
theory Block_Device
  imports EchOS_Prelude
begin

text \<open>
  Block devices.  The trait \<open>BlockDevice\<close> of \<open>src/src/drivers/mod.rs\<close> is a record of its two operations on a device
  state, and \<open>VirtioBlockDevice\<close> one implementation of it, over sector operations of the driver below it, which are
  parameters.  The locale \<open>block_disk\<close> says what clients rely on: sectors of 512 bytes that reads return and writes
  replace.  \<open>virtio_sectors\<close> says what the VirtIO wrapper relies on, and gives the first contract.
\<close>

section \<open>Devices\<close>

record 'd block_device =
  read_sectors :: "u32 \<Rightarrow> u8 \<Rightarrow> 'd \<Rightarrow> u8 list \<times> 'd"
  write_sectors :: "u32 \<Rightarrow> u8 list \<Rightarrow> 'd \<Rightarrow> bool \<times> 'd"

abbreviation SECTOR :: nat where "SECTOR \<equiv> 512"

record 'd virtio_block =
  read_sector :: "nat \<Rightarrow> 'd \<Rightarrow> u8 list option \<times> 'd"
  write_sector :: "nat \<Rightarrow> u8 list \<Rightarrow> 'd \<Rightarrow> bool \<times> 'd"

fun virtio_read :: "'d virtio_block \<Rightarrow> nat \<Rightarrow> nat \<Rightarrow> u8 list \<Rightarrow> 'd \<Rightarrow> u8 list \<times> 'd" where
  "virtio_read inner lba 0 buffer d = (buffer, d)"
| "virtio_read inner lba (Suc count) buffer d =
     (case read_sector inner lba d of
        (None, d) \<Rightarrow> ([], d)
      | (Some sector, d) \<Rightarrow> virtio_read inner (lba + 1) count (buffer @ sector) d)"

fun virtio_write :: "'d virtio_block \<Rightarrow> nat \<Rightarrow> nat \<Rightarrow> u8 list \<Rightarrow> 'd \<Rightarrow> bool \<times> 'd" where
  "virtio_write inner lba 0 data d = (True, d)"
| "virtio_write inner lba (Suc count) data d =
     (case write_sector inner lba (take SECTOR data) d of
        (False, d) \<Rightarrow> (False, d)
      | (True, d) \<Rightarrow> virtio_write inner (lba + 1) count (drop SECTOR data) d)"

definition virtio_block_device :: "'d virtio_block \<Rightarrow> 'd block_device" where
  "virtio_block_device inner =
     \<lparr>read_sectors = (\<lambda>lba count d. virtio_read inner (unat lba) (unat count) [] d),
      write_sectors = (\<lambda>lba data d.
        if length data mod SECTOR \<noteq> 0 then (False, d)
        else virtio_write inner (unat lba) (length data div SECTOR) data d)\<rparr>"

section \<open>What clients rely on\<close>

locale block_disk =
  fixes dev :: "'d block_device" and sector :: "'d \<Rightarrow> nat \<Rightarrow> u8 list" and cap :: nat
  assumes sector_length: "length (sector d i) = SECTOR"
    and reads: "unat lba + unat count \<le> cap \<Longrightarrow>
      \<exists>d'. read_sectors dev lba count d = (concat (map (sector d) [unat lba..<unat lba + unat count]), d') \<and> sector d' = sector d"
    and writes: "length data = SECTOR * n \<Longrightarrow> unat lba + n \<le> cap \<Longrightarrow>
      \<exists>d'. write_sectors dev lba data d = (True, d') \<and>
        sector d' = (\<lambda>i. if unat lba \<le> i \<and> i < unat lba + n then take SECTOR (drop (SECTOR * (i - unat lba)) data) else sector d i)"
begin

lemma read_one:
  assumes "unat lba < cap"
  obtains d' where "read_sectors dev lba 1 d = (sector d (unat lba), d')" "sector d' = sector d"
  using reads [of lba 1 d] assms that by auto

lemma write_one:
  assumes "unat lba < cap" and "length data = SECTOR"
  obtains d' where "write_sectors dev lba data d = (True, d')" "sector d' = (sector d)(unat lba := data)"
proof -
  obtain d' where w: "write_sectors dev lba data d = (True, d')"
    and s: "sector d' = (\<lambda>i. if unat lba \<le> i \<and> i < unat lba + 1 then take SECTOR (drop (SECTOR * (i - unat lba)) data) else sector d i)"
    using writes [of data 1 lba d] assms by auto
  have "sector d' = (sector d)(unat lba := data)"
    using assms(2) unfolding s by (auto simp: fun_eq_iff)
  with w show ?thesis using that by blast
qed

end

text \<open>A sector driver whose single operations work gives a block device through the wrapper.\<close>

locale virtio_sectors =
  fixes inner :: "'d virtio_block" and sector :: "'d \<Rightarrow> nat \<Rightarrow> u8 list" and cap :: nat
  assumes inner_length: "length (sector d i) = SECTOR"
    and inner_read: "i < cap \<Longrightarrow> \<exists>d'. read_sector inner i d = (Some (sector d i), d') \<and> sector d' = sector d"
    and inner_write: "i < cap \<Longrightarrow> length data = SECTOR \<Longrightarrow>
      \<exists>d'. write_sector inner i data d = (True, d') \<and> sector d' = (sector d)(i := data)"
begin

lemma virtio_reads:
  "lba + count \<le> cap \<Longrightarrow>
    \<exists>d'. virtio_read inner lba count buffer d = (buffer @ concat (map (sector d) [lba..<lba + count]), d') \<and> sector d' = sector d"
proof (induction count arbitrary: lba buffer d)
  case (Suc count)
  obtain d1 where r: "read_sector inner lba d = (Some (sector d lba), d1)" "sector d1 = sector d"
    using inner_read [of lba d] Suc.prems by auto
  have "\<exists>d'. virtio_read inner (lba + 1) count (buffer @ sector d lba) d1 =
      ((buffer @ sector d lba) @ concat (map (sector d1) [lba + 1..<lba + 1 + count]), d') \<and> sector d' = sector d1"
    using Suc.prems by (intro Suc.IH) simp
  moreover have "[lba..<lba + Suc count] = lba # [lba + 1..<lba + 1 + count]" by (simp add: upt_conv_Cons del: upt_Suc)
  ultimately show ?case using r by simp
qed simp

lemma virtio_writes:
  "length data = SECTOR * n \<Longrightarrow> lba + n \<le> cap \<Longrightarrow>
    \<exists>d'. virtio_write inner lba n data d = (True, d') \<and>
      sector d' = (\<lambda>i. if lba \<le> i \<and> i < lba + n then take SECTOR (drop (SECTOR * (i - lba)) data) else sector d i)"
proof (induction n arbitrary: lba data d)
  case (Suc n)
  obtain d1 where w: "write_sector inner lba (take SECTOR data) d = (True, d1)"
    "sector d1 = (sector d)(lba := take SECTOR data)"
    using inner_write [of lba "take SECTOR data" d] Suc.prems by auto
  obtain d' where r: "virtio_write inner (lba + 1) n (drop SECTOR data) d1 = (True, d')"
    and s: "sector d' = (\<lambda>i. if lba + 1 \<le> i \<and> i < lba + 1 + n
      then take SECTOR (drop (SECTOR * (i - (lba + 1))) (drop SECTOR data)) else sector d1 i)"
    using Suc.IH [of "drop SECTOR data" "lba + 1" d1] Suc.prems by auto
  have "sector d' i = (if lba \<le> i \<and> i < lba + Suc n then take SECTOR (drop (SECTOR * (i - lba)) data) else sector d i)" for i
  proof (cases "lba < i")
    case True
    then have "SECTOR + SECTOR * (i - (lba + 1)) = SECTOR * (i - lba)" by (simp add: algebra_simps)
    with True show ?thesis by (simp add: s w(2) add.commute)
  qed (auto simp: s w(2))
  with w(1) r show ?case by auto
qed (auto simp: fun_eq_iff)

end

sublocale virtio_sectors \<subseteq> block_disk "virtio_block_device inner" sector cap
proof
  show "length (sector d i) = SECTOR" for d i by (rule inner_length)
  show "\<exists>d'. read_sectors (virtio_block_device inner) lba count d =
      (concat (map (sector d) [unat lba..<unat lba + unat count]), d') \<and> sector d' = sector d"
    if "unat lba + unat count \<le> cap" for lba count d
    using virtio_reads [OF that, of "[]" d] by (simp add: virtio_block_device_def)
  show "\<exists>d'. write_sectors (virtio_block_device inner) lba data d = (True, d') \<and>
      sector d' = (\<lambda>i. if unat lba \<le> i \<and> i < unat lba + n then take SECTOR (drop (SECTOR * (i - unat lba)) data) else sector d i)"
    if "length data = SECTOR * n" "unat lba + n \<le> cap" for data n lba d
    using virtio_writes [OF that, of d] that(1) by (simp add: virtio_block_device_def)
qed

context virtio_sectors
begin

lemma virtio_block_disk: "block_disk (virtio_block_device inner) sector cap"
  by (rule block_disk_axioms)

end

section \<open>A store of sectors\<close>

text \<open>A driver that keeps its sectors in memory and refuses accesses past its capacity.\<close>

definition store_sector :: "(nat \<Rightarrow> u8 list) \<Rightarrow> nat \<Rightarrow> u8 list" where
  "store_sector d i = take SECTOR (d i @ replicate SECTOR 0)"

definition store_driver :: "nat \<Rightarrow> (nat \<Rightarrow> u8 list) virtio_block" where
  "store_driver cap =
     \<lparr>read_sector = (\<lambda>i d. (if i < cap then Some (store_sector d i) else None, d)),
      write_sector = (\<lambda>i data d. if i < cap then (True, d(i := data)) else (False, d))\<rparr>"

interpretation store: virtio_sectors "store_driver n" store_sector n
proof
  show "length (store_sector d i) = SECTOR" for d i by (simp add: store_sector_def)
  show "\<exists>d'. read_sector (store_driver n) i d = (Some (store_sector d i), d') \<and> store_sector d' = store_sector d"
    if "i < n" for i d using that by (simp add: store_driver_def)
  show "\<exists>d'. write_sector (store_driver n) i data d = (True, d') \<and> store_sector d' = (store_sector d)(i := data)"
    if "i < n" "length data = SECTOR" for i data d
    using that by (intro exI [of _ "d(i := data)"]) (auto simp: store_driver_def store_sector_def fun_eq_iff)
qed

end
