(* ===== verification/Crc32c.thy ===== *)
theory Crc32c
  imports EchOS_Prelude
begin

text \<open>
  The CRC-32C checksum of \<open>src/src/fs/journal.rs\<close>, computed with a table of 256 entries.  The table is shown to
  compute the bit-by-bit remainder, and the checksum to notice every change within four consecutive bytes.
\<close>

section \<open>The table and the checksum\<close>

definition crc_bit :: "u32 \<Rightarrow> u32" where
  "crc_bit crc = drop_bit 1 crc XOR (if crc AND 1 \<noteq> 0 then 0x82F63B78 else 0)"

definition generate_crc32c_table :: "u32 list" where
  "generate_crc32c_table = map (\<lambda>i. (crc_bit ^^ 8) (of_nat i)) [0..<256]"

definition crc32c_with_seed :: "u8 list \<Rightarrow> u32 \<Rightarrow> u32" where
  "crc32c_with_seed data seed =
     fold (\<lambda>byte crc. let idx = unat ((crc XOR ucast byte) AND 0xFF) in drop_bit 8 crc XOR generate_crc32c_table ! idx) data seed"

definition crc32c :: "u8 list \<Rightarrow> u32" where
  "crc32c data = crc32c_with_seed data 0xFFFFFFFF XOR 0xFFFFFFFF"

section \<open>Bit by bit\<close>

text \<open>The reference: eight steps of the polynomial division per byte.\<close>

definition crc_byte :: "u8 \<Rightarrow> u32 \<Rightarrow> u32" where
  "crc_byte byte crc = (crc_bit ^^ 8) (crc XOR ucast byte)"

lemma xor_right_cancel: "x XOR z = y XOR z \<longleftrightarrow> x = (y :: 'a::len word)"
proof
  assume "x XOR z = y XOR z"
  then have "(x XOR z) XOR z = (y XOR z) XOR z" by simp
  then show "x = y" by (simp only: xor.assoc xor_self_eq xor.right_neutral)
qed simp

lemma crc_bit_odd: "crc_bit crc = drop_bit 1 crc XOR (if odd crc then 0x82F63B78 else 0)"
  by (simp add: crc_bit_def and_one_eq odd_iff_mod_2_eq_one)

lemma crc_bit_xor: "crc_bit (x XOR y) = crc_bit x XOR crc_bit y"
  by (cases "odd x"; cases "odd y") (simp_all add: crc_bit_odd drop_bit_xor even_xor_iff ac_simps)

lemma crc_bits_xor: "(crc_bit ^^ n) (x XOR y) = (crc_bit ^^ n) x XOR (crc_bit ^^ n) y"
  by (induction n) (simp_all add: crc_bit_xor)

lemma drop_push:
  assumes "\<And>i. 32 - m \<le> i \<Longrightarrow> \<not> bit (y :: u32) i"
  shows "drop_bit m (push_bit m y) = y"
proof (rule bit_word_eqI)
  fix n
  show "bit (drop_bit m (push_bit m y)) n = bit y n"
    using assms [of n] by (cases "32 - m \<le> n") (auto simp: bit_simps dest: bit_imp_le_length)
qed

lemma crc_bit_push: "\<not> bit y 31 \<Longrightarrow> crc_bit (push_bit 1 y) = y"
proof -
  assume y: "\<not> bit y 31"
  have "drop_bit 1 (push_bit 1 y) = y"
  proof (rule drop_push)
    fix i :: nat assume "32 - 1 \<le> i"
    with y show "\<not> bit y i" by (cases "i = 31") (auto dest: bit_imp_le_length)
  qed
  moreover have "even (push_bit 1 y)" by simp
  ultimately show ?thesis by (simp only: crc_bit_odd if_False not_True_eq_False simp_thms) simp
qed

lemma crc_bits_push:
  assumes "\<And>i. 32 - n \<le> i \<Longrightarrow> \<not> bit y i"
  shows "(crc_bit ^^ n) (push_bit n y) = y"
  using assms
proof (induction n arbitrary: y)
  case (Suc n)
  have "push_bit (Suc n) y = push_bit n (push_bit 1 y)" by (simp add: ac_simps)
  moreover have "(crc_bit ^^ n) (push_bit n (push_bit 1 y)) = push_bit 1 y"
  proof (rule Suc.IH)
    fix i :: nat assume "32 - n \<le> i"
    with Suc.prems [of "i - 1"] show "\<not> bit (push_bit 1 y) i" by (simp only: bit_push_bit_iff) simp
  qed
  moreover have "crc_bit (push_bit 1 y) = y" using Suc.prems [of 31] by (intro crc_bit_push) simp
  ultimately show ?case by (simp only: funpow.simps comp_apply)
qed simp

lemma crc_bit_inj: "crc_bit x = crc_bit y \<Longrightarrow> x = y"
proof -
  assume eq: "crc_bit x = crc_bit y"
  have top: "bit (crc_bit z) 31 \<longleftrightarrow> odd z" for z
    using bit_imp_le_length [of z 32] by (auto simp: crc_bit_odd bit_simps)
  have "odd x \<longleftrightarrow> odd y" using top [of x] top [of y] eq by simp
  with eq have half: "drop_bit 1 x = drop_bit 1 y" by (auto simp: crc_bit_odd xor_right_cancel split: if_splits)
  show ?thesis
  proof (rule bit_word_eqI)
    fix n
    have "bit (drop_bit 1 x) m = bit (drop_bit 1 y) m" for m by (simp only: half)
    then show "bit x n = bit y n"
      using \<open>odd x \<longleftrightarrow> odd y\<close> by (cases n) (simp_all add: bit_0 bit_drop_bit_eq)
  qed
qed

lemma crc_bits_inj: "(crc_bit ^^ n) x = (crc_bit ^^ n) y \<Longrightarrow> x = y"
  by (induction n) (auto dest: crc_bit_inj)

lemma crc_byte_inj: "crc_byte b x = crc_byte b y \<Longrightarrow> x = y"
proof -
  assume "crc_byte b x = crc_byte b y"
  then have "x XOR ucast b = y XOR ucast b" unfolding crc_byte_def by (rule crc_bits_inj)
  then show ?thesis by (simp only: xor_right_cancel)
qed

text \<open>The table lookup does eight steps at once: the bits above the lowest byte only move down.\<close>

lemma table_step: "drop_bit 8 crc XOR generate_crc32c_table ! unat ((crc XOR ucast byte) AND 0xFF) = crc_byte byte crc"
proof -
  let ?x = "crc XOR ucast byte" and ?h = "drop_bit 8 crc"
  have low: "?x AND 0xFF = take_bit 8 ?x" using take_bit_eq_mask [of 8 ?x] by (simp add: mask_eq_exp_minus_1)
  have "unat (?x AND 0xFF) < 256"
    unfolding low unsigned_take_bit_eq using take_bit_nat_less_exp [of 8 "unat ?x"] by simp
  then have tab: "generate_crc32c_table ! unat (?x AND 0xFF) = (crc_bit ^^ 8) (?x AND 0xFF)"
    unfolding generate_crc32c_table_def by (simp add: nth_append)
  have "\<not> bit ?h i" if "32 - 8 \<le> i" for i
    using that bit_imp_le_length [of crc "8 + i"] by (auto simp: bit_drop_bit_eq)
  then have high: "(crc_bit ^^ 8) (push_bit 8 ?h) = ?h" by (rule crc_bits_push)
  have "?x = push_bit 8 ?h XOR (?x AND 0xFF)"
    unfolding low by (rule bit_word_eqI) (auto simp: bit_simps dest: bit_imp_le_length)
  then have "(crc_bit ^^ 8) ?x = ?h XOR (crc_bit ^^ 8) (?x AND 0xFF)"
    using high crc_bits_xor [of 8 "push_bit 8 ?h" "?x AND 0xFF"] by argo
  then show ?thesis unfolding crc_byte_def tab by argo
qed

text \<open>The checksum computed with the table is the bit-by-bit remainder.\<close>

lemma crc32c_with_seed_bitwise: "crc32c_with_seed data seed = fold crc_byte data seed"
proof -
  have "(\<lambda>byte crc. let idx = unat ((crc XOR ucast byte) AND 0xFF) in drop_bit 8 crc XOR generate_crc32c_table ! idx) = crc_byte"
    by (intro ext) (simp only: Let_def table_step)
  then show ?thesis by (simp only: crc32c_with_seed_def)
qed

section \<open>What the checksum detects\<close>

fun le_bits :: "u8 list \<Rightarrow> u32" where
  "le_bits [] = 0"
| "le_bits (b # bs) = ucast b XOR push_bit 8 (le_bits bs)"

lemma le_bits_high: "8 * length bs \<le> i \<Longrightarrow> \<not> bit (le_bits bs) i"
  by (induction bs arbitrary: i) (auto simp: bit_simps dest: bit_imp_le_length)

lemma fold_crc_byte:
  assumes "length bs \<le> 4"
  shows "fold crc_byte bs crc = (crc_bit ^^ (8 * length bs)) (crc XOR le_bits bs)"
  using assms
proof (induction bs arbitrary: crc)
  case (Cons b bs)
  have "(crc_bit ^^ 8) (push_bit 8 (le_bits bs)) = le_bits bs"
    using Cons.prems by (intro crc_bits_push le_bits_high) simp
  then have "crc_byte b crc XOR le_bits bs = (crc_bit ^^ 8) (crc XOR le_bits (b # bs))"
    by (simp only: crc_byte_def le_bits.simps crc_bits_xor xor.assoc)
  then have "fold crc_byte (b # bs) crc = (crc_bit ^^ (8 * length bs)) ((crc_bit ^^ 8) (crc XOR le_bits (b # bs)))"
    using Cons by simp
  moreover have "8 * length (b # bs) = 8 * length bs + 8" by simp
  ultimately show ?case by (simp only: funpow_add comp_apply)
qed simp

lemma le_bits_inj: "length xs = length ys \<Longrightarrow> length xs \<le> 4 \<Longrightarrow> le_bits xs = le_bits ys \<Longrightarrow> xs = ys"
proof (induction xs ys rule: list_induct2)
  case (Cons x xs y ys)
  have eq: "bit (ucast x XOR push_bit 8 (le_bits xs)) n = bit (ucast y XOR push_bit 8 (le_bits ys)) n" for n
    using Cons.prems by simp
  have "x = y"
  proof (rule bit_word_eqI)
    fix n assume "n < LENGTH(8)"
    then show "bit x n = bit y n" using eq [of n] by (simp add: bit_simps)
  qed
  have "push_bit 8 (le_bits xs) = push_bit 8 (le_bits ys)"
    using Cons.prems \<open>x = y\<close> by (simp add: xor_right_cancel xor.commute [of "ucast y"])
  then have "drop_bit 8 (push_bit 8 (le_bits xs)) = drop_bit 8 (push_bit 8 (le_bits ys))" by simp
  moreover have "drop_bit 8 (push_bit 8 (le_bits zs)) = le_bits zs" if "length zs < 4" for zs
    using that by (intro drop_push le_bits_high) simp
  ultimately have "le_bits xs = le_bits ys" using Cons.prems(1) Cons.hyps by (metis length_Cons Suc_le_lessD)
  then show ?case using Cons \<open>x = y\<close> by simp
qed simp

lemma fold_crc_byte_inj: "fold crc_byte bs x = fold crc_byte bs y \<Longrightarrow> x = y"
  by (induction bs arbitrary: x y) (auto dest: crc_byte_inj)

text \<open>
  C36.  The checksum notices every change confined to four consecutive bytes: two messages of equal length that
  differ only there have different checksums, wherever in the message the change is.
\<close>

theorem crc32c_detects_bursts:
  assumes "length xs = length ys" and "length xs \<le> 4" and "xs \<noteq> ys"
  shows "crc32c (pre @ xs @ post) \<noteq> crc32c (pre @ ys @ post)"
proof
  let ?c = "fold crc_byte pre 0xFFFFFFFF"
  assume "crc32c (pre @ xs @ post) = crc32c (pre @ ys @ post)"
  then have "fold crc_byte post (fold crc_byte xs ?c) = fold crc_byte post (fold crc_byte ys ?c)"
    by (simp only: crc32c_def crc32c_with_seed_bitwise xor_right_cancel fold_append comp_apply)
  then have "fold crc_byte xs ?c = fold crc_byte ys ?c" by (rule fold_crc_byte_inj)
  then have "?c XOR le_bits xs = ?c XOR le_bits ys"
    using assms(1,2) by (auto simp: fold_crc_byte dest: crc_bits_inj)
  then have "le_bits xs = le_bits ys" by (simp only: xor.commute [of ?c] xor_right_cancel)
  then have "xs = ys" by (rule le_bits_inj [OF assms(1,2)])
  with assms(3) show False by contradiction
qed

theorem crc32c_detects_bursts_witness:
  "length [1, 2 :: u8] = length [3, 2 :: u8] \<and> crc32c ([7] @ [1, 2] @ [9]) \<noteq> crc32c ([7] @ [3, 2] @ [9])"
  using crc32c_detects_bursts [of "[1, 2]" "[3, 2]" "[7]" "[9]"] by simp

end
