(* ===== verification/Journal.thy ===== *)
theory Journal
  imports Block_Device Crc32c "HOL-Library.Monad_Syntax"
begin

text \<open>
  The write-ahead journal of \<open>src/src/fs/journal.rs\<close>.  Transactions are shared objects, kept in a store of the
  journal and named by their index.  The drive is a device of \<open>Block_Device\<close> with its state; an array index out of
  range is a panic, the result \<^const>\<open>None\<close>.  The code passes block numbers as sector addresses; the theorems on
  recovery are for blocks of one sector, where the two agree.  Offsets in the journal are natural numbers: they stay below
  the number of blocks plus the tags of one descriptor.
\<close>

section \<open>Data\<close>

abbreviation JBD2_MAGIC_NUMBER :: u32 where "JBD2_MAGIC_NUMBER \<equiv> 0xC03B3998"
abbreviation JBD2_DESCRIPTOR_BLOCK :: u32 where "JBD2_DESCRIPTOR_BLOCK \<equiv> 1"
abbreviation JBD2_COMMIT_BLOCK :: u32 where "JBD2_COMMIT_BLOCK \<equiv> 2"
abbreviation JBD2_SUPERBLOCK_V1_BLK :: u32 where "JBD2_SUPERBLOCK_V1_BLK \<equiv> 3"
abbreviation JBD2_SUPERBLOCK_V2_BLK :: u32 where "JBD2_SUPERBLOCK_V2_BLK \<equiv> 4"
abbreviation JBD2_FLAG_ABORT :: u32 where "JBD2_FLAG_ABORT \<equiv> 0x002"
abbreviation JBD2_FLAG_RECOVERY :: u32 where "JBD2_FLAG_RECOVERY \<equiv> 0x010"

datatype journal_error = NoTransaction | JournalFull | IoError | CorruptJournal | Aborted

datatype transaction_state = Running | Locked | FlushSuspended | Committing | CommitRecord | Finished

record journal_block =
  jb_fs_block :: u64
  jb_journal_block :: u64
  jb_data :: "u8 list"
  jb_is_revoke :: bool
  jb_checksum :: u32

record transaction =
  tr_tid :: u64
  tr_state :: transaction_state
  tr_sequence :: u64
  tr_blocks :: "journal_block list"
  tr_credits :: u32
  tr_start_time :: u64
  tr_data_blocks :: u64
  tr_revoked :: "u64 list"

record journal_stats =
  js_transactions :: u64
  js_blocks_written :: u64
  js_blocks_revoked :: u64
  js_commits :: u64
  js_rollbacks :: u64

record journal =
  j_id :: u64
  j_device :: u64
  j_start_block :: u64
  j_total_blocks :: u64
  j_block_size :: u32
  j_store :: "transaction list"
  j_current :: "nat option"
  j_queue :: "nat list"
  j_head_sequence :: u64
  j_tail_sequence :: u64
  j_next_tid :: u64
  j_flags :: u32
  j_aborted :: bool
  j_stats :: journal_stats

definition transaction_new :: "u64 \<Rightarrow> transaction" where
  "transaction_new tid =
     \<lparr>tr_tid = tid, tr_state = Running, tr_sequence = 0, tr_blocks = [], tr_credits = 0, tr_start_time = 0,
      tr_data_blocks = 0, tr_revoked = []\<rparr>"

definition add_block :: "journal_block \<Rightarrow> transaction \<Rightarrow> transaction" where
  "add_block block tr = tr\<lparr>tr_blocks := tr_blocks tr @ [block], tr_data_blocks := tr_data_blocks tr + 1\<rparr>"

definition revoke_block :: "u64 \<Rightarrow> transaction \<Rightarrow> transaction" where
  "revoke_block block_nr tr = tr\<lparr>tr_revoked := tr_revoked tr @ [block_nr]\<rparr>"

definition journal_new :: "u64 \<Rightarrow> u64 \<Rightarrow> u64 \<Rightarrow> u64 \<Rightarrow> u32 \<Rightarrow> journal" where
  "journal_new i device start_block total_blocks block_size =
     \<lparr>j_id = i, j_device = device, j_start_block = start_block, j_total_blocks = total_blocks,
      j_block_size = block_size, j_store = [], j_current = None, j_queue = [], j_head_sequence = 0,
      j_tail_sequence = 0, j_next_tid = 1, j_flags = 0, j_aborted = False,
      j_stats = \<lparr>js_transactions = 0, js_blocks_written = 0, js_blocks_revoked = 0, js_commits = 0, js_rollbacks = 0\<rparr>\<rparr>"

definition start_transaction :: "journal \<Rightarrow> nat \<times> journal" where
  "start_transaction j =
     (let txn = (transaction_new (j_next_tid j))\<lparr>tr_sequence := j_head_sequence j + 1\<rparr>; i = length (j_store j) in
      (i, j\<lparr>j_next_tid := j_next_tid j + 1, j_store := j_store j @ [txn], j_current := Some i\<rparr>))"

text \<open>The caller of \<open>start_transaction\<close> keeps a reference and changes the transaction through it.\<close>

definition on_transaction :: "nat \<Rightarrow> (transaction \<Rightarrow> transaction) \<Rightarrow> journal \<Rightarrow> journal" where
  "on_transaction i f j = j\<lparr>j_store := (j_store j)[i := f (j_store j ! i)]\<rparr>"

section \<open>Bytes\<close>

definition be32 :: "u32 \<Rightarrow> u8 list" where
  "be32 v = [ucast (drop_bit 24 v), ucast (drop_bit 16 v), ucast (drop_bit 8 v), ucast v]"

definition from_be32 :: "u8 \<Rightarrow> u8 \<Rightarrow> u8 \<Rightarrow> u8 \<Rightarrow> u32" where
  "from_be32 a b c d = push_bit 24 (ucast a) OR push_bit 16 (ucast b) OR push_bit 8 (ucast c) OR ucast d"

definition be32_at :: "nat \<Rightarrow> u8 list \<Rightarrow> u32 option" where
  "be32_at i buf =
     (if i + 4 \<le> length buf then Some (from_be32 (buf ! i) (buf ! (i + 1)) (buf ! (i + 2)) (buf ! (i + 3))) else None)"

definition copy_at :: "nat \<Rightarrow> u8 list \<Rightarrow> u8 list \<Rightarrow> u8 list option" where
  "copy_at offset bytes buf =
     (if offset + length bytes \<le> length buf
      then Some (take offset buf @ bytes @ drop (offset + length bytes) buf) else None)"

definition write_be32 :: "u8 list \<Rightarrow> nat \<Rightarrow> u32 \<Rightarrow> u8 list option" where
  "write_be32 buf offset val = copy_at offset (be32 val) buf"

definition write_be64 :: "u8 list \<Rightarrow> nat \<Rightarrow> u64 \<Rightarrow> u8 list option" where
  "write_be64 buf offset val = copy_at offset (be32 (ucast (drop_bit 32 val)) @ be32 (ucast val)) buf"

definition usize_sub :: "nat \<Rightarrow> nat \<Rightarrow> nat" where
  "usize_sub a b = (a + 2 ^ 64 - b) mod 2 ^ 64"

section \<open>Committing\<close>

abbreviation block_bytes :: "journal \<Rightarrow> nat" where "block_bytes j \<equiv> unat (j_block_size j)"

text \<open>The address of a block of the journal, and the number of tags in a descriptor block.\<close>

definition journal_lba :: "journal \<Rightarrow> nat \<Rightarrow> u32" where
  "journal_lba j offset = ucast (j_start_block j + of_nat offset)"

abbreviation tags_per_block :: "nat \<Rightarrow> nat" where
  "tags_per_block bs \<equiv> usize_sub (usize_sub bs 12) 4 div 16"

definition desc_header :: "nat \<Rightarrow> u32 \<Rightarrow> u8 list option" where
  "desc_header bs seq = do {
     buf \<leftarrow> write_be32 (replicate bs 0) 0 JBD2_MAGIC_NUMBER;
     buf \<leftarrow> write_be32 buf 4 JBD2_DESCRIPTOR_BLOCK;
     write_be32 buf 8 seq }"

definition put_tag :: "u32 \<Rightarrow> journal_block \<Rightarrow> bool \<Rightarrow> nat \<Rightarrow> u8 list \<Rightarrow> u8 list option" where
  "put_tag seq block is_last tag_offset buf =
     copy_at tag_offset
       (be32 (ucast (jb_fs_block block)) @ be32 (if is_last then 8 else 0) @ be32 (ucast (drop_bit 32 (jb_fs_block block))) @
        be32 (crc32c (be32 seq @ jb_data block))) buf"

definition flush_desc :: "'d block_device \<Rightarrow> journal \<Rightarrow> nat \<Rightarrow> u8 list \<Rightarrow> 'd \<Rightarrow> (bool \<times> 'd) option" where
  "flush_desc dev j desc_block_idx buf d = do {
     let tail_offset = usize_sub (block_bytes j) 4;
     buf \<leftarrow> write_be32 buf tail_offset (crc32c (take tail_offset buf));
     Some (write_sectors dev (journal_lba j desc_block_idx) buf d) }"

fun desc_loop :: "'d block_device \<Rightarrow> journal \<Rightarrow> u32 \<Rightarrow> nat \<Rightarrow> nat \<Rightarrow> nat \<Rightarrow> journal_block list \<Rightarrow> nat \<times> nat \<times> nat \<times> u8 list \<Rightarrow> 'd
    \<Rightarrow> ((journal_error + nat \<times> u8 list) \<times> 'd) option" where
  "desc_loop dev j seq needed blocks_len i [] (desc_block_idx, tag_in_desc, tag_offset, buf) d = Some (Inr (desc_block_idx, buf), d)"
| "desc_loop dev j seq needed blocks_len i (block # blocks) (desc_block_idx, tag_in_desc, tag_offset, buf) d = do {
     (ok, desc_block_idx, tag_offset, buf, d) \<leftarrow>
       (if tag_in_desc = 0 \<and> 12 < tag_offset then do {
          (ok, d) \<leftarrow> flush_desc dev j desc_block_idx buf d;
          buf \<leftarrow> desc_header (block_bytes j) seq;
          Some (ok, desc_block_idx + 1, 12, buf, d) }
        else Some (True, desc_block_idx, tag_offset, buf, d));
     if \<not> ok then Some (Inl IoError, d)
     else do {
       let is_last = (i = blocks_len - 1 \<and> (needed = 1 \<or> tag_in_desc = tags_per_block (block_bytes j) - 1));
       buf \<leftarrow> put_tag seq block is_last tag_offset buf;
       desc_loop dev j seq needed blocks_len (i + 1) blocks (desc_block_idx, tag_in_desc + 1, tag_offset + 16, buf) d } }"

text \<open>The number of descriptor blocks; a block size that leaves no room for a tag divides by zero.\<close>

definition desc_blocks :: "nat \<Rightarrow> nat \<Rightarrow> nat option" where
  "desc_blocks bs blocks_len =
     (let tpb = tags_per_block bs in
      if blocks_len = 0 then Some 0 else if tpb = 0 then None else Some ((blocks_len + tpb - 1) div tpb))"

definition write_descriptor :: "'d block_device \<Rightarrow> journal \<Rightarrow> transaction \<Rightarrow> 'd \<Rightarrow> ((journal_error + unit) \<times> 'd) option" where
  "write_descriptor dev j txn d = do {
     let blocks = tr_blocks txn;
     let seq = ucast (tr_sequence txn);
     let blocks_len = length blocks;
     buf \<leftarrow> desc_header (block_bytes j) seq;
     needed \<leftarrow> desc_blocks (block_bytes j) blocks_len;
     let needed = (if blocks_len = 0 then 1 else needed);
     (r, d) \<leftarrow> desc_loop dev j seq needed blocks_len 0 blocks (0, 0, 12, buf) d;
     case r of
       Inl e \<Rightarrow> Some (Inl e, d)
     | Inr (desc_block_idx, buf) \<Rightarrow>
         if blocks = [] then Some (Inr (), d)
         else do {
           (ok, d) \<leftarrow> flush_desc dev j desc_block_idx buf d;
           Some (if ok then Inr () else Inl IoError, d) } }"

definition pad_block :: "nat \<Rightarrow> u8 list \<Rightarrow> u8 list" where
  "pad_block bs data = (if length data = bs then data else data @ replicate (bs - length data) 0)"

fun data_loop :: "'d block_device \<Rightarrow> journal \<Rightarrow> nat \<Rightarrow> journal_block list \<Rightarrow> 'd \<Rightarrow> (journal_error + unit) \<times> 'd" where
  "data_loop dev j data_offset [] d = (Inr (), d)"
| "data_loop dev j data_offset (block # blocks) d =
     (if length (jb_data block) \<le> block_bytes j then
        (case write_sectors dev (journal_lba j data_offset) (pad_block (block_bytes j) (jb_data block)) d of
           (True, d) \<Rightarrow> data_loop dev j (data_offset + 1) blocks d
         | (False, d) \<Rightarrow> (Inl IoError, d))
      else (Inl IoError, d))"

definition write_data_blocks :: "'d block_device \<Rightarrow> journal \<Rightarrow> transaction \<Rightarrow> 'd \<Rightarrow> ((journal_error + unit) \<times> 'd) option" where
  "write_data_blocks dev j txn d = do {
     descs \<leftarrow> desc_blocks (block_bytes j) (length (tr_blocks txn));
     Some (data_loop dev j descs (tr_blocks txn) d) }"

definition commit_image :: "nat \<Rightarrow> u32 \<Rightarrow> journal_block list \<Rightarrow> u8 list option" where
  "commit_image bs seq blocks = do {
     buf \<leftarrow> write_be32 (replicate bs 0) 0 JBD2_MAGIC_NUMBER;
     buf \<leftarrow> write_be32 buf 4 JBD2_COMMIT_BLOCK;
     buf \<leftarrow> write_be32 buf 8 seq;
     buf \<leftarrow> copy_at 12 [4, 4] buf;
     buf \<leftarrow> write_be32 buf 16 (crc32c (concat (map (be32 \<circ> jb_checksum) blocks)));
     buf \<leftarrow> write_be64 buf 40 0;
     write_be32 buf 48 0 }"

definition write_commit :: "'d block_device \<Rightarrow> journal \<Rightarrow> transaction \<Rightarrow> 'd \<Rightarrow> ((journal_error + unit) \<times> 'd) option" where
  "write_commit dev j txn d = do {
     let blocks = tr_blocks txn;
     let seq = ucast (tr_sequence txn);
     buf \<leftarrow> commit_image (block_bytes j) seq blocks;
     descs \<leftarrow> desc_blocks (block_bytes j) (length blocks);
     let (ok, d) = write_sectors dev (journal_lba j (descs + length blocks)) buf d;
     Some (if ok then Inr () else Inl IoError, d) }"

text \<open>The three writes in order; the first that fails ends the commit.\<close>

definition write_transaction :: "'d block_device \<Rightarrow> journal \<Rightarrow> transaction \<Rightarrow> 'd \<Rightarrow> ((journal_error + unit) \<times> 'd) option" where
  "write_transaction dev j txn d = do {
     (r, d) \<leftarrow> write_descriptor dev j txn d;
     case r of Inl e \<Rightarrow> Some (Inl e, d) | Inr _ \<Rightarrow> do {
       (r, d) \<leftarrow> write_data_blocks dev j txn d;
       case r of Inl e \<Rightarrow> Some (Inl e, d) | Inr _ \<Rightarrow> write_commit dev j txn d } }"

definition commit_transaction :: "'d block_device \<Rightarrow> journal \<Rightarrow> 'd \<Rightarrow> ((journal_error + unit) \<times> journal \<times> 'd) option" where
  "commit_transaction dev j d =
     (case j_current j of
        None \<Rightarrow> Some (Inl NoTransaction, j, d)
      | Some i \<Rightarrow>
          let j = j\<lparr>j_current := None\<rparr> in
          if j_aborted j then Some (Inl Aborted, j, d)
          else
            let j = on_transaction i (\<lambda>t. t\<lparr>tr_state := Committing\<rparr>) j; txn = j_store j ! i in
            (case write_transaction dev j txn d of
               None \<Rightarrow> None
             | Some (Inl e, d) \<Rightarrow> Some (Inl e, j, d)
             | Some (Inr _, d) \<Rightarrow>
                 let s = j_stats j;
                     j = j\<lparr>j_head_sequence := j_head_sequence j + 1, j_queue := j_queue j @ [i],
                           j_stats := s\<lparr>js_transactions := js_transactions s + 1, js_commits := js_commits s + 1,
                             js_blocks_written := js_blocks_written s + of_nat (length (tr_blocks txn))\<rparr>\<rparr> in
                 Some (Inr (), on_transaction i (\<lambda>t. t\<lparr>tr_state := Finished\<rparr>) j, d)))"

section \<open>Checkpoints\<close>

abbreviation sectors_per_block :: "journal \<Rightarrow> u8" where "sectors_per_block j \<equiv> of_nat (block_bytes j div SECTOR)"

definition cp_block :: "'d block_device \<Rightarrow> journal \<Rightarrow> journal_block \<Rightarrow> 'd \<Rightarrow> bool \<times> 'd" where
  "cp_block dev j block d =
     (let bs = block_bytes j; fs_lba = ucast (jb_fs_block block); data = jb_data block in
      if jb_is_revoke block then (True, d)
      else if length data = bs then write_sectors dev fs_lba data d
      else if length data < bs then
        (let (existing, d) = read_sectors dev fs_lba (sectors_per_block j) d in
         if existing \<noteq> [] \<and> length existing = bs then write_sectors dev fs_lba (data @ drop (length data) existing) d
         else write_sectors dev fs_lba (data @ replicate (bs - length data) 0) d)
      else (True, d))"

fun cp_blocks :: "'d block_device \<Rightarrow> journal \<Rightarrow> journal_block list \<Rightarrow> 'd \<Rightarrow> bool \<times> 'd" where
  "cp_blocks dev j [] d = (True, d)"
| "cp_blocks dev j (block # blocks) d =
     (case cp_block dev j block d of (True, d) \<Rightarrow> cp_blocks dev j blocks d | (False, d) \<Rightarrow> (False, d))"

text \<open>The loop over the queue gives back the error or the number of transactions written, and what is left of the queue.\<close>

fun cp_loop :: "'d block_device \<Rightarrow> nat list \<Rightarrow> u64 \<Rightarrow> journal \<Rightarrow> 'd \<Rightarrow> (journal_error + u64) \<times> journal \<times> 'd" where
  "cp_loop dev [] checkpointed j d = (Inr checkpointed, j\<lparr>j_queue := []\<rparr>, d)"
| "cp_loop dev (i # queue) checkpointed j d =
     (let txn = j_store j ! i in
      if tr_state txn = Finished then
        (case cp_blocks dev j (tr_blocks txn) d of
           (False, d) \<Rightarrow> (Inl IoError, j\<lparr>j_queue := queue\<rparr>, d)
         | (True, d) \<Rightarrow>
             cp_loop dev queue (checkpointed + 1)
               (j\<lparr>j_stats := (j_stats j)\<lparr>js_blocks_revoked := js_blocks_revoked (j_stats j) + of_nat (length (tr_revoked txn))\<rparr>\<rparr>) d)
      else (Inr checkpointed, j\<lparr>j_queue := i # queue\<rparr>, d))"

definition checkpoint :: "'d block_device \<Rightarrow> journal \<Rightarrow> 'd \<Rightarrow> (journal_error + unit) \<times> journal \<times> 'd" where
  "checkpoint dev j d =
     (case cp_loop dev (j_queue j) 0 j d of
        (Inl e, j, d) \<Rightarrow> (Inl e, j, d)
      | (Inr checkpointed, j, d) \<Rightarrow>
          (Inr (), if 0 < checkpointed then j\<lparr>j_tail_sequence := j_tail_sequence j + checkpointed\<rparr> else j, d))"

section \<open>Recovery\<close>

text \<open>The tags of a descriptor block, up to the one that is marked as the last.\<close>

function read_tags :: "nat \<Rightarrow> u8 list \<Rightarrow> nat \<Rightarrow> u64 list option" where
  "read_tags bs buf tag_offset =
     (if tag_offset + 16 \<le> usize_sub bs 4 then do {
        flags \<leftarrow> be32_at (tag_offset + 4) buf;
        blocknr \<leftarrow> be32_at tag_offset buf;
        blocknr_high \<leftarrow> be32_at (tag_offset + 8) buf;
        let full_blocknr = ucast blocknr OR push_bit 32 (ucast blocknr_high);
        rest \<leftarrow> (if flags AND 8 \<noteq> 0 then Some [] else read_tags bs buf (tag_offset + 16));
        Some (full_blocknr # rest) }
      else Some [])"
  by pat_completeness auto
termination by (relation "measure (\<lambda>(bs, buf, tag_offset). usize_sub bs 4 - tag_offset)") auto

declare read_tags.simps [simp del]

fun replay :: "'d block_device \<Rightarrow> journal \<Rightarrow> nat \<Rightarrow> u64 list \<Rightarrow> 'd \<Rightarrow> bool \<times> 'd" where
  "replay dev j data_start [] d = (True, d)"
| "replay dev j data_start (fs_blocknr # addrs) d =
     (let (data_buf, d) = read_sectors dev (journal_lba j data_start) (sectors_per_block j) d;
          (ok, d) = (if data_buf \<noteq> [] then write_sectors dev (ucast fs_blocknr) data_buf d else (True, d)) in
      if ok then replay dev j (data_start + 1) addrs d else (False, d))"

text \<open>What one round of the scan decides: stop, fail, skip one block, or go on after a replayed transaction.\<close>

datatype scan_result = ScanStop | ScanFail | ScanSkip | ScanReplayed nat

definition is_commit :: "u32 \<Rightarrow> u8 list \<Rightarrow> bool option" where
  "is_commit seq buf = do {
     commit_magic \<leftarrow> be32_at 0 buf;
     commit_type \<leftarrow> be32_at 4 buf;
     commit_seq \<leftarrow> be32_at 8 buf;
     Some (commit_magic = JBD2_MAGIC_NUMBER \<and> commit_type = JBD2_COMMIT_BLOCK \<and> commit_seq = seq) }"

definition scan_descriptor :: "'d block_device \<Rightarrow> journal \<Rightarrow> nat \<Rightarrow> u8 list \<Rightarrow> 'd \<Rightarrow> (scan_result \<times> 'd) option" where
  "scan_descriptor dev j offset header_buf d = do {
     let bs = block_bytes j;
     seq \<leftarrow> be32_at 8 header_buf;
     block_addrs \<leftarrow> read_tags bs header_buf 12;
     descs \<leftarrow> desc_blocks bs (length block_addrs);
     let data_start = offset + descs;
     let commit_offset = data_start + length block_addrs;
     if unat (j_total_blocks j) \<le> commit_offset then Some (ScanStop, d)
     else do {
       let (commit_buf, d) = read_sectors dev (journal_lba j commit_offset) (sectors_per_block j) d;
       if length commit_buf < 12 then Some (ScanStop, d)
       else do {
         committed \<leftarrow> is_commit seq commit_buf;
         if committed then
           (case replay dev j data_start block_addrs d of
              (True, d) \<Rightarrow> Some (ScanReplayed (commit_offset + 1), d)
            | (False, d) \<Rightarrow> Some (ScanFail, d))
         else Some (ScanSkip, d) } } }"

definition scan_block :: "'d block_device \<Rightarrow> journal \<Rightarrow> nat \<Rightarrow> 'd \<Rightarrow> (scan_result \<times> 'd) option" where
  "scan_block dev j offset d = do {
     let (header_buf, d) = read_sectors dev (journal_lba j offset) (sectors_per_block j) d;
     if length header_buf < 12 then Some (ScanStop, d)
     else do {
       magic \<leftarrow> be32_at 0 header_buf;
       blocktype \<leftarrow> be32_at 4 header_buf;
       if magic \<noteq> JBD2_MAGIC_NUMBER then Some (ScanStop, d)
       else if blocktype = JBD2_DESCRIPTOR_BLOCK then scan_descriptor dev j offset header_buf d
       else if blocktype = JBD2_SUPERBLOCK_V1_BLK \<or> blocktype = JBD2_SUPERBLOCK_V2_BLK then Some (ScanSkip, d)
       else Some (ScanStop, d) } }"

lemma scan_descriptor_advances:
  "scan_descriptor dev j offset buf d = Some (ScanReplayed n, d') \<Longrightarrow> offset < n \<and> n \<le> unat (j_total_blocks j)"
  by (auto simp: scan_descriptor_def Let_def bind_eq_Some_conv split: if_splits prod.splits bool.splits)

lemma scan_advances: "scan_block dev j offset d = Some (ScanReplayed n, d') \<Longrightarrow> offset < n"
  by (auto simp: scan_block_def Let_def bind_eq_Some_conv dest: scan_descriptor_advances split: if_splits prod.splits)

function scan_loop :: "'d block_device \<Rightarrow> journal \<Rightarrow> nat \<Rightarrow> u64 \<Rightarrow> 'd \<Rightarrow> ((journal_error + u64) \<times> 'd) option" where
  "scan_loop dev j offset recovered d =
     (if offset < unat (j_total_blocks j) then
        (case scan_block dev j offset d of
           None \<Rightarrow> None
         | Some (ScanStop, d) \<Rightarrow> Some (Inr recovered, d)
         | Some (ScanFail, d) \<Rightarrow> Some (Inl IoError, d)
         | Some (ScanSkip, d) \<Rightarrow> scan_loop dev j (offset + 1) recovered d
         | Some (ScanReplayed n, d) \<Rightarrow> scan_loop dev j n (recovered + 1) d)
      else Some (Inr recovered, d))"
  by pat_completeness auto
termination
  by (relation "measure (\<lambda>(dev, j, offset, recovered, d). unat (j_total_blocks j) - offset)") (auto dest: scan_advances)

declare scan_loop.simps [simp del]

definition recover :: "'d block_device \<Rightarrow> journal \<Rightarrow> 'd \<Rightarrow> ((journal_error + u64) \<times> journal \<times> 'd) option" where
  "recover dev j d = do {
     let j = j\<lparr>j_flags := j_flags j OR JBD2_FLAG_RECOVERY\<rparr>;
     let (superblock_buf, d) = read_sectors dev (ucast (j_start_block j)) (sectors_per_block j) d;
     if superblock_buf = [] then Some (Inr 0, j, d)
     else do {
       magic \<leftarrow> be32_at 0 superblock_buf;
       if magic \<noteq> JBD2_MAGIC_NUMBER then Some (Inr 0, j, d)
       else do {
         (r, d) \<leftarrow> scan_loop dev j 1 0 d;
         Some (r, j, d) } } }"

definition journal_abort :: "journal \<Rightarrow> journal" where
  "journal_abort j = j\<lparr>j_aborted := True, j_flags := j_flags j OR JBD2_FLAG_ABORT\<rparr>"

section \<open>The manager\<close>

definition create_journal :: "u64 \<Rightarrow> u64 \<Rightarrow> u64 \<Rightarrow> u32 \<Rightarrow> journal list \<Rightarrow> journal \<times> journal list" where
  "create_journal device start blocks block_size js =
     (let j = journal_new (of_nat (length js)) device start blocks block_size in (j, js @ [j]))"

definition get_journal :: "u64 \<Rightarrow> journal list \<Rightarrow> journal option" where
  "get_journal i js = (if unat i < length js then Some (js ! unat i) else None)"

end
