(* ===== verification/Journal_Recovery.thy ===== *)
theory Journal_Recovery
  imports Journal
begin

text \<open>
  What the journal of \<open>src/src/fs/journal.rs\<close> does to the disk: the image a transaction leaves in the journal, what
  recovery replays from it and what a checkpoint writes.  The lemmas are proved in the contract of a block device,
  for blocks of one sector.
\<close>

section \<open>Reading and writing words\<close>

lemma length_be32 [simp]: "length (be32 v) = 4"
  by (simp add: be32_def)

lemma from_be32: "from_be32 (ucast (drop_bit 24 v)) (ucast (drop_bit 16 v)) (ucast (drop_bit 8 v)) (ucast v) = v"
proof (rule bit_word_eqI)
  fix n assume n: "n < LENGTH(32)"
  consider "n < 8" | "8 \<le> n \<and> n < 16" | "16 \<le> n \<and> n < 24" | "24 \<le> n" by linarith
  then show "bit (from_be32 (ucast (drop_bit 24 v)) (ucast (drop_bit 16 v)) (ucast (drop_bit 8 v)) (ucast v)) n = bit v n"
    using n by cases (auto simp: from_be32_def bit_simps)
qed

lemma be32_at_here: "be32_at 0 (be32 v @ xs) = Some v"
  by (simp add: be32_at_def be32_def from_be32)

lemma be32_at_skip: "be32_at (length xs + i) (xs @ ys) = be32_at i ys"
  by (simp add: be32_at_def nth_append)

lemma be32_at_next: "be32_at (i + 4) (be32 v @ xs) = be32_at i xs"
  using be32_at_skip [of "be32 v" i xs] by (simp add: add.commute)

lemma copy_at_exact: "length xs = i \<Longrightarrow> length ys = length bytes \<Longrightarrow> copy_at i bytes (xs @ ys @ zs) = Some (xs @ bytes @ zs)"
  by (simp add: copy_at_def)

lemma copy_at_replicate:
  assumes "length xs = i" and "length bytes \<le> n"
  shows "copy_at i bytes (xs @ replicate n x) = Some (xs @ bytes @ replicate (n - length bytes) x)"
proof -
  have "replicate n x = replicate (length bytes) x @ replicate (n - length bytes) x"
    using assms(2) by (simp flip: replicate_add)
  then show ?thesis using assms(1) copy_at_exact [of xs i "replicate (length bytes) x" bytes] by simp
qed

lemma full_blocknr: "ucast (ucast x :: u32) OR push_bit 32 (ucast (ucast (drop_bit 32 x) :: u32)) = (x :: u64)"
  by (rule bit_word_eqI) (auto simp: bit_simps)

section \<open>The image of a transaction\<close>

text \<open>A tag of the descriptor block, and the tags of a list of blocks, the last of them marked.\<close>

definition tag :: "u32 \<Rightarrow> journal_block \<Rightarrow> bool \<Rightarrow> u8 list" where
  "tag seq block is_last =
     be32 (ucast (jb_fs_block block)) @ be32 (if is_last then 8 else 0) @ be32 (ucast (drop_bit 32 (jb_fs_block block))) @
     be32 (crc32c (be32 seq @ jb_data block))"

fun tags :: "u32 \<Rightarrow> journal_block list \<Rightarrow> u8 list" where
  "tags seq [] = []"
| "tags seq (block # blocks) = tag seq block (blocks = []) @ tags seq blocks"

definition desc_body :: "u32 \<Rightarrow> journal_block list \<Rightarrow> u8 list" where
  "desc_body seq blocks =
     be32 JBD2_MAGIC_NUMBER @ be32 JBD2_DESCRIPTOR_BLOCK @ be32 seq @ tags seq blocks @ replicate (496 - 16 * length blocks) 0"

definition desc_image :: "u32 \<Rightarrow> journal_block list \<Rightarrow> u8 list" where
  "desc_image seq blocks = desc_body seq blocks @ be32 (crc32c (desc_body seq blocks))"

definition commit_block :: "u32 \<Rightarrow> journal_block list \<Rightarrow> u8 list" where
  "commit_block seq blocks =
     be32 JBD2_MAGIC_NUMBER @ be32 JBD2_COMMIT_BLOCK @ be32 seq @ [4, 4, 0, 0] @
     be32 (crc32c (concat (map (be32 \<circ> jb_checksum) blocks))) @ replicate 492 0"

definition data_image :: "journal_block \<Rightarrow> u8 list" where
  "data_image block = pad_block SECTOR (jb_data block)"

definition txn_image :: "u32 \<Rightarrow> journal_block list \<Rightarrow> u8 list list" where
  "txn_image seq blocks = desc_image seq blocks # map data_image blocks @ [commit_block seq blocks]"

lemma length_tag [simp]: "length (tag seq block l) = 16"
  by (simp add: tag_def)

lemma length_tags [simp]: "length (tags seq blocks) = 16 * length blocks"
  by (induction blocks) simp_all

lemma length_desc_image: "length blocks \<le> 31 \<Longrightarrow> length (desc_image seq blocks) = SECTOR"
  by (simp add: desc_image_def desc_body_def)

lemma length_commit_block [simp]: "length (commit_block seq blocks) = SECTOR"
  by (simp add: commit_block_def)

lemma length_data_image: "length (jb_data block) \<le> SECTOR \<Longrightarrow> length (data_image block) = SECTOR"
  by (simp add: data_image_def pad_block_def)

lemma length_txn_image [simp]: "length (txn_image seq blocks) = length blocks + 2"
  by (simp add: txn_image_def)

lemma put_tag_eq: "put_tag seq block l i buf = copy_at i (tag seq block l) buf"
  by (simp only: put_tag_def tag_def)

lemma tags_per_sector [simp]: "tags_per_block SECTOR = 31" "usize_sub SECTOR 4 = 508"
  by (simp_all add: usize_sub_def)

lemma desc_blocks_one: "0 < n \<Longrightarrow> n \<le> 31 \<Longrightarrow> desc_blocks SECTOR n = Some 1"
  by (simp add: desc_blocks_def Let_def)

lemma commit_image_eq: "commit_image SECTOR seq blocks = Some (commit_block seq blocks)"
proof -
  have r: "(replicate n 0 :: u8 list) = replicate m 0 @ replicate (n - m) 0" if "m \<le> n" for n m
    using that by (simp flip: replicate_add)
  let ?a = "be32 JBD2_MAGIC_NUMBER" and ?b = "be32 JBD2_COMMIT_BLOCK" and ?c = "be32 seq"
  let ?k = "be32 (crc32c (concat (map (be32 \<circ> jb_checksum) blocks)))"
  have 1: "write_be32 (replicate SECTOR 0) 0 JBD2_MAGIC_NUMBER = Some (?a @ replicate 508 0)"
    using copy_at_replicate [of "[]" 0 ?a SECTOR 0] by (simp add: write_be32_def)
  have 2: "write_be32 (?a @ replicate 508 0) 4 JBD2_COMMIT_BLOCK = Some (?a @ ?b @ replicate 504 0)"
    using copy_at_replicate [of ?a 4 ?b 508 0] by (simp add: write_be32_def)
  have 3: "write_be32 (?a @ ?b @ replicate 504 0) 8 seq = Some (?a @ ?b @ ?c @ replicate 500 0)"
    using copy_at_replicate [of "?a @ ?b" 8 ?c 504 0] by (simp add: write_be32_def)
  have 4: "copy_at 12 [4, 4] (?a @ ?b @ ?c @ replicate 500 0) = Some (?a @ ?b @ ?c @ [4, 4] @ replicate 498 0)"
    using copy_at_replicate [of "?a @ ?b @ ?c" 12 "[4, 4]" 500 0] by simp
  have 5: "write_be32 (?a @ ?b @ ?c @ [4, 4] @ replicate 498 0) 16 v = Some (?a @ ?b @ ?c @ [4, 4, 0, 0] @ be32 v @ replicate 492 0)" for v
    using copy_at_replicate [of "?a @ ?b @ ?c @ [4, 4, 0, 0]" 16 "be32 v" 496 0] r [of 2 498]
    by (simp add: write_be32_def numeral_eq_Suc)
  have zero: "copy_at i (replicate m 0) (xs @ replicate n 0) = Some (xs @ replicate n 0)"
    if "length xs \<le> i" "i + m \<le> length xs + n" for i m n and xs :: "u8 list"
  proof -
    have "replicate n (0 :: u8) = replicate (i - length xs) 0 @ replicate m 0 @ replicate (n - (i - length xs) - m) 0"
      using that by (simp flip: replicate_add)
    then show ?thesis
      using that copy_at_exact [of "xs @ replicate (i - length xs) 0" i "replicate m 0" "replicate m 0"] by simp
  qed
  have be0: "be32 0 = replicate 4 0" by (simp add: be32_def numeral_eq_Suc)
  let ?x = "?a @ ?b @ ?c @ [4, 4, 0, 0] @ ?k"
  have 6: "write_be64 (?x @ replicate 492 0) 40 0 = Some (?x @ replicate 492 0)"
    using zero [of ?x 40 8 492] by (simp add: write_be64_def be0 flip: replicate_add)
  have 7: "write_be32 (?x @ replicate 492 0) 48 0 = Some (?x @ replicate 492 0)"
    using zero [of ?x 48 4 492] by (simp add: write_be32_def be0)
  show ?thesis
    unfolding commit_image_def commit_block_def 1 2 3 4 5 Option.bind.simps using 6 7 by simp
qed

section \<open>Writing the descriptor\<close>

lemma desc_header_eq:
  "desc_header SECTOR seq = Some (be32 JBD2_MAGIC_NUMBER @ be32 JBD2_DESCRIPTOR_BLOCK @ be32 seq @ replicate 500 0)"
proof -
  let ?a = "be32 JBD2_MAGIC_NUMBER" and ?b = "be32 JBD2_DESCRIPTOR_BLOCK"
  have "write_be32 (replicate SECTOR 0) 0 JBD2_MAGIC_NUMBER = Some (?a @ replicate 508 0)"
    using copy_at_replicate [of "[]" 0 ?a SECTOR 0] by (simp add: write_be32_def)
  moreover have "write_be32 (?a @ replicate 508 0) 4 JBD2_DESCRIPTOR_BLOCK = Some (?a @ ?b @ replicate 504 0)"
    using copy_at_replicate [of ?a 4 ?b 508 0] by (simp add: write_be32_def)
  moreover have "write_be32 (?a @ ?b @ replicate 504 0) 8 seq = Some (?a @ ?b @ be32 seq @ replicate 500 0)"
    using copy_at_replicate [of "?a @ ?b" 8 "be32 seq" 504 0] by (simp add: write_be32_def)
  ultimately show ?thesis by (simp add: desc_header_def)
qed

text \<open>With at most 31 blocks the loop fills one buffer and writes nothing.\<close>

declare desc_loop.simps [simp del]

lemma desc_loop_step:
  assumes "tag_in_desc \<noteq> 0 \<or> tag_offset \<le> 12" and "(i = n - 1) = is_last" and "put_tag seq block is_last tag_offset buf = Some buf'"
  shows "desc_loop dev j seq 1 n i (block # blocks) (k, tag_in_desc, tag_offset, buf) d =
    desc_loop dev j seq 1 n (i + 1) blocks (k, tag_in_desc + 1, tag_offset + 16, buf') d"
proof -
  have "(tag_in_desc = 0 \<and> 12 < tag_offset) = False" using assms(1) by auto
  with assms(2,3) show ?thesis by (simp only: desc_loop.simps) simp
qed

lemma desc_loop_image:
  assumes "block_bytes j = SECTOR" and "length xs = 12 + 16 * i" and "i + length blocks = n" and "n \<le> 31"
  shows "desc_loop dev j seq 1 n i blocks (0, i, length xs, xs @ replicate (500 - 16 * i) 0) d =
    Some (Inr (0, xs @ tags seq blocks @ replicate (500 - 16 * n) 0), d)"
  using assms(2-4)
proof (induction blocks arbitrary: xs i)
  case (Cons block blocks)
  let ?t = "tag seq block (blocks = [])"
  have copy: "put_tag seq block (blocks = []) (length xs) (xs @ replicate (500 - 16 * i) 0) =
      Some (xs @ ?t @ replicate (500 - 16 * Suc i) 0)"
    using Cons.prems copy_at_replicate [of xs "length xs" ?t "500 - 16 * i" 0] by (simp add: put_tag_eq)
  have last: "(i = n - 1) = (blocks = [])" using Cons.prems by (cases blocks) auto
  have "i \<noteq> 0 \<or> length xs \<le> 12" using Cons.prems by auto
  from desc_loop_step [OF this last copy]
  have "desc_loop dev j seq 1 n i (block # blocks) (0, i, length xs, xs @ replicate (500 - 16 * i) 0) d =
      desc_loop dev j seq 1 n (Suc i) blocks (0, Suc i, length (xs @ ?t), (xs @ ?t) @ replicate (500 - 16 * Suc i) 0) d"
    by simp
  also have "\<dots> = Some (Inr (0, (xs @ ?t) @ tags seq blocks @ replicate (500 - 16 * n) 0), d)"
    using Cons.prems by (intro Cons.IH) simp_all
  finally show ?case by simp
qed (simp add: desc_loop.simps)

lemma flush_desc_image:
  assumes "block_bytes j = SECTOR" and "length blocks \<le> 31"
  shows "flush_desc dev j k (be32 JBD2_MAGIC_NUMBER @ be32 JBD2_DESCRIPTOR_BLOCK @ be32 seq @ tags seq blocks @
      replicate (500 - 16 * length blocks) 0) d =
    Some (write_sectors dev (journal_lba j k) (desc_image seq blocks) d)"
proof -
  let ?h = "be32 JBD2_MAGIC_NUMBER @ be32 JBD2_DESCRIPTOR_BLOCK @ be32 seq @ tags seq blocks"
  have "replicate (500 - 16 * length blocks) (0 :: u8) = replicate (496 - 16 * length blocks) 0 @ replicate 4 0"
    using assms(2) by (simp flip: replicate_add)
  then have buf: "?h @ replicate (500 - 16 * length blocks) 0 = desc_body seq blocks @ replicate 4 0"
    by (simp add: desc_body_def)
  have "length (desc_body seq blocks) = 508" using assms(2) by (simp add: desc_body_def)
  then have "write_be32 (desc_body seq blocks @ replicate 4 0) 508 (crc32c (take 508 (desc_body seq blocks @ replicate 4 0))) =
      Some (desc_image seq blocks)"
    using copy_at_exact [of "desc_body seq blocks" 508 "replicate 4 0" "be32 v" "[]" for v]
    by (simp add: write_be32_def desc_image_def)
  then show ?thesis using assms(1) buf by (simp add: flush_desc_def)
qed

lemma write_descriptor_image:
  assumes "block_bytes j = SECTOR" and "tr_blocks txn = blocks" and "blocks \<noteq> []" and "length blocks \<le> 31"
    and "seq = ucast (tr_sequence txn)"
  shows "write_descriptor dev j txn d =
    (case write_sectors dev (journal_lba j 0) (desc_image seq blocks) d of (ok, d') \<Rightarrow> Some (if ok then Inr () else Inl IoError, d'))"
proof -
  let ?h = "be32 JBD2_MAGIC_NUMBER @ be32 JBD2_DESCRIPTOR_BLOCK @ be32 seq"
  have "desc_loop dev j seq 1 (length blocks) 0 blocks (0, 0, length ?h, ?h @ replicate (500 - 16 * 0) 0) d =
      Some (Inr (0, ?h @ tags seq blocks @ replicate (500 - 16 * length blocks) 0), d)"
    using assms by (intro desc_loop_image) simp_all
  moreover have "desc_blocks SECTOR (length blocks) = Some 1" using assms by (intro desc_blocks_one) simp_all
  ultimately show ?thesis
    using assms by (simp add: write_descriptor_def desc_header_eq case_prod_beta flush_desc_image [OF assms(1,4)])
qed

text \<open>More blocks than tags fit in one descriptor block: the slice for the next tag is out of range.\<close>

lemma desc_loop_overflow:
  assumes "length buf = SECTOR" and "i \<le> 31" and "32 \<le> i + length blocks"
  shows "desc_loop dev j seq needed n i blocks (0, i, 12 + 16 * i, buf) d = None"
  using assms
proof (induction blocks arbitrary: i buf)
  case (Cons block blocks)
  have first: "(i = 0 \<and> 12 < 12 + 16 * i) = False" by auto
  let ?l = "i = n - 1 \<and> (needed = 1 \<or> i = tags_per_block (block_bytes j) - 1)"
  show ?case
  proof (cases "i = 31")
    case True
    then have "put_tag seq block ?l (12 + 16 * i) buf = None" using Cons.prems by (simp add: put_tag_eq copy_at_def)
    then show ?thesis unfolding desc_loop.simps first by simp
  next
    case False
    then obtain buf' where put: "put_tag seq block ?l (12 + 16 * i) buf = Some buf'" and "length buf' = SECTOR"
      using Cons.prems by (auto simp: put_tag_eq copy_at_def)
    then have "desc_loop dev j seq needed n (Suc i) blocks (0, Suc i, 12 + 16 * Suc i, buf') d = None"
      using Cons.prems False by (intro Cons.IH) simp_all
    with put show ?thesis unfolding desc_loop.simps first by (simp add: add.commute)
  qed
qed simp

lemma write_descriptor_overflow:
  assumes "block_bytes j = SECTOR" and "31 < length (tr_blocks txn)"
  shows "write_descriptor dev j txn d = None"
proof -
  have "desc_loop dev j seq needed n 0 (tr_blocks txn) (0, 0, 12, buf) d = None" if "length buf = SECTOR" for seq needed n buf
    using desc_loop_overflow [OF that, of 0 "tr_blocks txn"] assms(2) by simp
  then show ?thesis
    using assms by (simp add: write_descriptor_def desc_header_eq desc_blocks_def Let_def)
qed

section \<open>Blocks on disk\<close>

definition put_blocks :: "nat \<Rightarrow> u8 list list \<Rightarrow> (nat \<Rightarrow> u8 list) \<Rightarrow> nat \<Rightarrow> u8 list" where
  "put_blocks k xs m i = (if k \<le> i \<and> i < k + length xs then xs ! (i - k) else m i)"

lemma put_blocks_Nil [simp]: "put_blocks k [] m = m"
  by (auto simp: put_blocks_def fun_eq_iff)

lemma put_blocks_Cons: "put_blocks k (x # xs) m = put_blocks (Suc k) xs (m(k := x))"
  by (auto simp: put_blocks_def fun_eq_iff nth_Cons')

lemma put_blocks_append: "put_blocks k (xs @ ys) m = put_blocks (k + length xs) ys (put_blocks k xs m)"
  by (induction xs arbitrary: k m) (simp_all add: put_blocks_Cons)

definition holds :: "(nat \<Rightarrow> u8 list) \<Rightarrow> nat \<Rightarrow> u8 list list \<Rightarrow> bool" where
  "holds m k xs \<longleftrightarrow> (\<forall>i < length xs. m (k + i) = xs ! i)"

lemma holds_Nil [simp]: "holds m k []"
  by (simp add: holds_def)

lemma holds_Cons: "holds m k (x # xs) \<longleftrightarrow> m k = x \<and> holds m (Suc k) xs"
  unfolding holds_def by (auto simp: less_Suc_eq_0_disj)

lemma holds_append: "holds m k (xs @ ys) \<longleftrightarrow> holds m k xs \<and> holds m (k + length xs) ys"
  by (induction xs arbitrary: k) (auto simp: holds_Cons)

lemma holds_cong: "holds m k xs \<Longrightarrow> (\<And>i. k \<le> i \<Longrightarrow> i < k + length xs \<Longrightarrow> m' i = m i) \<Longrightarrow> holds m' k xs"
  by (simp add: holds_def)

lemma holds_put: "holds (put_blocks k xs m) k xs"
  by (simp add: holds_def put_blocks_def)

text \<open>The journal has blocks of one sector and lies within the addresses of the device.\<close>

definition journal_fits :: "nat \<Rightarrow> journal \<Rightarrow> bool" where
  "journal_fits cap j \<longleftrightarrow> j_block_size j = 512 \<and> unat (j_start_block j) + unat (j_total_blocks j) \<le> cap \<and> cap \<le> 2 ^ 32"

abbreviation journal_start :: "journal \<Rightarrow> nat" where "journal_start j \<equiv> unat (j_start_block j)"
abbreviation journal_size :: "journal \<Rightarrow> nat" where "journal_size j \<equiv> unat (j_total_blocks j)"

lemma journal_fits_bytes: "journal_fits cap j \<Longrightarrow> block_bytes j = SECTOR" "journal_fits cap j \<Longrightarrow> sectors_per_block j = 1"
  by (simp_all add: journal_fits_def)

lemma unat_small_lba:
  assumes lt: "journal_start j + k < 2 ^ 32"
  shows "unat (journal_lba j k) = journal_start j + k"
proof -
  from lt have "unat (of_nat k :: u64) = k" by (intro unat_of_nat_small) simp
  then have "unat (j_start_block j + of_nat k) = journal_start j + k" using lt by (simp add: unat_word_ariths)
  then show ?thesis using lt by (simp add: journal_lba_def unsigned_ucast_eq take_bit_eq_mod)
qed

lemma unat_journal_lba: "journal_fits cap j \<Longrightarrow> k < journal_size j \<Longrightarrow> unat (journal_lba j k) = journal_start j + k"
  by (rule unat_small_lba) (simp add: journal_fits_def)

lemma unat_start_lba: "journal_fits cap j \<Longrightarrow> 0 < journal_size j \<Longrightarrow> unat (ucast (j_start_block j) :: u32) = journal_start j"
  using unat_journal_lba [of cap j 0] by (simp add: journal_lba_def)

section \<open>Reading a transaction back\<close>

lemma be32_at_tag:
  "be32_at 0 (tag seq b l @ xs) = Some (ucast (jb_fs_block b))"
  "be32_at 4 (tag seq b l @ xs) = Some (if l then 8 else 0)"
  "be32_at 8 (tag seq b l @ xs) = Some (ucast (drop_bit 32 (jb_fs_block b)))"
  using be32_at_next [of 0] be32_at_next [of 4] by (simp_all add: tag_def be32_at_here)

lemma read_tags_image:
  assumes "blocks \<noteq> []" and "length xs + 16 * length blocks \<le> 508"
  shows "read_tags SECTOR (xs @ tags seq blocks @ ys) (length xs) = Some (map jb_fs_block blocks)"
  using assms
proof (induction blocks arbitrary: xs)
  case (Cons b blocks)
  let ?t = "tag seq b (blocks = [])" and ?r = "tags seq blocks @ ys"
  define buf where "buf = xs @ tags seq (b # blocks) @ ys"
  have "be32_at (length xs + k) buf = be32_at k (?t @ ?r)" for k
    by (simp add: be32_at_skip buf_def)
  from this [of 0] this [of 4] this [of 8]
  have at: "be32_at (length xs) buf = Some (ucast (jb_fs_block b))"
    "be32_at (length xs + 4) buf = Some (if blocks = [] then 8 else 0)"
    "be32_at (length xs + 8) buf = Some (ucast (drop_bit 32 (jb_fs_block b)))"
    by (simp_all add: be32_at_tag)
  have rest: "read_tags SECTOR buf (length xs + 16) = Some (map jb_fs_block blocks)" if "blocks \<noteq> []"
    using Cons.IH [of "xs @ ?t"] that Cons.prems(2) by (simp add: buf_def)
  have "read_tags SECTOR buf (length xs) = Some (map jb_fs_block (b # blocks))"
    using rest Cons.prems(2) by (subst read_tags.simps) (auto simp: at full_blocknr)
  then show ?case by (simp only: buf_def)
qed simp

lemma desc_image_fields:
  "be32_at 0 (desc_image seq blocks) = Some JBD2_MAGIC_NUMBER"
  "be32_at 4 (desc_image seq blocks) = Some JBD2_DESCRIPTOR_BLOCK"
  "be32_at 8 (desc_image seq blocks) = Some seq"
  using be32_at_next [of 0] be32_at_next [of 4] by (simp_all add: desc_image_def desc_body_def be32_at_here)

lemma read_tags_desc:
  assumes "blocks \<noteq> []" and "length blocks \<le> 31"
  shows "read_tags SECTOR (desc_image seq blocks) 12 = Some (map jb_fs_block blocks)"
proof -
  let ?h = "be32 JBD2_MAGIC_NUMBER @ be32 JBD2_DESCRIPTOR_BLOCK @ be32 seq"
  have "desc_image seq blocks = ?h @ tags seq blocks @ replicate (496 - 16 * length blocks) 0 @ be32 (crc32c (desc_body seq blocks))"
    by (simp add: desc_image_def desc_body_def)
  then show ?thesis using read_tags_image [of blocks ?h] assms by simp
qed

lemma is_commit_block: "is_commit seq' (commit_block seq blocks) = Some (seq = seq')"
  using be32_at_next [of 0] be32_at_next [of 4] by (simp add: is_commit_def commit_block_def be32_at_here)

section \<open>Effects on the disk\<close>

text \<open>What applying the blocks of a transaction does to the sectors.\<close>

definition apply_blocks :: "journal_block list \<Rightarrow> (nat \<Rightarrow> u8 list) \<Rightarrow> nat \<Rightarrow> u8 list" where
  "apply_blocks blocks m = fold (\<lambda>b m. m(unat (jb_fs_block b) := data_image b)) blocks m"

definition block_ok :: "nat \<Rightarrow> journal \<Rightarrow> journal_block \<Rightarrow> bool" where
  "block_ok cap j b \<longleftrightarrow> length (jb_data b) \<le> SECTOR \<and> unat (jb_fs_block b) < cap \<and>
     (unat (jb_fs_block b) < journal_start j \<or> journal_start j + journal_size j \<le> unat (jb_fs_block b))"

lemma apply_blocks_Nil [simp]: "apply_blocks [] m = m"
  by (simp add: apply_blocks_def)

lemma apply_blocks_Cons [simp]: "apply_blocks (b # bs) m = apply_blocks bs (m(unat (jb_fs_block b) := data_image b))"
  by (simp add: apply_blocks_def)

lemma apply_blocks_frame:
  assumes "\<forall>b \<in> set blocks. block_ok cap j b" and "journal_start j \<le> i" and "i < journal_start j + journal_size j"
  shows "apply_blocks blocks m i = m i"
  using assms by (induction blocks arbitrary: m) (auto simp: block_ok_def)

lemma unat_fs_lba: "journal_fits cap j \<Longrightarrow> block_ok cap j b \<Longrightarrow> unat (ucast (jb_fs_block b) :: u32) = unat (jb_fs_block b)"
  by (simp add: journal_fits_def block_ok_def unsigned_ucast_eq take_bit_eq_mod)

context block_disk
begin

lemma data_loop_image:
  assumes "journal_fits cap j" and "k + length blocks \<le> journal_size j" and "\<forall>b \<in> set blocks. length (jb_data b) \<le> SECTOR"
  shows "\<exists>d'. data_loop dev j k blocks d = (Inr (), d') \<and>
    sector d' = put_blocks (journal_start j + k) (map data_image blocks) (sector d)"
  using assms(2,3)
proof (induction blocks arbitrary: k d)
  case (Cons b blocks)
  have lba: "unat (journal_lba j k) = journal_start j + k" using Cons.prems by (intro unat_journal_lba [OF assms(1)]) simp
  then have "unat (journal_lba j k) < cap" using Cons.prems assms(1) by (simp add: journal_fits_def)
  then obtain d1 where w: "write_sectors dev (journal_lba j k) (data_image b) d = (True, d1)"
      "sector d1 = (sector d)(journal_start j + k := data_image b)"
    using Cons.prems write_one [of "journal_lba j k" "data_image b" d] by (auto simp: length_data_image lba)
  obtain d' where "data_loop dev j (k + 1) blocks d1 = (Inr (), d')"
      "sector d' = put_blocks (journal_start j + (k + 1)) (map data_image blocks) (sector d1)"
    using Cons.IH [of "k + 1" d1] Cons.prems by auto
  with w Cons.prems show ?case
    by (simp add: journal_fits_bytes [OF assms(1)] data_image_def [symmetric] put_blocks_Cons)
qed simp

text \<open>A commit puts the image of the transaction at the start of the journal.\<close>

lemma write_transaction_image:
  assumes "journal_fits cap j" and "tr_blocks txn = blocks" and "blocks \<noteq> []" and "length blocks \<le> 31"
    and "length blocks + 2 \<le> journal_size j" and "\<forall>b \<in> set blocks. length (jb_data b) \<le> SECTOR"
    and "seq = ucast (tr_sequence txn)"
  shows "\<exists>d'. write_transaction dev j txn d = Some (Inr (), d') \<and>
    sector d' = put_blocks (journal_start j) (txn_image seq blocks) (sector d)"
proof -
  note bytes = journal_fits_bytes [OF assms(1)]
  have lba: "unat (journal_lba j k) = journal_start j + k \<and> unat (journal_lba j k) < cap" if "k < journal_size j" for k
    using that unat_journal_lba [OF assms(1) that] assms(1) by (simp add: journal_fits_def)
  obtain d1 where w1: "write_sectors dev (journal_lba j 0) (desc_image seq blocks) d = (True, d1)"
      "sector d1 = (sector d)(journal_start j := desc_image seq blocks)"
    using write_one [of "journal_lba j 0" "desc_image seq blocks" d] lba [of 0] assms(4,5) by (auto simp: length_desc_image)
  obtain d2 where w2: "data_loop dev j 1 blocks d1 = (Inr (), d2)"
      "sector d2 = put_blocks (journal_start j + 1) (map data_image blocks) (sector d1)"
    using data_loop_image [OF assms(1), of 1 blocks d1] assms(5,6) by auto
  let ?k = "1 + length blocks"
  obtain d3 where w3: "write_sectors dev (journal_lba j ?k) (commit_block seq blocks) d2 = (True, d3)"
      "sector d3 = (sector d2)(journal_start j + ?k := commit_block seq blocks)"
    using write_one [of "journal_lba j ?k" "commit_block seq blocks" d2] lba [of ?k] assms(5) by auto
  have "desc_blocks SECTOR (length blocks) = Some 1" using assms(3,4) by (intro desc_blocks_one) auto
  then have "write_transaction dev j txn d = Some (Inr (), d3)"
    using w1 w2 w3 assms
    by (simp add: write_transaction_def write_descriptor_image [OF bytes(1) assms(2-4,7)] write_data_blocks_def write_commit_def
        bytes commit_image_eq)
  moreover have "sector d3 = put_blocks (journal_start j) (txn_image seq blocks) (sector d)"
    by (simp add: w1 w2 w3 txn_image_def put_blocks_Cons put_blocks_append)
  ultimately show ?thesis by blast
qed

end

section \<open>What recovery replays\<close>

abbreviation magic :: "u8 list \<Rightarrow> bool" where
  "magic buf \<equiv> be32_at 0 buf = Some JBD2_MAGIC_NUMBER"

definition txn_ok :: "nat \<Rightarrow> journal \<Rightarrow> u32 \<times> journal_block list \<Rightarrow> bool" where
  "txn_ok cap j t \<longleftrightarrow> snd t \<noteq> [] \<and> length (snd t) \<le> 31 \<and> (\<forall>b \<in> set (snd t). block_ok cap j b)"

text \<open>Committed transactions one after the other, and how the journal ends behind them: at its last block, at a block that
  is not of the journal, or at a transaction whose commit block is missing.\<close>

definition journal_log :: "(u32 \<times> journal_block list) list \<Rightarrow> u8 list list" where
  "journal_log ts = concat (map (\<lambda>(seq, blocks). txn_image seq blocks) ts)"

definition unfinished :: "(nat \<Rightarrow> u8 list) \<Rightarrow> journal \<Rightarrow> nat \<Rightarrow> u32 \<Rightarrow> journal_block list \<Rightarrow> bool" where
  "unfinished m j k seq blocks \<longleftrightarrow>
     blocks \<noteq> [] \<and> length blocks \<le> 31 \<and> m (journal_start j + k) = desc_image seq blocks \<and>
     (k + length blocks + 1 < journal_size j \<longrightarrow>
        is_commit seq (m (journal_start j + k + length blocks + 1)) \<noteq> Some True \<and> \<not> magic (m (journal_start j + k + 1)))"

definition log_ends :: "(nat \<Rightarrow> u8 list) \<Rightarrow> journal \<Rightarrow> nat \<Rightarrow> bool" where
  "log_ends m j k \<longleftrightarrow> k < journal_size j \<longrightarrow> \<not> magic (m (journal_start j + k)) \<or> (\<exists>seq blocks. unfinished m j k seq blocks)"

definition apply_txns :: "(u32 \<times> journal_block list) list \<Rightarrow> (nat \<Rightarrow> u8 list) \<Rightarrow> nat \<Rightarrow> u8 list" where
  "apply_txns ts = fold (\<lambda>(seq, blocks). apply_blocks blocks) ts"

lemma log_ends_cong:
  assumes "log_ends m j k" and "\<And>i. journal_start j \<le> i \<Longrightarrow> i < journal_start j + journal_size j \<Longrightarrow> m' i = m i"
  shows "log_ends m' j k"
proof -
  have "unfinished m' j k seq blocks" if "k < journal_size j" "unfinished m j k seq blocks" for seq blocks
    using that assms(2) by (auto simp: unfinished_def)
  moreover have "m' (journal_start j + k) = m (journal_start j + k)" if "k < journal_size j" using that assms(2) by simp
  ultimately show ?thesis using assms(1) unfolding log_ends_def by metis
qed

lemma be32_at_total: "12 \<le> length buf \<Longrightarrow> i \<le> 8 \<Longrightarrow> \<exists>v. be32_at i buf = Some v"
  by (simp add: be32_at_def)

lemma is_commit_total: "12 \<le> length buf \<Longrightarrow> \<exists>b. is_commit seq buf = Some b"
  using be32_at_total [of buf 0] be32_at_total [of buf 4] be32_at_total [of buf 8] by (auto simp: is_commit_def)

context block_disk
begin

lemma journal_read:
  assumes "journal_fits cap j" and "k < journal_size j"
  obtains d' where "read_sectors dev (journal_lba j k) (sectors_per_block j) d = (sector d (journal_start j + k), d')"
    "sector d' = sector d"
proof -
  have "unat (journal_lba j k) = journal_start j + k" by (rule unat_journal_lba [OF assms])
  moreover have "journal_start j + k < cap" using assms by (simp add: journal_fits_def)
  ultimately show ?thesis
    using that read_one [of "journal_lba j k" d] journal_fits_bytes(2) [OF assms(1)] by metis
qed

lemma replay_image:
  assumes "journal_fits cap j" and "k + length blocks \<le> journal_size j" and "\<forall>b \<in> set blocks. block_ok cap j b"
    and "holds (sector d) (journal_start j + k) (map data_image blocks)"
  shows "\<exists>d'. replay dev j k (map jb_fs_block blocks) d = (True, d') \<and> sector d' = apply_blocks blocks (sector d)"
  using assms(2-4)
proof (induction blocks arbitrary: k d)
  case (Cons b blocks)
  have ok: "block_ok cap j b" and blk: "sector d (journal_start j + k) = data_image b"
    and rest: "holds (sector d) (journal_start j + (k + 1)) (map data_image blocks)"
    using Cons.prems by (auto simp: holds_Cons)
  obtain d1 where r: "read_sectors dev (journal_lba j k) (sectors_per_block j) d = (data_image b, d1)" "sector d1 = sector d"
    using journal_read [OF assms(1), of k d] Cons.prems(1) blk by auto
  have len: "length (data_image b) = SECTOR" using ok by (intro length_data_image) (simp add: block_ok_def)
  have "unat (ucast (jb_fs_block b) :: u32) < cap" using unat_fs_lba [OF assms(1) ok] ok by (simp add: block_ok_def)
  then obtain d2 where w: "write_sectors dev (ucast (jb_fs_block b)) (data_image b) d1 = (True, d2)"
      "sector d2 = (sector d)(unat (jb_fs_block b) := data_image b)"
    using write_one [of "ucast (jb_fs_block b)" "data_image b" d1] len unat_fs_lba [OF assms(1) ok] r(2) by auto
  have "holds (sector d2) (journal_start j + (k + 1)) (map data_image blocks)"
    using ok Cons.prems(1) by (intro holds_cong [OF rest]) (auto simp: w(2) block_ok_def)
  then obtain d' where "replay dev j (k + 1) (map jb_fs_block blocks) d2 = (True, d')" "sector d' = apply_blocks blocks (sector d2)"
    using Cons.IH [of "k + 1" d2] Cons.prems by auto
  moreover have "data_image b \<noteq> []" using len by auto
  ultimately show ?case using r w by simp
qed simp

lemma scan_descriptor_block:
  assumes "journal_fits cap j" and "k < journal_size j" and "sector d (journal_start j + k) = desc_image seq blocks"
  shows "\<exists>d'. scan_block dev j k d = scan_descriptor dev j k (desc_image seq blocks) d' \<and> sector d' = sector d"
proof -
  obtain d' where "read_sectors dev (journal_lba j k) (sectors_per_block j) d = (desc_image seq blocks, d')" "sector d' = sector d"
    using journal_read [OF assms(1,2), of d] assms(3) by metis
  moreover have "\<not> length (desc_image seq blocks) < 12" by (simp add: desc_image_def desc_body_def)
  ultimately show ?thesis by (auto simp: scan_block_def desc_image_fields)
qed

lemma scan_txn:
  assumes "journal_fits cap j" and "txn_ok cap j (seq, blocks)" and "k + length blocks + 2 \<le> journal_size j"
    and "holds (sector d) (journal_start j + k) (txn_image seq blocks)"
  shows "\<exists>d'. scan_block dev j k d = Some (ScanReplayed (k + length blocks + 2), d') \<and> sector d' = apply_blocks blocks (sector d)"
proof -
  let ?c = "k + 1 + length blocks"
  have in_k: "k < journal_size j" and in_c: "?c < journal_size j" using assms(3) by simp_all
  have ok: "blocks \<noteq> []" "length blocks \<le> 31" "\<forall>b \<in> set blocks. block_ok cap j b" using assms(2) by (auto simp: txn_ok_def)
  have desc: "sector d (journal_start j + k) = desc_image seq blocks"
    and data: "holds (sector d) (journal_start j + (k + 1)) (map data_image blocks)"
    and commit: "sector d (journal_start j + ?c) = commit_block seq blocks"
    using assms(4) by (auto simp: txn_image_def holds_Cons holds_append add.assoc)
  obtain d1 where s1: "scan_block dev j k d = scan_descriptor dev j k (desc_image seq blocks) d1" "sector d1 = sector d"
    using scan_descriptor_block [OF assms(1) in_k desc] by blast
  obtain d2 where s2: "read_sectors dev (journal_lba j ?c) (sectors_per_block j) d1 = (commit_block seq blocks, d2)" "sector d2 = sector d"
    using journal_read [OF assms(1) in_c, of d1] unfolding s1(2) commit by blast
  obtain d3 where s3: "replay dev j (k + 1) (map jb_fs_block blocks) d2 = (True, d3)" "sector d3 = apply_blocks blocks (sector d)"
    using replay_image [OF assms(1), of "k + 1" blocks d2] assms(3) ok(3) data unfolding s2(2) by auto
  have "\<not> journal_size j \<le> ?c" using in_c by simp
  moreover have "desc_blocks SECTOR (length blocks) = Some 1" using ok by (intro desc_blocks_one) auto
  ultimately have "scan_descriptor dev j k (desc_image seq blocks) d1 = Some (ScanReplayed (?c + 1), d3)"
    using s2(1) s3(1)
    by (simp add: scan_descriptor_def journal_fits_bytes(1) [OF assms(1)] desc_image_fields read_tags_desc [OF ok(1,2)] is_commit_block)
  then show ?thesis using s1(1) s3(2) by simp
qed

end

context block_disk
begin

text \<open>Behind the last committed transaction the scan stops without a write.\<close>

lemma scan_stop:
  assumes "journal_fits cap j" and "k < journal_size j" and "\<not> magic (sector d (journal_start j + k))"
  shows "\<exists>d'. scan_block dev j k d = Some (ScanStop, d') \<and> sector d' = sector d"
proof -
  let ?buf = "sector d (journal_start j + k)"
  obtain d' where "read_sectors dev (journal_lba j k) (sectors_per_block j) d = (?buf, d')" "sector d' = sector d"
    using journal_read [OF assms(1,2), of d] by blast
  moreover obtain u v where "be32_at 0 ?buf = Some u" "be32_at 4 ?buf = Some v"
    using be32_at_total [of ?buf 0] be32_at_total [of ?buf 4] by (auto simp: sector_length)
  ultimately show ?thesis using assms(3) by (simp add: scan_block_def sector_length)
qed

lemma scan_unfinished:
  assumes "journal_fits cap j" and "k < journal_size j" and "unfinished (sector d) j k seq blocks"
  shows "\<exists>d'. sector d' = sector d \<and> (scan_block dev j k d = Some (ScanStop, d') \<or>
    scan_block dev j k d = Some (ScanSkip, d') \<and> \<not> magic (sector d (journal_start j + (k + 1))))"
proof -
  let ?c = "k + 1 + length blocks"
  have ok: "blocks \<noteq> []" "length blocks \<le> 31" "sector d (journal_start j + k) = desc_image seq blocks"
    using assms(3) by (auto simp: unfinished_def)
  obtain d1 where s1: "scan_block dev j k d = scan_descriptor dev j k (desc_image seq blocks) d1" "sector d1 = sector d"
    using scan_descriptor_block [OF assms(1,2) ok(3)] by blast
  have one: "desc_blocks SECTOR (length blocks) = Some 1" using ok by (intro desc_blocks_one) auto
  note sd = scan_descriptor_def journal_fits_bytes(1) [OF assms(1)] desc_image_fields read_tags_desc [OF ok(1,2)] one
  show ?thesis
  proof (cases "?c < journal_size j")
    case True
    obtain d2 where s2: "read_sectors dev (journal_lba j ?c) (sectors_per_block j) d1 = (sector d (journal_start j + ?c), d2)"
        "sector d2 = sector d"
      using journal_read [OF assms(1) True, of d1] unfolding s1(2) by blast
    obtain b where b: "is_commit seq (sector d (journal_start j + ?c)) = Some b"
      using is_commit_total [of "sector d (journal_start j + ?c)"] by (auto simp: sector_length)
    have nb: "\<not> b" "\<not> magic (sector d (journal_start j + (k + 1)))"
      using assms(3) True b by (auto simp: unfinished_def add.commute add.left_commute)
    then have "scan_block dev j k d = Some (ScanSkip, d2)" using True s2(1) b by (simp add: s1(1) sd sector_length)
    with s2(2) nb(2) show ?thesis by blast
  next
    case False
    then have "scan_block dev j k d = Some (ScanStop, d1)" by (simp add: s1(1) sd)
    with s1(2) show ?thesis by blast
  qed
qed

lemma scan_loop_end:
  assumes "journal_fits cap j" and "log_ends (sector d) j k"
  shows "\<exists>d'. scan_loop dev j k n d = Some (Inr n, d') \<and> sector d' = sector d"
proof -
  have stop: "\<exists>d'. scan_loop dev j i n d1 = Some (Inr n, d') \<and> sector d' = sector d"
    if nomagic: "i < journal_size j \<longrightarrow> \<not> magic (sector d (journal_start j + i))" and eq: "sector d1 = sector d" for i d1
  proof (cases "i < journal_size j")
    case True
    then obtain d' where "scan_block dev j i d1 = Some (ScanStop, d')" "sector d' = sector d"
      using scan_stop [OF assms(1) True, of d1] nomagic unfolding eq by blast
    then show ?thesis using True by (subst scan_loop.simps) simp
  qed (use eq in \<open>simp add: scan_loop.simps\<close>)
  show ?thesis
  proof (cases "k < journal_size j \<longrightarrow> \<not> magic (sector d (journal_start j + k))")
    case False
    then have k: "k < journal_size j" by blast
    with False assms(2) obtain seq blocks where "unfinished (sector d) j k seq blocks" by (auto simp: log_ends_def)
    then obtain d1 where d1: "sector d1 = sector d" and scan: "scan_block dev j k d = Some (ScanStop, d1) \<or>
        scan_block dev j k d = Some (ScanSkip, d1) \<and> \<not> magic (sector d (journal_start j + (k + 1)))"
      using scan_unfinished [OF assms(1) k] by blast
    from scan show ?thesis
    proof
      assume "scan_block dev j k d = Some (ScanStop, d1)"
      with d1 k show ?thesis by (subst scan_loop.simps) simp
    next
      assume skip: "scan_block dev j k d = Some (ScanSkip, d1) \<and> \<not> magic (sector d (journal_start j + (k + 1)))"
      then have "scan_loop dev j k n d = scan_loop dev j (k + 1) n d1" using k by (subst scan_loop.simps) simp
      with stop [of "k + 1" d1] skip d1 show ?thesis by simp
    qed
  qed (use stop in blast)
qed

lemma scan_loop_log:
  assumes "journal_fits cap j" and "\<forall>t \<in> set ts. txn_ok cap j t" and "k + length (journal_log ts) \<le> journal_size j"
    and "holds (sector d) (journal_start j + k) (journal_log ts)" and "log_ends (sector d) j (k + length (journal_log ts))"
  shows "\<exists>d'. scan_loop dev j k n d = Some (Inr (n + of_nat (length ts)), d') \<and> sector d' = apply_txns ts (sector d)"
  using assms(2-)
proof (induction ts arbitrary: k n d)
  case Nil
  then show ?case using scan_loop_end [OF assms(1), of d k n] by (simp add: apply_txns_def journal_log_def)
next
  case (Cons t ts)
  obtain seq blocks where t [simp]: "t = (seq, blocks)" by (cases t)
  let ?k = "k + length blocks + 2"
  have ok: "txn_ok cap j (seq, blocks)" using Cons.prems(1) by simp
  have len: "length (journal_log (t # ts)) = length blocks + 2 + length (journal_log ts)" by (simp add: journal_log_def)
  have here: "holds (sector d) (journal_start j + k) (txn_image seq blocks)"
    and rest: "holds (sector d) (journal_start j + ?k) (journal_log ts)"
    using Cons.prems(3) by (simp_all add: journal_log_def holds_append add.assoc)
  obtain d1 where s: "scan_block dev j k d = Some (ScanReplayed ?k, d1)" "sector d1 = apply_blocks blocks (sector d)"
    using scan_txn [OF assms(1) ok _ here] Cons.prems(2) unfolding len by auto
  have same: "sector d1 i = sector d i" if "journal_start j \<le> i" "i < journal_start j + journal_size j" for i
    using apply_blocks_frame [of blocks cap j i] that ok by (simp add: s(2) txn_ok_def)
  have h: "holds (sector d1) (journal_start j + ?k) (journal_log ts)"
    using Cons.prems(2) len by (intro holds_cong [OF rest] same) auto
  have e: "log_ends (sector d1) j (?k + length (journal_log ts))"
    using log_ends_cong [OF Cons.prems(4) same] unfolding len by (simp add: add.assoc)
  obtain d' where "scan_loop dev j ?k (n + 1) d1 = Some (Inr (n + 1 + of_nat (length ts)), d')"
      "sector d' = apply_txns ts (sector d1)"
    using Cons.IH [OF _ _ h e, of "n + 1"] Cons.prems(1,2) unfolding len by auto
  moreover have "scan_loop dev j k n d = scan_loop dev j ?k (n + 1) d1"
    using s(1) Cons.prems(2) unfolding len by (subst scan_loop.simps) simp
  ultimately show ?case using s(2) by (simp add: apply_txns_def add.commute add.left_commute)
qed

end

end
