(* ===== verification/Journal_Crash.thy ===== *)
theory Journal_Crash
  imports Journal_Recovery
begin

text \<open>
  What the journal guarantees across a crash.  \<open>journal_layout\<close> describes a disk whose journal holds a sequence of
  committed transactions behind its first block.  Recovery replays exactly these, in order; it may be interrupted and
  started again; it gives the disk a checkpoint of the same transactions gives; and it returns on every disk.  A commit
  puts its blocks at the first block of the journal, where recovery does not look for them.
\<close>

section \<open>The order of writes\<close>

lemma apply_blocks_outside: "i \<notin> (unat \<circ> jb_fs_block) ` set bs \<Longrightarrow> apply_blocks bs m i = m i"
  by (induction bs arbitrary: m) auto

lemma apply_blocks_inside: "i \<in> (unat \<circ> jb_fs_block) ` set bs \<Longrightarrow> apply_blocks bs m i = apply_blocks bs m' i"
proof (induction bs arbitrary: m m')
  case (Cons b bs)
  show ?case
  proof (cases "i \<in> (unat \<circ> jb_fs_block) ` set bs")
    case True
    then show ?thesis using Cons.IH by simp
  next
    case False
    then show ?thesis using Cons.prems by (auto simp: apply_blocks_outside)
  qed
qed simp

lemma apply_blocks_append: "apply_blocks (bs @ cs) m = apply_blocks cs (apply_blocks bs m)"
  by (simp add: apply_blocks_def)

lemma apply_blocks_again:
  assumes "set cs \<subseteq> set bs"
  shows "apply_blocks bs (apply_blocks cs m) = apply_blocks bs m"
proof
  fix i
  show "apply_blocks bs (apply_blocks cs m) i = apply_blocks bs m i"
  proof (cases "i \<in> (unat \<circ> jb_fs_block) ` set bs")
    case False
    then have "i \<notin> (unat \<circ> jb_fs_block) ` set cs" using assms by auto
    with False show ?thesis by (simp add: apply_blocks_outside)
  qed (rule apply_blocks_inside)
qed

definition log_blocks :: "(u32 \<times> journal_block list) list \<Rightarrow> journal_block list" where
  "log_blocks ts = concat (map snd ts)"

lemma apply_txns_blocks: "apply_txns ts m = apply_blocks (log_blocks ts) m"
  by (induction ts arbitrary: m) (auto simp: apply_txns_def log_blocks_def apply_blocks_append)

section \<open>The journal on disk\<close>

definition journal_layout :: "nat \<Rightarrow> journal \<Rightarrow> (nat \<Rightarrow> u8 list) \<Rightarrow> (u32 \<times> journal_block list) list \<Rightarrow> bool" where
  "journal_layout cap j m ts \<longleftrightarrow>
     journal_fits cap j \<and> magic (m (journal_start j)) \<and> (\<forall>t \<in> set ts. txn_ok cap j t) \<and>
     1 + length (journal_log ts) \<le> journal_size j \<and> holds m (journal_start j + 1) (journal_log ts) \<and>
     log_ends m j (1 + length (journal_log ts))"

lemma log_blocks_ok: "journal_layout cap j m ts \<Longrightarrow> b \<in> set (log_blocks ts) \<Longrightarrow> block_ok cap j b"
  by (auto simp: journal_layout_def log_blocks_def txn_ok_def)

lemma journal_layout_cong:
  assumes "journal_layout cap j m ts" and "\<And>i. journal_start j \<le> i \<Longrightarrow> i < journal_start j + journal_size j \<Longrightarrow> m' i = m i"
  shows "journal_layout cap j m' ts"
  using assms holds_cong [of m "journal_start j + 1" "journal_log ts" m'] log_ends_cong [of m j _ m']
  by (simp add: journal_layout_def)

lemma journal_layout_apply:
  assumes "journal_layout cap j m ts" and "set bs \<subseteq> set (log_blocks ts)"
  shows "journal_layout cap j (apply_blocks bs m) ts"
proof (rule journal_layout_cong [OF assms(1)])
  show "apply_blocks bs m i = m i" if "journal_start j \<le> i" "i < journal_start j + journal_size j" for i
    using that assms by (intro apply_blocks_frame [of _ cap j]) (auto dest: log_blocks_ok)
qed

abbreviation recovering :: "journal \<Rightarrow> journal" where
  "recovering j \<equiv> j\<lparr>j_flags := j_flags j OR JBD2_FLAG_RECOVERY\<rparr>"

lemma flags_irrelevant [simp]:
  "journal_fits cap (recovering j) = journal_fits cap j" "txn_ok cap (recovering j) = txn_ok cap j"
  "log_ends m (recovering j) = log_ends m j"
  by (simp_all add: journal_fits_def txn_ok_def block_ok_def log_ends_def unfinished_def fun_eq_iff)

context block_disk
begin

lemma recover_scans:
  assumes "journal_fits cap j" and "0 < journal_size j" and "magic (sector d (journal_start j))"
  shows "\<exists>d'. recover dev j d = map_option (\<lambda>(r, d). (r, recovering j, d)) (scan_loop dev (recovering j) 1 0 d') \<and> sector d' = sector d"
proof -
  obtain d' where r: "read_sectors dev (journal_lba j 0) (sectors_per_block j) d = (sector d (journal_start j + 0), d')"
      "sector d' = sector d"
    using journal_read [OF assms(1,2), of d] by blast
  have "sector d (journal_start j) \<noteq> []" using sector_length [of d "journal_start j"] by auto
  then have "recover dev j d = map_option (\<lambda>(r, d). (r, recovering j, d)) (scan_loop dev (recovering j) 1 0 d')"
    using r(1) assms(3)
    by (cases "scan_loop dev (recovering j) 1 0 d'") (auto simp: recover_def journal_lba_def split: prod.splits)
  with r(2) show ?thesis by blast
qed

lemma recover_log:
  assumes "journal_layout cap j (sector d) ts"
  shows "\<exists>d'. recover dev j d = Some (Inr (of_nat (length ts)), recovering j, d') \<and> sector d' = apply_blocks (log_blocks ts) (sector d)"
proof -
  have fits: "journal_fits cap j" and m: "magic (sector d (journal_start j))" and pos: "0 < journal_size j"
    using assms by (auto simp: journal_layout_def)
  obtain d1 where r: "recover dev j d = map_option (\<lambda>(r, d). (r, recovering j, d)) (scan_loop dev (recovering j) 1 0 d1)"
      "sector d1 = sector d"
    using recover_scans [OF fits pos m] by blast
  have "\<exists>d'. scan_loop dev (recovering j) 1 0 d1 = Some (Inr (0 + of_nat (length ts)), d') \<and> sector d' = apply_txns ts (sector d1)"
    using assms by (intro scan_loop_log) (simp_all add: journal_layout_def r(2))
  with r show ?thesis by (auto simp: apply_txns_blocks)
qed

end

section \<open>Checkpoints\<close>

text \<open>Transactions of whole blocks that wait for a checkpoint.\<close>

definition whole :: "journal_block \<Rightarrow> bool" where
  "whole b \<longleftrightarrow> \<not> jb_is_revoke b \<and> length (jb_data b) = SECTOR"

definition queued :: "journal \<Rightarrow> transaction list" where
  "queued j = map ((!) (j_store j)) (j_queue j)"

definition txn_log :: "transaction list \<Rightarrow> (u32 \<times> journal_block list) list" where
  "txn_log = map (\<lambda>t. (ucast (tr_sequence t), tr_blocks t))"

lemma data_image_whole: "whole b \<Longrightarrow> data_image b = jb_data b"
  by (simp add: whole_def data_image_def pad_block_def)

context block_disk
begin

lemma cp_block_whole:
  assumes "journal_fits cap j" and "block_ok cap j b" and "whole b"
  shows "\<exists>d'. cp_block dev j b d = (True, d') \<and> sector d' = (sector d)(unat (jb_fs_block b) := data_image b)"
proof -
  have lba: "unat (ucast (jb_fs_block b) :: u32) = unat (jb_fs_block b)" by (rule unat_fs_lba [OF assms(1,2)])
  then have "unat (ucast (jb_fs_block b) :: u32) < cap" using assms(2) by (simp add: block_ok_def)
  then obtain d' where "write_sectors dev (ucast (jb_fs_block b)) (jb_data b) d = (True, d')"
      "sector d' = (sector d)(unat (jb_fs_block b) := jb_data b)"
    using write_one [of "ucast (jb_fs_block b)" "jb_data b" d] assms(3) by (auto simp: lba whole_def)
  then show ?thesis
    using assms(3) by (simp add: cp_block_def journal_fits_bytes [OF assms(1)] data_image_whole) (simp add: whole_def)
qed

text \<open>A short block: a checkpoint keeps the rest of the block on disk.\<close>

lemma cp_block_partial:
  assumes "journal_fits cap j" and "block_ok cap j b" and "\<not> jb_is_revoke b" and "length (jb_data b) < SECTOR"
  shows "\<exists>d'. cp_block dev j b d = (True, d') \<and>
    sector d' = (sector d)(unat (jb_fs_block b) := jb_data b @ drop (length (jb_data b)) (sector d (unat (jb_fs_block b))))"
proof -
  let ?lba = "ucast (jb_fs_block b) :: u32" and ?old = "sector d (unat (jb_fs_block b))"
  let ?new = "jb_data b @ drop (length (jb_data b)) ?old"
  have lba: "unat ?lba = unat (jb_fs_block b)" by (rule unat_fs_lba [OF assms(1,2)])
  then have cap: "unat ?lba < cap" using assms(2) by (simp add: block_ok_def)
  obtain d1 where r: "read_sectors dev ?lba 1 d = (?old, d1)" "sector d1 = sector d" using read_one [OF cap, of d] lba by metis
  have len: "length ?new = SECTOR" using assms(4) by (simp add: sector_length)
  obtain d2 where "write_sectors dev ?lba ?new d1 = (True, d2)" "sector d2 = (sector d)(unat (jb_fs_block b) := ?new)"
    using write_one [OF cap len, of d1] lba r(2) by metis
  moreover have "?old \<noteq> []" using sector_length [of d "unat (jb_fs_block b)"] by auto
  ultimately show ?thesis
    using r assms(3,4) by (simp add: cp_block_def journal_fits_bytes [OF assms(1)] sector_length Let_def)
qed

lemma cp_blocks_whole:
  assumes "journal_fits cap j" and "\<forall>b \<in> set bs. block_ok cap j b \<and> whole b"
  shows "\<exists>d'. cp_blocks dev j bs d = (True, d') \<and> sector d' = apply_blocks bs (sector d)"
  using assms(2)
proof (induction bs arbitrary: d)
  case (Cons b bs)
  obtain d1 where "cp_block dev j b d = (True, d1)" "sector d1 = (sector d)(unat (jb_fs_block b) := data_image b)"
    using cp_block_whole [OF assms(1), of b d] Cons.prems by auto
  moreover obtain d' where "cp_blocks dev j bs d1 = (True, d')" "sector d' = apply_blocks bs (sector d1)"
    using Cons.IH [of d1] Cons.prems by auto
  ultimately show ?case by simp
qed simp

lemma cp_loop_whole:
  assumes "journal_fits cap j"
    and "\<forall>i \<in> set q. tr_state (j_store j ! i) = Finished \<and> (\<forall>b \<in> set (tr_blocks (j_store j ! i)). block_ok cap j b \<and> whole b)"
  shows "\<exists>j' d'. cp_loop dev q n j d = (Inr (n + of_nat (length q)), j', d') \<and> j_queue j' = [] \<and>
    j_tail_sequence j' = j_tail_sequence j \<and>
    sector d' = apply_blocks (log_blocks (txn_log (map ((!) (j_store j)) q))) (sector d)"
  using assms
proof (induction q arbitrary: n j d)
  case Nil
  then show ?case by (simp add: log_blocks_def txn_log_def)
next
  case (Cons i q)
  let ?t = "j_store j ! i"
  let ?j = "j\<lparr>j_stats := (j_stats j)\<lparr>js_blocks_revoked := js_blocks_revoked (j_stats j) + of_nat (length (tr_revoked ?t))\<rparr>\<rparr>"
  obtain d1 where b: "cp_blocks dev j (tr_blocks ?t) d = (True, d1)" "sector d1 = apply_blocks (tr_blocks ?t) (sector d)"
    using cp_blocks_whole [OF Cons.prems(1), of "tr_blocks ?t" d] Cons.prems(2) by auto
  have "journal_fits cap ?j" "\<forall>i \<in> set q. tr_state (j_store ?j ! i) = Finished \<and> (\<forall>b \<in> set (tr_blocks (j_store ?j ! i)). block_ok cap ?j b \<and> whole b)"
    using Cons.prems by (simp_all add: journal_fits_def block_ok_def)
  from Cons.IH [OF this, of "n + 1" d1] obtain j' d' where
    "cp_loop dev q (n + 1) ?j d1 = (Inr (n + 1 + of_nat (length q)), j', d')" "j_queue j' = []"
    "j_tail_sequence j' = j_tail_sequence j" "sector d' = apply_blocks (log_blocks (txn_log (map ((!) (j_store j)) q))) (sector d1)"
    by auto
  moreover have "tr_state ?t = Finished" using Cons.prems(2) by simp
  ultimately show ?case
    using b by (simp add: log_blocks_def txn_log_def apply_blocks_append add.commute add.left_commute)
qed

lemma checkpoint_whole:
  assumes "journal_fits cap j" and "\<forall>t \<in> set (queued j). tr_state t = Finished"
    and "\<forall>b \<in> set (log_blocks (txn_log (queued j))). block_ok cap j b \<and> whole b"
  shows "\<exists>j' d'. checkpoint dev j d = (Inr (), j', d') \<and> j_queue j' = [] \<and>
    j_tail_sequence j' = j_tail_sequence j + of_nat (length (j_queue j)) \<and>
    sector d' = apply_blocks (log_blocks (txn_log (queued j))) (sector d)"
proof -
  obtain j' d' where "cp_loop dev (j_queue j) 0 j d = (Inr (0 + of_nat (length (j_queue j))), j', d')" "j_queue j' = []"
    "j_tail_sequence j' = j_tail_sequence j" "sector d' = apply_blocks (log_blocks (txn_log (map ((!) (j_store j)) (j_queue j)))) (sector d)"
    using cp_loop_whole [OF assms(1), of "j_queue j" 0 d] assms(2,3) by (auto simp: queued_def log_blocks_def txn_log_def)
  then show ?thesis by (auto simp: checkpoint_def queued_def word_gt_0)
qed

end

section \<open>Commits\<close>

abbreviation committed :: "journal \<Rightarrow> nat \<Rightarrow> journal" where
  "committed j i \<equiv>
     on_transaction i (\<lambda>t. t\<lparr>tr_state := Finished\<rparr>)
       (j\<lparr>j_current := None, j_head_sequence := j_head_sequence j + 1, j_queue := j_queue j @ [i],
          j_stats := (j_stats j)\<lparr>js_transactions := js_transactions (j_stats j) + 1, js_commits := js_commits (j_stats j) + 1,
            js_blocks_written := js_blocks_written (j_stats j) + of_nat (length (tr_blocks (j_store j ! i)))\<rparr>\<rparr>)"

context block_disk
begin

lemma commit_image:
  assumes "journal_fits cap j" and "j_current j = Some i" and "i < length (j_store j)" and "\<not> j_aborted j"
    and "blocks = tr_blocks (j_store j ! i)" and "seq = ucast (tr_sequence (j_store j ! i))"
    and "blocks \<noteq> []" and "length blocks \<le> 31" and "length blocks + 2 \<le> journal_size j" and "\<forall>b \<in> set blocks. length (jb_data b) \<le> SECTOR"
  shows "\<exists>d'. commit_transaction dev j d = Some (Inr (), committed j i, d') \<and>
    sector d' = put_blocks (journal_start j) (txn_image seq blocks) (sector d)"
proof -
  let ?t = "(j_store j ! i)\<lparr>tr_state := Committing\<rparr>"
  let ?j = "on_transaction i (\<lambda>t. t\<lparr>tr_state := Committing\<rparr>) (j\<lparr>j_current := None\<rparr>)"
  have "journal_fits cap ?j" "journal_start ?j = journal_start j" "journal_size ?j = journal_size j" "j_store ?j ! i = ?t"
    using assms(1,3) by (simp_all add: journal_fits_def on_transaction_def)
  then obtain d' where "write_transaction dev ?j ?t d = Some (Inr (), d')"
      "sector d' = put_blocks (journal_start j) (txn_image seq blocks) (sector d)"
    using write_transaction_image [of ?j ?t blocks seq d] assms(5-) by auto
  then show ?thesis
    using assms(2-4) by (simp add: commit_transaction_def Let_def on_transaction_def)
qed

lemma recover_after_commit:
  assumes "journal_fits cap j" and "blocks \<noteq> []" and "length blocks + 2 \<le> journal_size j"
    and "holds (sector d) (journal_start j) (txn_image seq blocks)" and "\<not> magic (data_image (hd blocks))"
  shows "\<exists>d'. recover dev j d = Some (Inr 0, recovering j, d') \<and> sector d' = sector d"
proof -
  have "sector d (journal_start j) = desc_image seq blocks" "sector d (journal_start j + 1) = data_image (hd blocks)"
    using assms(2,4) by (cases blocks; simp add: txn_image_def holds_Cons)+
  then have "journal_layout cap j (sector d) []"
    using assms(1,3,5) by (simp add: journal_layout_def journal_log_def log_ends_def desc_image_fields)
  from recover_log [OF this] show ?thesis by (simp add: log_blocks_def)
qed

end

section \<open>Recovery of any disk\<close>

lemma be32_at_in: "i + 4 \<le> length buf \<Longrightarrow> \<exists>v. be32_at i buf = Some v"
  by (simp add: be32_at_def)

lemma read_tags_total: "length buf = SECTOR \<Longrightarrow> \<exists>xs. read_tags SECTOR buf k = Some xs"
proof (induction SECTOR buf k rule: read_tags.induct)
  case (1 buf k)
  show ?case
  proof (cases "k + 16 \<le> 508")
    case True
    with "1.prems" obtain u v w where at: "be32_at k buf = Some u" "be32_at (k + 4) buf = Some v" "be32_at (k + 8) buf = Some w"
      using be32_at_in [of k buf] be32_at_in [of "k + 4" buf] be32_at_in [of "k + 8" buf] by auto
    then have "\<exists>xs. (if v AND 8 \<noteq> 0 then Some [] else read_tags SECTOR buf (k + 16)) = Some xs"
      using "1.hyps" True "1.prems" by auto
    with at True show ?thesis by (subst read_tags.simps) (auto simp del: bind_eq_Some_conv)
  qed (simp add: read_tags.simps)
qed

context block_disk
begin

lemma scan_descriptor_total:
  assumes "journal_fits cap j" and "length buf = SECTOR"
  shows "\<exists>r. scan_descriptor dev j k buf d = Some r"
proof -
  obtain seq where s: "be32_at 8 buf = Some seq" using be32_at_in [of 8 buf] assms(2) by auto
  obtain xs where x: "read_tags SECTOR buf 12 = Some xs" using read_tags_total [OF assms(2)] by blast
  have "desc_blocks SECTOR (length xs) \<noteq> None" by (simp add: desc_blocks_def)
  then obtain n where n: "desc_blocks SECTOR (length xs) = Some n" by blast
  note sd = scan_descriptor_def journal_fits_bytes(1) [OF assms(1)] s x n
  show ?thesis
  proof (cases "k + n + length xs < journal_size j")
    case True
    let ?buf = "sector d (journal_start j + (k + n + length xs))"
    obtain d' where "read_sectors dev (journal_lba j (k + n + length xs)) (sectors_per_block j) d = (?buf, d')"
      using journal_read [OF assms(1) True, of d] by blast
    moreover obtain c where "is_commit seq ?buf = Some c" using is_commit_total [of ?buf seq] by (auto simp: sector_length)
    ultimately show ?thesis using True by (simp add: sd sector_length Let_def split: prod.split bool.split)
  qed (simp add: sd)
qed

lemma scan_block_total:
  assumes "journal_fits cap j" and "k < journal_size j"
  shows "\<exists>r. scan_block dev j k d = Some r"
proof -
  let ?buf = "sector d (journal_start j + k)"
  obtain d' where "read_sectors dev (journal_lba j k) (sectors_per_block j) d = (?buf, d')"
    using journal_read [OF assms, of d] by blast
  moreover obtain u v where "be32_at 0 ?buf = Some u" "be32_at 4 ?buf = Some v"
    using be32_at_in [of 0 ?buf] be32_at_in [of 4 ?buf] by (auto simp: sector_length)
  ultimately show ?thesis
    using scan_descriptor_total [OF assms(1), of ?buf k d'] by (auto simp: scan_block_def sector_length)
qed

lemma scan_loop_total:
  assumes "journal_fits cap j"
  shows "\<exists>r d'. scan_loop dev j k n d = Some (r, d') \<and> (\<forall>e. r = Inl e \<longrightarrow> e = IoError)"
proof (induction "journal_size j - k" arbitrary: k n d rule: less_induct)
  case less
  show ?case
  proof (cases "k < journal_size j")
    case True
    obtain r d1 where s: "scan_block dev j k d = Some (r, d1)" using scan_block_total [OF assms True, of d] by auto
    show ?thesis
    proof (cases r)
      case ScanSkip
      then show ?thesis using less [of "k + 1" n d1] True s by (subst scan_loop.simps) auto
    next
      case (ScanReplayed k')
      then have "k < k'" using s scan_advances by metis
      then show ?thesis using less [of k' "n + 1" d1] ScanReplayed True s by (subst scan_loop.simps) auto
    qed (use s True in \<open>simp_all add: scan_loop.simps [of dev j k n d]\<close>)
  qed (simp add: scan_loop.simps)
qed

lemma recover_total:
  assumes "journal_fits cap j" and "0 < journal_size j"
  shows "\<exists>r d'. recover dev j d = Some (r, recovering j, d') \<and> (\<forall>e. r = Inl e \<longrightarrow> e = IoError)"
proof (cases "magic (sector d (journal_start j))")
  case True
  obtain d1 where r: "recover dev j d = map_option (\<lambda>(r, d). (r, recovering j, d)) (scan_loop dev (recovering j) 1 0 d1)"
    using recover_scans [OF assms True] by blast
  obtain x d' where "scan_loop dev (recovering j) 1 0 d1 = Some (x, d')" "\<forall>e. x = Inl e \<longrightarrow> e = IoError"
    using scan_loop_total [of "recovering j" 1 0 d1] assms(1) by auto
  with r show ?thesis by auto
next
  case False
  let ?buf = "sector d (journal_start j)"
  obtain d' where "read_sectors dev (journal_lba j 0) (sectors_per_block j) d = (sector d (journal_start j + 0), d')"
    using journal_read [OF assms, of d] by blast
  moreover obtain u where "be32_at 0 ?buf = Some u" using be32_at_in [of 0 ?buf] by (auto simp: sector_length)
  ultimately have "recover dev j d = Some (Inr 0, recovering j, d')" using False by (simp add: recover_def journal_lba_def Let_def)
  then show ?thesis by simp
qed

end

section \<open>Blocks of more than one sector\<close>

text \<open>Successive blocks of the journal go to successive sectors whatever the block size: of two blocks of two sectors, the
  second half of the first is lost.\<close>

context block_disk
begin

lemma large_blocks_overlap:
  assumes "j_block_size j = 1024" and "length (jb_data a) = 1024" and "length (jb_data b) = 1024"
    and "journal_start j + 3 \<le> cap" and "cap \<le> 2 ^ 32"
  shows "\<exists>d'. data_loop dev j 0 [a, b] d = (Inr (), d') \<and>
    map (sector d') [journal_start j..<journal_start j + 3] =
      [take SECTOR (jb_data a), take SECTOR (jb_data b), drop SECTOR (jb_data b)]"
proof -
  let ?k = "journal_start j"
  have k: "unat (journal_lba j 0) = ?k" "unat (journal_lba j 1) = ?k + 1"
    using assms(4,5) unat_small_lba [of j 0] unat_small_lba [of j 1] by simp_all
  obtain d1 where w1: "write_sectors dev (journal_lba j 0) (jb_data a) d = (True, d1)"
      "\<And>i. sector d1 i = (if ?k \<le> i \<and> i < ?k + 2 then take SECTOR (drop (SECTOR * (i - ?k)) (jb_data a)) else sector d i)"
    using writes [of "jb_data a" 2 "journal_lba j 0" d] assms(2,4) k by auto
  obtain d2 where w2: "write_sectors dev (journal_lba j 1) (jb_data b) d1 = (True, d2)"
      "\<And>i. sector d2 i = (if ?k + 1 \<le> i \<and> i < ?k + 3 then take SECTOR (drop (SECTOR * (i - (?k + 1))) (jb_data b)) else sector d1 i)"
    using writes [of "jb_data b" 2 "journal_lba j 1" d1] assms(3,4) k by (auto simp: numeral_3_eq_3)
  have "data_loop dev j 0 [a, b] d = (Inr (), d2)"
    using w1(1) w2(1) assms(1-3) by (simp add: pad_block_def)
  moreover have "[?k..<?k + 3] = [?k, ?k + 1, ?k + 2]" by (simp add: upt_rec)
  ultimately show ?thesis using assms(3) by (simp add: w1(2) w2(2))
qed

end

section \<open>Properties\<close>



text \<open>C21.  Recovery returns, without a panic, on every disk: whatever bytes a journal of 512-byte blocks holds, the scan ends,
  every slice is in range, and the only error is that of a write the device refused.\<close>

theorem recover_never_panics:
  assumes "virtio_sectors inner sector cap" and "journal_fits cap j" and "j_total_blocks j \<noteq> 0"
  shows "\<exists>r d'. recover (virtio_block_device inner) j d = Some (r, j\<lparr>j_flags := j_flags j OR JBD2_FLAG_RECOVERY\<rparr>, d') \<and>
    (\<forall>e. r = Inl e \<longrightarrow> e = IoError)"
  using block_disk.recover_total [OF virtio_sectors.virtio_block_disk [OF assms(1)] assms(2)] assms(3) by (simp add: unat_gt_0)


section \<open>A disk with one committed transaction\<close>

definition demo_block :: journal_block where
  "demo_block = \<lparr>jb_fs_block = 20, jb_journal_block = 0, jb_data = replicate SECTOR 7, jb_is_revoke = False, jb_checksum = 0\<rparr>"

definition demo_txn :: transaction where
  "demo_txn = (transaction_new 1)\<lparr>tr_sequence := 1, tr_blocks := [demo_block], tr_state := Finished\<rparr>"

definition demo_journal :: journal where
  "demo_journal = (journal_new 0 0 4 8 512)\<lparr>j_store := [demo_txn], j_queue := [0]\<rparr>"

definition demo_disk :: "nat \<Rightarrow> u8 list" where
  "demo_disk = put_blocks 5 (txn_image 1 [demo_block]) ((\<lambda>_. [])(4 := be32 JBD2_MAGIC_NUMBER))"

lemma demo_fields [simp]:
  "j_start_block demo_journal = 4" "j_total_blocks demo_journal = 8" "j_block_size demo_journal = 512" "\<not> j_aborted demo_journal"
  "j_store demo_journal = [demo_txn]" "j_queue demo_journal = [0]" "tr_blocks demo_txn = [demo_block]" "tr_sequence demo_txn = 1"
  "tr_state demo_txn = Finished" "jb_fs_block demo_block = 20" "jb_data demo_block = replicate SECTOR 7" "\<not> jb_is_revoke demo_block"
  by (simp_all add: demo_journal_def journal_new_def demo_txn_def transaction_new_def demo_block_def)

lemma demo_fits: "journal_fits 32 demo_journal"
  by (simp add: journal_fits_def)

lemma demo_log: "txn_log (queued demo_journal) = [(1, [demo_block])]"
  by (simp add: txn_log_def queued_def)

lemma store_sector_full: "length (d i) = SECTOR \<Longrightarrow> store_sector d i = d i"
  by (simp add: store_sector_def)

lemma demo_sectors:
  "store_sector demo_disk 4 = take SECTOR (be32 JBD2_MAGIC_NUMBER @ replicate SECTOR 0)"
  "store_sector demo_disk 5 = desc_image 1 [demo_block]" "store_sector demo_disk 6 = data_image demo_block"
  "store_sector demo_disk 7 = commit_block 1 [demo_block]" "store_sector demo_disk 8 = replicate SECTOR 0"
  by (simp_all add: store_sector_def demo_disk_def put_blocks_def txn_image_def length_desc_image length_data_image)

lemma demo_layout: "journal_layout 32 demo_journal (store_sector demo_disk) (txn_log (queued demo_journal))"
proof -
  have "be32_at 0 (be32 JBD2_MAGIC_NUMBER @ take 508 (replicate SECTOR 0)) = Some JBD2_MAGIC_NUMBER" by (rule be32_at_here)
  then have m: "magic (store_sector demo_disk 4)" by (simp add: demo_sectors)
  have z: "\<not> magic (store_sector demo_disk 8)" by (simp add: demo_sectors be32_at_def from_be32_def)
  have "txn_ok 32 demo_journal (1, [demo_block])" by (simp add: txn_ok_def block_ok_def)
  moreover have "holds (store_sector demo_disk) 5 (txn_image 1 [demo_block])"
    by (simp add: txn_image_def holds_Cons demo_sectors)
  ultimately show ?thesis using m z demo_fits by (simp add: journal_layout_def demo_log journal_log_def log_ends_def)
qed

lemma store_sectors: "virtio_sectors (store_driver 32) store_sector 32"
  by (rule store.virtio_sectors_axioms)



theorem recover_never_panics_witness:
  "virtio_sectors (store_driver 32) store_sector 32 \<and> journal_fits 32 demo_journal \<and>
   (\<exists>r d'. recover (virtio_block_device (store_driver 32)) demo_journal (\<lambda>_. be32 JBD2_MAGIC_NUMBER @ replicate 508 255) =
     Some (r, demo_journal\<lparr>j_flags := j_flags demo_journal OR JBD2_FLAG_RECOVERY\<rparr>, d'))"
  using recover_never_panics [OF store_sectors demo_fits, of "\<lambda>_. be32 JBD2_MAGIC_NUMBER @ replicate 508 255"] store_sectors demo_fits
  by auto


end
