(* ===== verification/Spec2Isabelle.thy ===== *)
theory Spec2Isabelle
  imports Line_Discipline Refcache Fib_Pmm Channel Mailbox Pipe Semaphore Msgq Timing_Wheel Eevdf Work_Deque Lz4 Landlock
    Capability Checksum File_Lock Chacha20 Ebpf_Prog Journal_Crash
begin

text \<open>
  Verification of core components of the echOS kernel.

  The kernel is a Rust program; its subsystems talk to each other through shared tables guarded by
  locks and atomics.  Each theory below models one of them, operation by operation, as HOL functions
  from state to state; a lock makes the operation that holds it one step, and atomics that are
  accessed without a lock are separate steps wherever another task can run in between.

  \<^bold>\<open>Conventions.\<close>  \<open>EchOS_Prelude\<close> fixes them: fixed-width integers are words, a \<open>usize\<close> or an address is
  a natural number where it cannot wrap and is reduced modulo \<open>2 ^ 64\<close> where it can, a \<open>BTreeMap\<close> that
  is iterated is a key-sorted association list and one that is only looked up is a HOL map.  Errors
  are the left values of a sum type.  Calls into other parts of the kernel that only have an effect
  (signals, frames given back, tasks made ready) are recorded in lists.  A blocking call is one pass
  through its loop, with an outcome that says whether it returns or sleeps.

  \<^bold>\<open>Terminal.\<close>  \<open>Tty_Buffer\<close> models the ring of \<open>src/src/tty/buffer.rs\<close> and \<open>Line_Discipline\<close> the cooked
  and raw modes of \<open>src/src/tty/ldisc.rs\<close>.  The ring meets the queue contract; the line discipline
  refines a specification by edited lines and gives back what was typed.  \<open>unpush\<close> is split into its
  atomic steps, which shows a race with \<open>pop\<close>.

  \<^bold>\<open>Physical memory.\<close>  \<open>Frame_Table\<close> and \<open>Frame_Ownership\<close> model the frame table and the handle types of
  \<open>src/src/memory/frame_ownership/\<close>, \<open>Refcache\<close> its per-CPU deferred counts.  The ownership invariant
  excludes use after free and double free; the deferred counts are exact on one CPU.  \<open>Fib_Buddy\<close>
  and \<open>Fib_Pmm\<close> model the Fibonacci buddy allocator and the zoned manager over it
  (\<open>src/src/memory/fibonacci_buddy.rs\<close>, \<open>src/src/memory/fibonacci_pmm.rs\<close>): blocks handed out are
  disjoint, allocation fails only when it must, zone limits are respected.

  \<^bold>\<open>Communication.\<close>  \<open>Fifo_Contract\<close> states as a locale what a bounded queue promises and proves what
  follows from it; the ring, the channel, the mailbox and the pipe interpret it.  \<open>Wait_Queue\<close> is the
  sleep queue of \<open>src/src/task/scheduler.rs\<close>, \<open>Channel\<close> is \<open>src/src/ipc/channel.rs\<close>, \<open>Mailbox\<close> is
  \<open>src/src/ipc/message.rs\<close> and \<open>Pipe\<close> is \<open>src/src/posix/pipe.rs\<close> with named pipes and the system calls.
  The lemmas show that messages and bytes are neither lost, duplicated nor reordered, which error
  each call returns, and where a sleeper is not woken.  \<open>Semaphore\<close> is \<open>src/src/posix/semaphore.rs\<close>: the
  compare-and-swap loops are an inductive step relation over the tasks' program counters, and the
  accounting of units is an invariant of every interleaving.  \<open>Msgq\<close> is \<open>src/src/posix/msgq.rs\<close>, System V
  and POSIX message queues: per type, messages arrive in the order sent, and the order in which
  POSIX priorities are served is determined.

  \<^bold>\<open>Time and scheduling.\<close>  \<open>Timing_Wheel\<close> is \<open>src/src/task/timer.rs\<close>, the wheel of sleeping tasks: over any
  sequence of calls it returns every task exactly once, at the tick it is due.  The proof is an
  invariant on the buckets of the upper wheels and the multiset of tasks with their due ticks, which
  a cascade leaves alone.  \<open>Eevdf\<close> is the run queue of \<open>src/src/task/eevdf.rs\<close>: its states are an
  inductive reachability relation, its two ordered maps agree in all of them, and the task picked
  has the earliest virtual deadline.  \<open>Work_Deque\<close> is the lock-free work-stealing queue of
  \<open>src/src/task/deque.rs\<close>: the owner's and the thieves' operations are broken into their atomic accesses,
  an inductive step relation interleaves them in every way, and in every reachable state each task pushed
  is in the queue, in flight or taken, exactly once; every step simulates a step of a double-ended list.

  \<^bold>\<open>Access control.\<close>  \<open>Landlock\<close> is \<open>src/src/security/landlock.rs\<close>: the decision loop is shown to pick the
  most specific rule by path components.  \<open>Capability\<close> is \<open>src/src/security/capability.rs\<close>: rights are
  never amplified by derivation, and revocation removes exactly the tree below a capability.

  \<^bold>\<open>File locks.\<close>  \<open>File_Lock\<close> is \<open>src/src/fs/file_lock.rs\<close>: byte-range and whole-file locks and the two system
  calls.  Locks that conflict are never held together, the deadlock search is exact with respect to the
  transitive closure of the wait-for graph, and that graph stays acyclic.

  \<^bold>\<open>Journal.\<close>  \<open>Journal\<close> is the write-ahead journal of \<open>src/src/fs/journal.rs\<close>: transactions, commits, checkpoints and
  recovery, down to the bytes of the blocks, over a device of type \<open>block_device\<close>.  \<open>Block_Device\<close> has the device trait of
  \<open>src/src/drivers/mod.rs\<close> and its VirtIO implementation; the locale \<open>block_disk\<close> is what the journal relies on,
  \<open>virtio_sectors\<close> what the wrapper relies on, and the first follows from the second.  \<open>Crc32c\<close> is the checksum of
  the journal: the table agrees with the bitwise definition, and a change within four bytes is always noticed.
  \<open>Journal_Recovery\<close> computes the image a transaction leaves on disk and what a scan reads from it.  \<open>Journal_Crash\<close>
  shows that recovery replays exactly the committed transactions, completes an interrupted checkpoint and returns on every
  disk; and that commits write where recovery does not look.  These theorems are for blocks of one sector, as the code
  passes block numbers for sector addresses; for larger blocks a lemma shows that the blocks overlap.

  \<^bold>\<open>Programs in the kernel.\<close>  \<open>Ebpf\<close> is the eBPF interpreter and verifier of \<open>src/src/ebpf.rs\<close>: a panic is a value of
  the model, each instruction is shown to report a fault or to go on, and from what the verifier checks
  follows that a verified program never panics, never leaves its code and, without backward jumps, stops
  within its length.  The hypothesis on the second slots of 64-bit loads is needed: a concrete program
  that the verifier accepts panics without it.  \<open>Ebpf_Prog\<close> is the registry of programs and hooks of the
  same file, whose reachable states are an inductive relation: hooks only name verified programs of the
  right type, and running them cannot panic.

  \<^bold>\<open>Network.\<close>  \<open>Checksum\<close> is \<open>src/src/net/checksum.rs\<close>: the one's complement sums are characterised modulo
  \<open>2 ^ 16 - 1\<close>, a segment filled in verifies, and the incremental update agrees with a full recomputation.

  \<^bold>\<open>Cryptography.\<close>  \<open>Chacha20\<close> is \<open>src/src/crypto/chacha20.rs\<close>: decryption inverts encryption and checks the tag.
  Two lemmas show where the code falls short of the algorithm its documentation names.

  \<^bold>\<open>Decompression.\<close>  \<open>Lz4\<close> is \<open>src/helpers/echos-compression/src/lz4.rs\<close>: decoding inverts the block
  format and the two decoders agree.

  \<^bold>\<open>Bounds and termination.\<close>  No definition uses fuel.  Loops are structural recursion or have a measure:
  the unread input for the decoder, the number of capabilities left and the pending list for
  revocation, the remaining pages and the list index for the allocator, the value folded and the bytes
  left for checksums, the nodes not yet visited for the deadlock search, the instructions left for the
  verifier, the steps left of the limit the interpreter itself keeps, the bytes left of a descriptor and the
  blocks left of the journal for recovery.  A theorem that needs a
  counter not to have wrapped says so by bounding the number of operations.

  \<^bold>\<open>Not modelled.\<close>  Device drivers below the VirtIO block wrapper, the network protocols apart from checksums, on-disk file
  systems apart from locks and the journal, the other ciphers, graphics, the compatibility layers, boot code and the scheduler's context switch are outside
  this development: they work on hardware, raw memory or external formats.  Log output and statistics getters change no state and
  are left out.  Weak memory ordering is not modelled; atomics are sequentially consistent.
\<close>

end
